(* ===== verification/Prelude.thy ===== *)
theory Prelude
  imports Main "HOL-Library.Word"
begin

text \<open>
  Shared vocabulary of the development: the fixed-width integers and byte vectors of the
  C++ sources, the bridge between \<^verbatim>\<open>std::string\<close> characters and
  \<^verbatim>\<open>std::uint8_t\<close>, the outcome of a C++ call (a value, an exception, or undefined
  behaviour), and the generic list facts that the component theories share.

  Two collections steer the automation: \<open>outcome_simps\<close> holds the equations that run a
  computation that may throw, \<open>word_size_simps\<close> the facts that move sizes between
  \<^typ>\<open>nat\<close> and machine words.
\<close>

unbundle bit_operations_syntax

named_theorems outcome_simps \<open>equations that run a computation that may throw\<close>
named_theorems word_size_simps \<open>facts that move sizes between naturals and words\<close>

section \<open>Machine integers and bytes\<close>

type_synonym u8 = "8 word"
type_synonym u16 = "16 word"
type_synonym u32 = "32 word"
type_synonym u64 = "64 word"
type_synonym bytes = "u8 list"

text \<open>A \<^verbatim>\<open>char\<close> of a \<^verbatim>\<open>std::string\<close> read as a \<^verbatim>\<open>std::uint8_t\<close>, and back.\<close>

definition byte_of_char :: "char \<Rightarrow> u8" where
  "byte_of_char c = of_char c"

definition char_of_byte :: "u8 \<Rightarrow> char" where
  "char_of_byte w = char_of (unat w)"

definition string_bytes :: "string \<Rightarrow> bytes" where
  "string_bytes s = map byte_of_char s"

definition bytes_string :: "bytes \<Rightarrow> string" where
  "bytes_string b = map char_of_byte b"

lemma byte_of_char_eq: "byte_of_char c = word_of_nat (of_char c)"
  by (cases c) (auto simp: byte_of_char_def of_char_def horner_sum_simps split: bool.splits)

lemma unat_byte_of_char: "unat (byte_of_char c) = of_char c"
proof -
  have "of_char c < (256::nat)"
    by (metis char_of_mod_256 mod_less_divisor of_char_mod_256 zero_less_numeral)
  then show ?thesis
    by (simp add: byte_of_char_eq unat_of_nat take_bit_eq_mod)
qed

lemma char_of_byte_of_char [simp]: "char_of_byte (byte_of_char c) = c"
  by (simp add: char_of_byte_def unat_byte_of_char)

lemma byte_of_char_of_byte [simp]: "byte_of_char (char_of_byte w) = w"
proof -
  have "unat w < 256" using unsigned_less [of w] by simp
  then show ?thesis
    by (simp add: char_of_byte_def byte_of_char_eq)
qed

lemma bytes_string_string_bytes [simp]: "bytes_string (string_bytes s) = s"
  by (simp add: bytes_string_def string_bytes_def comp_def)

lemma string_bytes_bytes_string [simp]: "string_bytes (bytes_string b) = b"
  by (simp add: bytes_string_def string_bytes_def comp_def)

lemma string_bytes_append [simp]: "string_bytes (s @ t) = string_bytes s @ string_bytes t"
  by (simp add: string_bytes_def)

lemma length_string_bytes [simp]: "length (string_bytes s) = length s"
  by (simp add: string_bytes_def)

lemma length_bytes_string [simp]: "length (bytes_string b) = length b"
  by (simp add: bytes_string_def)

lemma string_bytes_eq_iff [simp]: "string_bytes s = string_bytes t \<longleftrightarrow> s = t"
  by (metis bytes_string_string_bytes)

section \<open>Outcomes: values, exceptions, undefined behaviour\<close>

text \<open>
  The exceptions of the standard library that the sources can raise. None of them is
  caught inside the library; a call that throws ends with \<open>Throw\<close>. A read outside a
  container's bounds through an iterator or \<^verbatim>\<open>operator[]\<close> is \<open>Undefined\<close>.
\<close>

datatype exn = invalid_argument | out_of_range | length_error | filesystem_error

datatype 'a outcome = Ret 'a | Throw exn | Undefined

fun obind :: "'a outcome \<Rightarrow> ('a \<Rightarrow> 'b outcome) \<Rightarrow> 'b outcome" where
  "obind (Ret x) f = f x"
| "obind (Throw e) f = Throw e"
| "obind Undefined f = Undefined"

fun omap :: "('a \<Rightarrow> 'b outcome) \<Rightarrow> 'a list \<Rightarrow> 'b list outcome" where
  "omap f [] = Ret []"
| "omap f (x # xs) = obind (f x) (\<lambda>y. obind (omap f xs) (\<lambda>ys. Ret (y # ys)))"

lemma obind_eq_Ret [simp]: "obind m f = Ret y \<longleftrightarrow> (\<exists>x. m = Ret x \<and> f x = Ret y)"
  by (cases m) auto

lemma obind_Ret_right [simp]: "obind m Ret = m"
  by (cases m) auto

lemma obind_assoc: "obind (obind m f) g = obind m (\<lambda>x. obind (f x) g)"
  by (cases m) auto

lemma omap_Ret [outcome_simps]: "(\<And>x. x \<in> set xs \<Longrightarrow> f x = Ret (g x)) \<Longrightarrow> omap f xs = Ret (map g xs)"
  by (induction xs) auto

declare obind_assoc [outcome_simps]

text \<open>A call that also changes a state: the state survives an exception.\<close>

fun sbind :: "'a outcome \<times> 's \<Rightarrow> ('a \<Rightarrow> 's \<Rightarrow> 'b outcome \<times> 't) \<Rightarrow> ('s \<Rightarrow> 't) \<Rightarrow> 'b outcome \<times> 't" where
  "sbind (Ret x, s) f g = f x s"
| "sbind (Throw e, s) f g = (Throw e, g s)"
| "sbind (Undefined, s) f g = (Undefined, g s)"

lemma sbind_Ret: "sbind m f g = (Ret y, t) \<longleftrightarrow> (\<exists>x s. m = (Ret x, s) \<and> f x s = (Ret y, t))"
  by (cases "(m, f, g)" rule: sbind.cases) auto

text \<open>Longer sequences of calls: an action on a state may also not return (\<open>None\<close>). \<open>ends m s Q\<close> says that
  it returns from \<open>s\<close>, without an exception, in a state and with a value that satisfy \<open>Q\<close>.\<close>

type_synonym ('a, 's) act = "'s \<Rightarrow> ('a outcome \<times> 's) option"

definition areturn :: "'a \<Rightarrow> ('a, 's) act" where
  "areturn x s = Some (Ret x, s)"

definition athrow :: "exn \<Rightarrow> ('a, 's) act" where
  "athrow e s = Some (Throw e, s)"

definition abind :: "('a, 's) act \<Rightarrow> ('a \<Rightarrow> ('b, 's) act) \<Rightarrow> ('b, 's) act" where
  "abind m f s =
     (case m s of
        None \<Rightarrow> None
      | Some (Ret x, s') \<Rightarrow> f x s'
      | Some (Throw e, s') \<Rightarrow> Some (Throw e, s')
      | Some (Undefined, s') \<Rightarrow> Some (Undefined, s'))"

definition ends :: "('a, 's) act \<Rightarrow> 's \<Rightarrow> ('a \<Rightarrow> 's \<Rightarrow> bool) \<Rightarrow> bool" where
  "ends m s Q \<longleftrightarrow> (\<exists>x s'. m s = Some (Ret x, s') \<and> Q x s')"

named_theorems ends_intros \<open>rules that compose returning actions\<close>

lemma abind_return [simp]: "abind (areturn x) f = f x"
  by (simp add: abind_def areturn_def fun_eq_iff)

lemma abind_Ret: "m s = Some (Ret x, s') \<Longrightarrow> abind m f s = f x s'"
  by (simp add: abind_def)

lemma ends_return [ends_intros]: "Q x s \<Longrightarrow> ends (areturn x) s Q"
  by (simp add: ends_def areturn_def)

lemma ends_bind [ends_intros]: "ends m s (\<lambda>x s'. ends (f x) s' Q) \<Longrightarrow> ends (abind m f) s Q"
  by (auto simp: ends_def abind_Ret)

lemma ends_mono: "ends m s P \<Longrightarrow> (\<And>x s'. P x s' \<Longrightarrow> Q x s') \<Longrightarrow> ends m s Q"
  by (auto simp: ends_def)

text \<open>\<open>keeps I m Q\<close>: from every state that satisfies the invariant the action returns, keeps the invariant,
  and gives a value in \<open>Q\<close>.\<close>

definition keeps :: "('s \<Rightarrow> bool) \<Rightarrow> ('a, 's) act \<Rightarrow> ('a \<Rightarrow> bool) \<Rightarrow> bool" where
  "keeps I m Q \<longleftrightarrow> (\<forall>s. I s \<longrightarrow> ends m s (\<lambda>x s'. I s' \<and> Q x))"

lemma keeps_return: "Q x \<Longrightarrow> keeps I (areturn x) Q"
  by (simp add: keeps_def ends_return)

lemma keeps_return_any: "keeps I (areturn x) (\<lambda>_. True)"
  by (simp add: keeps_return)

lemma keeps_bind: "keeps I m Q \<Longrightarrow> (\<And>x. Q x \<Longrightarrow> keeps I (f x) R) \<Longrightarrow> keeps I (abind m f) R"
  by (auto simp: keeps_def intro!: ends_bind elim!: ends_mono)

lemma keeps_mono: "keeps I m Q \<Longrightarrow> (\<And>x. Q x \<Longrightarrow> R x) \<Longrightarrow> keeps I m R"
  by (auto simp: keeps_def elim!: ends_mono)

section \<open>Sizes and words\<close>

lemma unat_of_size [word_size_simps]:
  "n < 2 ^ LENGTH('a) \<Longrightarrow> unat (of_nat n :: 'a::len word) = n"
  by (simp add: unat_of_nat take_bit_eq_mod)

lemma unat_of_size_mod: "unat (of_nat n :: 'a::len word) = n mod 2 ^ LENGTH('a)"
  by (simp add: unat_of_nat take_bit_eq_mod)

lemma unat_u8_less [simp]: "unat (b :: u8) < 256"
  using unsigned_less [of b] by simp

lemma unat_u16_less: "unat (b :: u16) < 2 ^ 16"
  using unsigned_less [of b] by simp

lemma unat_u32_less: "unat (b :: u32) < 2 ^ 32"
  using unsigned_less [of b] by simp

lemma unat_u64_less: "unat (b :: u64) < 2 ^ 64"
  using unsigned_less [of b] by simp

section \<open>Big-endian fields\<close>

lemma be32_roundtrip:
  "push_bit 24 (ucast (ucast (drop_bit 24 x) :: u8)) OR push_bit 16 (ucast (ucast (drop_bit 16 x) :: u8)) OR
   push_bit 8 (ucast (ucast (drop_bit 8 x) :: u8)) OR ucast (ucast x :: u8) = (x :: u32)" (is "?l = x")
proof (rule bit_word_eqI)
  fix n assume "n < LENGTH(32)"
  then consider "n < 8" | "8 \<le> n" "n < 16" | "16 \<le> n" "n < 24" | "24 \<le> n" "n < 32" by fastforce
  then show "bit ?l n = bit x n"
    by cases (auto simp: bit_simps)
qed

lemma be32_value:
  "(push_bit 24 (ucast a) OR push_bit 16 (ucast b) OR push_bit 8 (ucast c) OR ucast d :: u32) =
   of_nat (unat (a::u8) * 2 ^ 24 + unat (b::u8) * 2 ^ 16 + unat (c::u8) * 2 ^ 8 + unat (d::u8))"
proof -
  have "(push_bit 8 (ucast c) :: u32) AND ucast d = 0"
    "(push_bit 16 (ucast b) :: u32) AND (push_bit 8 (ucast c) OR ucast d) = 0"
    "(push_bit 24 (ucast a) :: u32) AND (push_bit 16 (ucast b) OR (push_bit 8 (ucast c) OR ucast d)) = 0"
    by (rule bit_word_eqI; auto simp: bit_simps dest: bit_imp_le_length)+
  then have "(push_bit 24 (ucast a) OR (push_bit 16 (ucast b) OR (push_bit 8 (ucast c) OR ucast d)) :: u32) =
      push_bit 24 (ucast a) + (push_bit 16 (ucast b) + (push_bit 8 (ucast c) + ucast d))"
    by (metis disjunctive_add_eq_or)
  then show ?thesis
    by (simp add: or.assoc push_bit_eq_mult)
qed

lemma be16_roundtrip:
  "push_bit 8 (ucast (ucast (drop_bit 8 x) :: u8)) OR ucast (ucast x :: u8) = (x :: u16)" (is "?l = x")
proof (rule bit_word_eqI)
  fix n assume "n < LENGTH(16)"
  then consider "n < 8" | "8 \<le> n" "n < 16" by fastforce
  then show "bit ?l n = bit x n"
    by cases (auto simp: bit_simps)
qed

section \<open>Lists\<close>

lemma take_append_drop_mid: "take n xs @ drop n xs = xs"
  by simp

lemma filter_id_conv_all: "filter P xs = xs \<longleftrightarrow> (\<forall>x \<in> set xs. P x)"
  by (simp add: filter_id_conv)

lemma distinct_map_filterI: "distinct (map f xs) \<Longrightarrow> distinct (map f (filter P xs))"
  by (simp add: distinct_map_filter)

lemma unat_pred_less: "a < c \<Longrightarrow> unat (c - 1) < unat c" for a c :: "'a::len word"
proof -
  assume "a < c"
  then have "c \<noteq> 0" by auto
  then show ?thesis by (simp add: unat_minus_one unat_gt_0)
qed

end
