(* ===== verification/Cpp_Text.thy ===== *)
theory Cpp_Text
  imports Prelude
begin

text \<open>
  The text operations of the C++ standard library that the sources call:
  \<^verbatim>\<open>std::to_string\<close>, \<^verbatim>\<open>std::stoi\<close>, \<^verbatim>\<open>std::stoull\<close>, \<^verbatim>\<open>std::isspace\<close>,
  \<^verbatim>\<open>find\<close> on a character, \<^verbatim>\<open>std::getline\<close> over a whole file, and the
  whitespace-separated extraction \<^verbatim>\<open>stream >> word\<close>. A \<^verbatim>\<open>std::string\<close> is a
  list of 8-bit characters, so \<^typ>\<open>string\<close> is exact.
\<close>

section \<open>Character classes\<close>

text \<open>\<^verbatim>\<open>std::isspace\<close> in the classic locale: space, \<^verbatim>\<open>\t \n \v \f \r\<close>.\<close>

definition tab :: char where "tab = CHR 0x09"
definition newline :: char where "newline = CHR 0x0A"

definition isspace :: "char \<Rightarrow> bool" where
  "isspace c \<longleftrightarrow> c = CHR '' '' \<or> (9 \<le> (of_char c :: nat) \<and> (of_char c :: nat) \<le> 13)"

definition isdigit :: "char \<Rightarrow> bool" where
  "isdigit c \<longleftrightarrow> 48 \<le> (of_char c :: nat) \<and> (of_char c :: nat) \<le> 57"

lemma isspace_tab [simp]: "isspace tab"
  by (simp add: isspace_def tab_def)

lemma isspace_newline [simp]: "isspace newline"
  by (simp add: isspace_def newline_def)

lemma tab_neq_newline [simp]: "tab \<noteq> newline" "newline \<noteq> tab"
  by (simp_all add: tab_def newline_def)

lemma isdigit_not_isspace [simp]: "isdigit c \<Longrightarrow> \<not> isspace c"
  by (auto simp: isspace_def isdigit_def)

section \<open>Decimal printing\<close>

definition digit_char :: "nat \<Rightarrow> char" where
  "digit_char d = char_of (48 + d)"

definition digit_val :: "char \<Rightarrow> nat" where
  "digit_val c = of_char c - 48"

fun to_string :: "nat \<Rightarrow> string" where
  "to_string n = (if n < 10 then [digit_char n] else to_string (n div 10) @ [digit_char (n mod 10)])"

declare to_string.simps [simp del]

definition to_string_int :: "int \<Rightarrow> string" where
  "to_string_int i = (if i < 0 then CHR ''-'' # to_string (nat (- i)) else to_string (nat i))"

lemma digit_char_props [simp]:
  assumes "d < 10"
  shows "isdigit (digit_char d)" "digit_val (digit_char d) = d"
  using assms by (auto simp: digit_char_def isdigit_def digit_val_def)

lemma to_string_digits: "c \<in> set (to_string n) \<Longrightarrow> isdigit c"
proof (induction n rule: to_string.induct)
  case (1 n)
  then show ?case by (cases "n < 10") (auto simp: to_string.simps [of n])
qed

lemma to_string_nonempty [simp]: "to_string n \<noteq> []"
  by (subst to_string.simps) simp

lemma to_string_no_space: "c \<in> set (to_string n) \<Longrightarrow> \<not> isspace c"
  by (simp add: to_string_digits)

section \<open>Decimal parsing\<close>

definition digits_value :: "string \<Rightarrow> nat" where
  "digits_value s = foldl (\<lambda>v c. v * 10 + digit_val c) 0 s"

lemma digits_value_snoc [simp]: "digits_value (s @ [c]) = digits_value s * 10 + digit_val c"
  by (simp add: digits_value_def)

lemma digits_value_to_string [simp]: "digits_value (to_string n) = n"
proof (induction n rule: to_string.induct)
  case (1 n)
  then show ?case
    by (cases "n < 10") (auto simp: to_string.simps [of n] digits_value_def [of "[digit_char n]"])
qed

lemma to_string_inj [simp]: "to_string m = to_string n \<longleftrightarrow> m = n"
  by (metis digits_value_to_string)

text \<open>
  \<^verbatim>\<open>strtol\<close>'s grammar: skip white space, an optional sign, then the longest run of
  digits; what follows is ignored. The result is the sign and the run.
\<close>

definition scan_integer :: "string \<Rightarrow> bool \<times> string" where
  "scan_integer s = (let t = dropWhile isspace s in
     case t of
       [] \<Rightarrow> (False, [])
     | c # cs \<Rightarrow>
         if c = CHR ''-'' then (True, takeWhile isdigit cs)
         else if c = CHR ''+'' then (False, takeWhile isdigit cs)
         else (False, takeWhile isdigit t))"

definition stoi :: "string \<Rightarrow> int outcome" where
  "stoi s = (let (neg, ds) = scan_integer s in
     if ds = [] then Throw invalid_argument
     else let v = (if neg then - int (digits_value ds) else int (digits_value ds)) in
       if v < - (2 ^ 31) \<or> 2 ^ 31 \<le> v then Throw out_of_range else Ret v)"

text \<open>\<^verbatim>\<open>std::stoull\<close> accepts a sign and negates in the unsigned type, as
  \<^verbatim>\<open>strtoull\<close> does.\<close>

definition stoull :: "string \<Rightarrow> u64 outcome" where
  "stoull s = (let (neg, ds) = scan_integer s in
     if ds = [] then Throw invalid_argument
     else if 2 ^ 64 \<le> digits_value ds then Throw out_of_range
     else Ret (if neg then - of_nat (digits_value ds) else of_nat (digits_value ds)))"

lemma dropWhile_isspace_id: "\<forall>c \<in> set s. \<not> isspace c \<Longrightarrow> dropWhile isspace s = s"
  by (cases s) auto

lemma scan_integer_to_string [simp]: "scan_integer (to_string n) = (False, to_string n)"
proof -
  obtain c cs where s: "to_string n = c # cs"
    using to_string_nonempty [of n] by (cases "to_string n") auto
  then have d: "isdigit c" "\<forall>x \<in> set cs. isdigit x"
    using to_string_digits [of _ n] by auto
  then have "takeWhile isdigit cs = cs" by simp
  moreover have "c \<noteq> CHR ''-''" "c \<noteq> CHR ''+''"
    using d(1) by (auto simp: isdigit_def)
  ultimately show ?thesis
    using d(1) by (simp add: scan_integer_def s)
qed

lemma stoi_to_string [simp]: "n < 2 ^ 31 \<Longrightarrow> stoi (to_string n) = Ret (int n)"
  by (simp add: stoi_def)

lemma stoull_to_string [simp]: "n < 2 ^ 64 \<Longrightarrow> stoull (to_string n) = Ret (of_nat n)"
  by (simp add: stoull_def)

section \<open>Searching and splitting\<close>

text \<open>\<open>find_char c s\<close> is \<^verbatim>\<open>s.find(c)\<close>, with \<open>None\<close> for \<^verbatim>\<open>npos\<close>.\<close>

fun find_char :: "char \<Rightarrow> string \<Rightarrow> nat option" where
  "find_char c [] = None"
| "find_char c (x # xs) = (if x = c then Some 0 else map_option Suc (find_char c xs))"

lemma find_char_None: "find_char c s = None \<longleftrightarrow> c \<notin> set s"
  by (induction s) auto

lemma find_char_append: "c \<notin> set s \<Longrightarrow> find_char c (s @ c # t) = Some (length s)"
  by (induction s) auto

lemma find_char_SomeD: "find_char c s = Some i \<Longrightarrow> i < length s \<and> s ! i = c \<and> c \<notin> set (take i s)"
proof (induction s arbitrary: i)
  case (Cons x xs)
  then show ?case by (cases i) (auto split: if_splits)
qed simp

text \<open>
  The splitting loop of \<^verbatim>\<open>WriteAheadLog::replay\<close>: every part between separators, the
  last one up to the end of the line; there is always at least one part.
\<close>

fun split_on :: "char \<Rightarrow> string \<Rightarrow> string list" where
  "split_on c [] = [[]]"
| "split_on c (x # xs) =
     (if x = c then [] # split_on c xs
      else case split_on c xs of [] \<Rightarrow> [[x]] | p # ps \<Rightarrow> (x # p) # ps)"

lemma split_on_nonempty [simp]: "split_on c s \<noteq> []"
  by (cases s) (auto split: list.splits)

lemma split_on_none: "c \<notin> set s \<Longrightarrow> split_on c s = [s]"
  by (induction s) auto

lemma split_on_append: "c \<notin> set s \<Longrightarrow> split_on c (s @ c # t) = s # split_on c t"
  by (induction s) auto

lemma split_on_sep: "split_on c (s @ c # t) = split_on c s @ split_on c t"
proof (induction s)
  case (Cons x s)
  then show ?case using split_on_nonempty [of c s] by (cases "split_on c s") auto
qed simp

lemma length_split_on: "length (split_on c s) = Suc (count_list s c)"
  by (induction s) (auto split: list.splits)

lemma split_on_parts_no_sep: "p \<in> set (split_on c s) \<Longrightarrow> c \<notin> set p"
  by (induction s arbitrary: p) (auto split: if_splits list.splits)

fun join_with :: "char \<Rightarrow> string list \<Rightarrow> string" where
  "join_with c [] = []"
| "join_with c [p] = p"
| "join_with c (p # q # ps) = p @ c # join_with c (q # ps)"

lemma join_split [simp]: "join_with c (split_on c s) = s"
proof (induction s)
  case (Cons x xs)
  obtain p ps where "split_on c xs = p # ps"
    using split_on_nonempty [of c xs] by (cases "split_on c xs") auto
  with Cons show ?case by (cases ps) auto
qed simp

lemma split_join: "ps \<noteq> [] \<Longrightarrow> \<forall>p \<in> set ps. c \<notin> set p \<Longrightarrow> split_on c (join_with c ps) = ps"
  by (induction c ps rule: join_with.induct) (auto simp: split_on_none split_on_append)

section \<open>Reading a file line by line\<close>

text \<open>
  The lines that \<^verbatim>\<open>while (std::getline(in, line))\<close> delivers: the text up to each
  newline, and the rest after the last newline when it is not empty.
\<close>

definition getlines :: "string \<Rightarrow> string list" where
  "getlines s = (let ps = split_on newline s in if last ps = [] then butlast ps else ps)"

lemma getlines_Nil [simp]: "getlines [] = []"
  by (simp add: getlines_def)

lemma getlines_line [simp]: "newline \<notin> set l \<Longrightarrow> getlines (l @ newline # rest) = l # getlines rest"
  by (simp add: getlines_def split_on_append Let_def)

lemma getlines_last: "newline \<notin> set l \<Longrightarrow> l \<noteq> [] \<Longrightarrow> getlines l = [l]"
  by (simp add: getlines_def split_on_none)

lemma getlines_concat:
  "\<forall>l \<in> set ls. newline \<notin> set l \<Longrightarrow>
   getlines (concat (map (\<lambda>l. l @ [newline]) ls) @ rest) = ls @ getlines rest"
  by (induction ls) auto

lemma getlines_sep: "getlines (s @ newline # t) = split_on newline s @ getlines t"
  by (simp add: getlines_def split_on_sep Let_def butlast_append)

section \<open>Whitespace-separated extraction\<close>

text \<open>
  \<^verbatim>\<open>stream >> word\<close>: skip white space and take the run up to the next white space. An
  empty word means that the extraction failed, and leaves nothing to read.
\<close>

definition extract_word :: "string \<Rightarrow> string \<times> string" where
  "extract_word s = (let t = dropWhile isspace s in (takeWhile (\<lambda>c. \<not> isspace c) t, dropWhile (\<lambda>c. \<not> isspace c) t))"

text \<open>
  \<^verbatim>\<open>stream >> n\<close> for a \<^verbatim>\<open>std::uint64_t\<close>: zero when no digits follow, the largest
  value when they overflow. A failed earlier extraction leaves \<open>s\<close> empty, hence zero.
\<close>

definition extract_u64 :: "string \<Rightarrow> u64" where
  "extract_u64 s = (let (neg, ds) = scan_integer s in
     if ds = [] then 0
     else if 2 ^ 64 \<le> digits_value ds then - 1
     else if neg then - of_nat (digits_value ds) else of_nat (digits_value ds))"

definition plain_word :: "string \<Rightarrow> bool" where
  "plain_word w \<longleftrightarrow> w \<noteq> [] \<and> (\<forall>c \<in> set w. \<not> isspace c)"

lemma plain_word_to_string [simp]: "plain_word (to_string n)"
  by (auto simp: plain_word_def dest: to_string_no_space)

lemma plain_word_no_sep:
  assumes "plain_word w"
  shows "tab \<notin> set w" "newline \<notin> set w"
  using assms isspace_tab isspace_newline unfolding plain_word_def by blast+

lemma extract_word_append:
  assumes "plain_word w" "isspace c"
  shows "extract_word (w @ c # rest) = (w, c # rest)"
proof -
  have "dropWhile isspace (w @ c # rest) = w @ c # rest"
    using assms(1) by (cases w) (auto simp: plain_word_def)
  then show ?thesis
    using assms by (simp add: extract_word_def Let_def plain_word_def)
qed

lemma extract_word_space: "isspace c \<Longrightarrow> extract_word (c # rest) = extract_word rest"
  by (simp add: extract_word_def)

lemma extract_word_no_space: "c \<in> set (fst (extract_word s)) \<Longrightarrow> \<not> isspace c"
  by (auto simp: extract_word_def Let_def dest: set_takeWhileD)

lemma extract_u64_space: "isspace c \<Longrightarrow> extract_u64 (c # rest) = extract_u64 rest"
  by (simp add: extract_u64_def scan_integer_def)

lemma extract_u64_to_string [simp]: "n < 2 ^ 64 \<Longrightarrow> extract_u64 (to_string n) = of_nat n"
  by (simp add: extract_u64_def)

end
