(* ===== verification/Codec.thy ===== *)
theory Codec
  imports Cpp_Text
begin

text \<open>
  The contract shared by the encodings of the store: wire frames, write-ahead-log lines
  and hinted-handoff lines. \<open>codec\<close> says that decoding undoes encoding on valid values;
  \<open>exact_codec\<close> adds that only encodings of valid values decode; \<open>line_codec\<close> is a codec
  into single lines of a text file, for which a whole file of lines reads back as the list
  that was written.
\<close>

locale codec =
  fixes enc :: "'a \<Rightarrow> 'b" and dec :: "'b \<Rightarrow> 'a option" and valid :: "'a \<Rightarrow> bool"
  assumes dec_enc: "valid x \<Longrightarrow> dec (enc x) = Some x"
begin

lemma enc_inj: "valid x \<Longrightarrow> valid y \<Longrightarrow> enc x = enc y \<Longrightarrow> x = y"
  by (metis dec_enc option.inject)

lemma dec_enc_list: "(\<And>x. x \<in> set xs \<Longrightarrow> valid x) \<Longrightarrow> map dec (map enc xs) = map Some xs"
  by (induction xs) (simp_all add: dec_enc)

end

locale exact_codec = codec +
  assumes dec_exact: "dec y = Some x \<Longrightarrow> valid x \<and> enc x = y"
begin

lemma dec_iff: "dec y = Some x \<longleftrightarrow> valid x \<and> enc x = y"
  using dec_enc dec_exact by blast

lemma dec_inj: "dec y = Some x \<Longrightarrow> dec z = Some x \<Longrightarrow> y = z"
  using dec_exact by blast

end

locale line_codec = codec enc dec valid
  for enc :: "'a \<Rightarrow> string" and dec :: "string \<Rightarrow> 'a option" and valid :: "'a \<Rightarrow> bool" +
  assumes enc_one_line: "valid x \<Longrightarrow> newline \<notin> set (enc x)"
begin

lemma file_lines:
  assumes "\<And>x. x \<in> set xs \<Longrightarrow> valid x"
  shows "getlines (concat (map (\<lambda>x. enc x @ [newline]) xs) @ rest) = map enc xs @ getlines rest"
proof -
  have "\<forall>l \<in> set (map enc xs). newline \<notin> set l" using assms enc_one_line by auto
  from getlines_concat [OF this, of rest] show ?thesis by (simp add: comp_def)
qed

lemma file_roundtrip:
  assumes "\<And>x. x \<in> set xs \<Longrightarrow> valid x"
  shows "map dec (getlines (concat (map (\<lambda>x. enc x @ [newline]) xs))) = map Some xs"
  using file_lines [OF assms, of xs "[]"] dec_enc_list [of xs] assms by simp

end

end
