(* ===== verification/Status_Result.thy ===== *)
theory Status_Result
  imports Cpp_Text
begin

text \<open>
  \<^verbatim>\<open>include/dstore/common/result.h\<close>: the status codes, \<^verbatim>\<open>Status\<close> and
  \<^verbatim>\<open>Result<T>\<close>. A \<^verbatim>\<open>Result<T>\<close> holds either a value or a status; its constructor
  from a status throws when that status is OK, so a stored status is always an error
  (\<open>result_wf\<close>). \<^verbatim>\<open>Result<void>\<close> is the instance at type \<^typ>\<open>unit\<close>: its constructor
  from an OK status is the successful result.
\<close>

datatype status_code =
  kOk | kInvalidArgument | kUnauthenticated | kPermissionDenied | kNotFound | kConflict | kUnavailable | kInternal

record status =
  code :: status_code
  message :: string

definition Status_Ok :: status where
  "Status_Ok = \<lparr>code = kOk, message = []\<rparr>"

definition Invalid :: "string \<Rightarrow> status" where
  "Invalid m = \<lparr>code = kInvalidArgument, message = m\<rparr>"

definition Unauthenticated :: "string \<Rightarrow> status" where
  "Unauthenticated m = \<lparr>code = kUnauthenticated, message = m\<rparr>"

definition PermissionDenied :: "string \<Rightarrow> status" where
  "PermissionDenied m = \<lparr>code = kPermissionDenied, message = m\<rparr>"

definition NotFound :: "string \<Rightarrow> status" where
  "NotFound m = \<lparr>code = kNotFound, message = m\<rparr>"

definition Conflict :: "string \<Rightarrow> status" where
  "Conflict m = \<lparr>code = kConflict, message = m\<rparr>"

definition Unavailable :: "string \<Rightarrow> status" where
  "Unavailable m = \<lparr>code = kUnavailable, message = m\<rparr>"

definition Internal :: "string \<Rightarrow> status" where
  "Internal m = \<lparr>code = kInternal, message = m\<rparr>"

lemmas status_defs = Status_Ok_def Invalid_def Unauthenticated_def PermissionDenied_def NotFound_def
  Conflict_def Unavailable_def Internal_def

definition status_ok :: "status \<Rightarrow> bool" where
  "status_ok s \<longleftrightarrow> code s = kOk"

datatype 'a result = Value 'a | Error status

text \<open>The constructor from a \<^verbatim>\<open>Status\<close>.\<close>

definition Result_of_status :: "status \<Rightarrow> 'a result outcome" where
  "Result_of_status s = (if status_ok s then Throw invalid_argument else Ret (Error s))"

definition Result_void :: "status \<Rightarrow> unit result" where
  "Result_void s = (if status_ok s then Value () else Error s)"

fun result_ok :: "'a result \<Rightarrow> bool" where
  "result_ok (Value _) = True"
| "result_ok (Error _) = False"

fun result_status :: "'a result \<Rightarrow> status" where
  "result_status (Value _) = Status_Ok"
| "result_status (Error s) = s"

fun result_wf :: "'a result \<Rightarrow> bool" where
  "result_wf (Value _) = True"
| "result_wf (Error s) = (\<not> status_ok s)"

lemma status_ok_simps [simp]:
  "status_ok Status_Ok" "\<not> status_ok (Invalid m)" "\<not> status_ok (Unauthenticated m)"
  "\<not> status_ok (PermissionDenied m)" "\<not> status_ok (NotFound m)" "\<not> status_ok (Conflict m)"
  "\<not> status_ok (Unavailable m)" "\<not> status_ok (Internal m)"
  by (simp_all add: status_ok_def status_defs)

lemma code_simps [simp]:
  "code Status_Ok = kOk" "code (Invalid m) = kInvalidArgument" "code (Unauthenticated m) = kUnauthenticated"
  "code (PermissionDenied m) = kPermissionDenied" "code (NotFound m) = kNotFound" "code (Conflict m) = kConflict"
  "code (Unavailable m) = kUnavailable" "code (Internal m) = kInternal"
  by (simp_all add: status_defs)

text \<open>The early return on an error, as seen from a successful result.\<close>

lemma case_result_Value [simp]:
  "(case x of Value r \<Rightarrow> f r | Error s \<Rightarrow> Ret (Error s)) = Ret (Value y) \<longleftrightarrow> (\<exists>r. x = Value r \<and> f r = Ret (Value y))"
  by (cases x) auto

lemma Result_of_status_wf: "Result_of_status s = Ret r \<Longrightarrow> result_wf r \<and> \<not> result_ok r"
  by (auto simp: Result_of_status_def split: if_splits)

lemma result_ok_iff_status: "result_wf r \<Longrightarrow> result_ok r \<longleftrightarrow> status_ok (result_status r)"
  by (cases r) auto

end
