(* ===== verification/Wire_Frame.thy ===== *)
theory Wire_Frame
  imports Codec Status_Result
begin

text \<open>
  \<^verbatim>\<open>src/network/wire.cpp\<close>: the binary frame (type, correlation id, payload) with its
  16-bit and 32-bit big-endian length fields. The length check of \<^verbatim>\<open>decode_frame\<close> adds
  three values of type \<^verbatim>\<open>unsigned int\<close> and so works modulo \<open>2^32\<close>; the two
  \<^verbatim>\<open>assign\<close> calls behind it read through raw iterators and are \<open>Undefined\<close> when they
  leave the vector.
\<close>

record wire_frame =
  frame_type :: u16
  correlation_id :: string
  payload :: bytes

definition put_u16 :: "u16 \<Rightarrow> bytes" where
  "put_u16 v = [ucast (drop_bit 8 v), ucast v]"

definition put_u32 :: "u32 \<Rightarrow> bytes" where
  "put_u32 v = [ucast (drop_bit 24 v), ucast (drop_bit 16 v), ucast (drop_bit 8 v), ucast v]"

definition get_u16 :: "bytes \<Rightarrow> nat \<Rightarrow> u16" where
  "get_u16 b i = push_bit 8 (ucast (b ! i)) OR ucast (b ! (i + 1))"

definition get_u32 :: "bytes \<Rightarrow> nat \<Rightarrow> u32" where
  "get_u32 b i = push_bit 24 (ucast (b ! i)) OR push_bit 16 (ucast (b ! (i + 1))) OR
     push_bit 8 (ucast (b ! (i + 2))) OR ucast (b ! (i + 3))"

definition encode_frame :: "wire_frame \<Rightarrow> bytes" where
  "encode_frame frame =
     put_u16 (frame_type frame) @ put_u16 (of_nat (length (correlation_id frame))) @
     put_u32 (of_nat (length (payload frame))) @ string_bytes (correlation_id frame) @ payload frame"

definition decode_frame :: "bytes \<Rightarrow> wire_frame result outcome" where
  "decode_frame bytes =
     (if length bytes < 8 then Ret (Error (Invalid ''wire frame too short''))
      else let cid_len = get_u16 bytes 2; payload_len = get_u32 bytes 4 in
        if length bytes \<noteq> unat (8 + ucast cid_len + payload_len :: u32)
        then Ret (Error (Invalid ''wire frame length mismatch''))
        else if length bytes < 8 + unat cid_len then Undefined
        else Ret (Value \<lparr>frame_type = get_u16 bytes 0,
               correlation_id = bytes_string (take (unat cid_len) (drop 8 bytes)),
               payload = drop (8 + unat cid_len) bytes\<rparr>))"

section \<open>Headers\<close>

lemma get_put_u16: "get_u16 (put_u16 v @ rest) 0 = v"
  using be16_roundtrip [of v] by (simp add: get_u16_def put_u16_def)

lemma get_put_u32: "get_u32 (put_u32 v @ rest) 0 = v"
  using be32_roundtrip [of v] by (simp add: get_u32_def put_u32_def)

lemma get_u16_append: "get_u16 (a @ b) (length a) = get_u16 b 0"
  by (simp add: get_u16_def nth_append)

lemma get_u32_append: "get_u32 (a @ b) (length a) = get_u32 b 0"
  by (simp add: get_u32_def nth_append numeral_2_eq_2 numeral_3_eq_3)

lemma length_put [simp]: "length (put_u16 v) = 2" "length (put_u32 w) = 4"
  by (simp_all add: put_u16_def put_u32_def)

text \<open>A header is determined by the three numbers read from it.\<close>

lemma header_fields:
  assumes "bytes = put_u16 t @ put_u16 c @ put_u32 p @ rest"
  shows "get_u16 bytes 0 = t" "get_u16 bytes 2 = c" "get_u32 bytes 4 = p" "drop 8 bytes = rest" "8 \<le> length bytes"
proof -
  show "get_u16 bytes 0 = t" by (simp add: assms get_put_u16)
  show "get_u16 bytes 2 = c"
    using get_u16_append [of "put_u16 t" "put_u16 c @ put_u32 p @ rest"] by (simp add: assms get_put_u16)
  show "get_u32 bytes 4 = p"
    using get_u32_append [of "put_u16 t @ put_u16 c" "put_u32 p @ rest"] by (simp add: assms get_put_u32)
  show "drop 8 bytes = rest" "8 \<le> length bytes"
    by (simp_all add: assms put_u16_def put_u32_def)
qed

lemma put_get_u16: "put_u16 (push_bit 8 (ucast a) OR ucast b) = [a, b]"
proof -
  have "ucast (drop_bit 8 (push_bit 8 (ucast a) OR ucast b :: u16)) = a" "ucast (push_bit 8 (ucast a) OR ucast b :: u16) = b"
    by (rule bit_word_eqI; auto simp: bit_simps dest: bit_imp_le_length)+
  then show ?thesis by (simp add: put_u16_def)
qed

lemma put_get_u32:
  "put_u32 (push_bit 24 (ucast a) OR push_bit 16 (ucast b) OR push_bit 8 (ucast c) OR ucast d) = [a, b, c, d]"
proof -
  let ?x = "push_bit 24 (ucast a) OR push_bit 16 (ucast b) OR push_bit 8 (ucast c) OR ucast d :: u32"
  have "ucast (drop_bit 24 ?x) = a" "ucast (drop_bit 16 ?x) = b" "ucast (drop_bit 8 ?x) = c" "ucast ?x = d"
    by (rule bit_word_eqI; auto simp: bit_simps dest: bit_imp_le_length)+
  then show ?thesis by (simp add: put_u32_def)
qed

lemma header_exists:
  assumes "8 \<le> length b"
  shows "b = put_u16 (get_u16 b 0) @ put_u16 (get_u16 b 2) @ put_u32 (get_u32 b 4) @ drop 8 b"
proof -
  have "b = take 8 b @ drop 8 b" by simp
  also have "take 8 b = [b ! 0, b ! 1, b ! 2, b ! 3, b ! 4, b ! 5, b ! 6, b ! 7]"
    using assms by (auto intro!: nth_equalityI simp: less_Suc_eq numeral_eq_Suc)
  finally show ?thesis by (simp add: get_u16_def get_u32_def put_get_u16 put_get_u32)
qed

section \<open>The length check\<close>

lemma header_sum:
  "unat (8 + ucast (c :: u16) + p :: u32) = (8 + unat c + unat p) mod 2 ^ 32"
proof -
  have "unat c < 2 ^ 32" using unat_u16_less [of c] by simp
  then have "unat (ucast c :: u32) = unat c" by (simp add: unsigned_ucast_eq take_bit_nat_eq_self)
  then show ?thesis by (simp add: unat_word_ariths mod_simps)
qed

lemma header_sum_less: "8 + unat (c :: u16) + unat (p :: u32) < 2 * 2 ^ 32"
  using unat_u16_less [of c] unat_u32_less [of p] by simp

lemma decode_frame_cases:
  assumes "b = put_u16 t @ put_u16 c @ put_u32 p @ rest"
  shows "decode_frame b =
    (if 8 + unat c + unat p < 2 ^ 32 then
       if length rest = unat c + unat p
       then Ret (Value \<lparr>frame_type = t, correlation_id = bytes_string (take (unat c) rest), payload = drop (unat c) rest\<rparr>)
       else Ret (Error (Invalid ''wire frame length mismatch''))
     else if length b + 2 ^ 32 = 8 + unat c + unat p then Undefined
     else Ret (Error (Invalid ''wire frame length mismatch'')))"
proof -
  note h = header_fields [OF assms]
  have len: "length b = 8 + length rest" by (simp add: assms)
  have p: "unat p < 2 ^ 32" using unat_u32_less [of p] by simp
  have dr: "drop (8 + n) b = drop n rest" for n using h(4) by (metis drop_drop add.commute)
  show ?thesis
  proof (cases "8 + unat c + unat p < 2 ^ 32")
    case True
    then show ?thesis
      using len h(5) by (auto simp: decode_frame_def Let_def h(1-4) header_sum dr)
  next
    case False
    then have "(8 + unat c + unat p) mod 2 ^ 32 = 8 + unat c + unat p - 2 ^ 32"
      using header_sum_less [of c p] by (simp add: mod_if)
    with False p show ?thesis
      using len h(5) by (auto simp: decode_frame_def Let_def h(1-4) header_sum)
  qed
qed

definition frame_fits :: "wire_frame \<Rightarrow> bool" where
  "frame_fits f \<longleftrightarrow> length (correlation_id f) < 2 ^ 16 \<and> 8 + length (correlation_id f) + length (payload f) < 2 ^ 32"

lemma decode_encode:
  assumes "frame_fits f"
  shows "decode_frame (encode_frame f) = Ret (Value f)"
proof -
  have c: "unat (of_nat (length (correlation_id f)) :: u16) = length (correlation_id f)"
    using assms by (intro unat_of_size) (simp add: frame_fits_def)
  have p: "unat (of_nat (length (payload f)) :: u32) = length (payload f)"
    using assms by (intro unat_of_size) (simp add: frame_fits_def)
  show ?thesis
    using assms by (simp add: decode_frame_cases [OF encode_frame_def] c p frame_fits_def)
qed

lemma encode_decode:
  assumes "decode_frame b = Ret (Value f)"
  shows "encode_frame f = b \<and> frame_fits f"
proof -
  have l: "8 \<le> length b"
    using assms by (auto simp: decode_frame_def split: if_splits)
  define c p where "c = get_u16 b 2" and "p = get_u32 b 4"
  have b: "b = put_u16 (get_u16 b 0) @ put_u16 c @ put_u32 p @ drop 8 b"
    unfolding c_def p_def by (rule header_exists [OF l])
  have f: "8 + unat c + unat p < 2 ^ 32" "length (drop 8 b) = unat c + unat p"
    "f = \<lparr>frame_type = get_u16 b 0, correlation_id = bytes_string (take (unat c) (drop 8 b)), payload = drop (unat c) (drop 8 b)\<rparr>"
    using assms unfolding decode_frame_cases [OF b] by (auto split: if_splits)
  have "length (correlation_id f) = unat c" "length (payload f) = unat p"
    using f(2) by (auto simp: f(3))
  moreover have "unat c < 2 ^ 16" using unat_u16_less [of c] by simp
  moreover have "encode_frame f = b"
  proof -
    have "string_bytes (correlation_id f) @ payload f = drop 8 b" by (simp add: f(3) del: drop_drop)
    moreover have "frame_type f = get_u16 b 0" by (simp add: f(3))
    ultimately show ?thesis
      using b \<open>length (correlation_id f) = unat c\<close> \<open>length (payload f) = unat p\<close> by (simp add: encode_frame_def)
  qed
  ultimately show ?thesis using f(1) by (simp add: frame_fits_def)
qed

fun decoded :: "'a result outcome \<Rightarrow> 'a option" where
  "decoded (Ret (Value x)) = Some x"
| "decoded _ = None"

lemma decoded_Some [simp]: "decoded r = Some x \<longleftrightarrow> r = Ret (Value x)"
  by (cases "r" rule: decoded.cases) auto

interpretation wire: exact_codec encode_frame "\<lambda>b. decoded (decode_frame b)" frame_fits
  by unfold_locales (use decode_encode encode_decode in auto)

section \<open>Properties\<close>

text \<open>
  C31: decoding the encoding of a frame gives the frame back exactly when the correlation id
  is shorter than \<open>2^16\<close> bytes and the whole frame shorter than \<open>2^32\<close>; longer fields are
  truncated by the encoder and the result is not the frame.
\<close>

theorem wire_roundtrip_iff:
  "decode_frame (encode_frame f) = Ret (Value f) \<longleftrightarrow>
     length (correlation_id f) < 2 ^ 16 \<and> 8 + length (correlation_id f) + length (payload f) < 2 ^ 32"
  using decode_encode encode_decode unfolding frame_fits_def by blast

text \<open>
  the decoder accepts nothing but encodings: a byte string decodes to a frame exactly
  when it is the encoding of that frame and the frame fits its length fields. Hence two
  different byte strings never decode to the same frame.
\<close>

theorem wire_decode_exact:
  "decode_frame b = Ret (Value f) \<longleftrightarrow>
     b = encode_frame f \<and> length (correlation_id f) < 2 ^ 16 \<and>
     8 + length (correlation_id f) + length (payload f) < 2 ^ 32"
  using wire.dec_iff [of b f] by (auto simp: frame_fits_def)

text \<open>
  the decoder reads outside its input exactly when the length fields of the header add
  up to at least \<open>2^32\<close> and the sum modulo \<open>2^32\<close> happens to be the real length; on every
  other input it returns a frame or an error. (The fields are given as the numbers in the
  header; \<open>header_exists\<close> shows that every input of eight bytes or more has this form.)
\<close>

theorem wire_decode_undefined_iff:
  "decode_frame (put_u16 t @ put_u16 c @ put_u32 p @ rest) = Undefined \<longleftrightarrow>
     2 ^ 32 \<le> 8 + unat c + unat p \<and> length rest + 2 ^ 32 = unat c + unat p"
  by (subst decode_frame_cases [OF refl]) auto


end
