(* ===== verification/Machine.thy ===== *)
theory Machine
  imports Main
begin

text \<open>
  The contract of a component whose operations run one after the other: an invariant that
  every permitted operation keeps, and, in the extension, a rank that never falls. The Raft
  node and the running server are interpreted as such machines.
\<close>

locale machine =
  fixes step :: "'op \<Rightarrow> 's \<Rightarrow> 's" and permitted :: "'op \<Rightarrow> 's \<Rightarrow> bool" and inv :: "'s \<Rightarrow> bool"
  assumes step_inv: "inv s \<Longrightarrow> permitted op s \<Longrightarrow> inv (step op s)"
begin

fun permitted_run :: "'op list \<Rightarrow> 's \<Rightarrow> bool" where
  "permitted_run [] s = True"
| "permitted_run (op # ops) s = (permitted op s \<and> permitted_run ops (step op s))"

lemma run_inv: "inv s \<Longrightarrow> permitted_run ops s \<Longrightarrow> inv (fold step ops s)"
  by (induction ops arbitrary: s) (simp_all add: step_inv)

lemma permitted_run_append: "permitted_run (ops @ ops') s \<longleftrightarrow> permitted_run ops s \<and> permitted_run ops' (fold step ops s)"
  by (induction ops arbitrary: s) simp_all

end

locale ranked_machine = machine step permitted inv
  for step :: "'op \<Rightarrow> 's \<Rightarrow> 's" and permitted :: "'op \<Rightarrow> 's \<Rightarrow> bool" and inv :: "'s \<Rightarrow> bool" +
  fixes rank :: "'s \<Rightarrow> nat"
  assumes step_rank: "inv s \<Longrightarrow> permitted op s \<Longrightarrow> rank s \<le> rank (step op s)"
begin

lemma run_rank: "inv s \<Longrightarrow> permitted_run ops s \<Longrightarrow> rank s \<le> rank (fold step ops s)"
proof (induction ops arbitrary: s)
  case (Cons op ops)
  then have "rank s \<le> rank (step op s)" "rank (step op s) \<le> rank (fold step ops (step op s))"
    by (simp_all add: step_rank step_inv)
  then show ?case by simp
qed simp

end

end
