(* ===== verification/Raft.thy ===== *)
theory Raft
  imports Status_Result Machine "HOL-Library.AList"
begin

text \<open>
  \<^verbatim>\<open>src/cluster/raft.cpp\<close>: the Raft state machine of one node. Terms, indices and counters are
  64-bit words. The two \<^verbatim>\<open>unordered_map\<close>s are association lists; nothing depends on their
  order. A position outside the log is \<open>Undefined\<close>, and an operation gives the node after it
  also when it throws.
\<close>

section \<open>The implementation\<close>

datatype raft_role = Follower | Candidate | Leader

record log_entry =
  entry_index :: u64
  entry_term :: u64
  entry_command :: string

record vote_request =
  candidate_id :: string
  vr_term :: u64
  last_log_index :: u64
  last_log_term :: u64

record vote_response =
  vote_term :: u64
  granted :: bool

record append_request =
  leader_id :: string
  ar_term :: u64
  prev_log_index :: u64
  prev_log_term :: u64
  leader_commit :: u64
  ar_entries :: "log_entry list"

record append_response =
  append_term :: u64
  success :: bool

record raft =
  raft_id :: string
  role :: raft_role
  current_term :: u64
  voted_for :: "string option"
  raft_log :: "log_entry list"
  commit_index :: u64
  votes_received :: u64
  next_index :: "(string \<times> u64) list"
  match_index :: "(string \<times> u64) list"

definition raft_new :: "string \<Rightarrow> raft" where
  "raft_new i = \<lparr>raft_id = i, role = Follower, current_term = 0, voted_for = None, raft_log = [],
     commit_index = 0, votes_received = 0, next_index = [], match_index = []\<rparr>"

definition last_index :: "raft \<Rightarrow> u64" where
  "last_index r = (if raft_log r = [] then 0 else entry_index (last (raft_log r)))"

definition last_term :: "raft \<Rightarrow> u64" where
  "last_term r = (if raft_log r = [] then 0 else entry_term (last (raft_log r)))"

definition following_index :: "raft \<Rightarrow> u64" where
  "following_index r = (if raft_log r = [] then 1 else entry_index (last (raft_log r)) + 1)"

definition start_election :: "raft \<Rightarrow> vote_request \<times> raft" where
  "start_election r =
     (let r1 = r\<lparr>role := Candidate, current_term := current_term r + 1, voted_for := Some (raft_id r), votes_received := 1\<rparr>
      in (\<lparr>candidate_id = raft_id r, vr_term = current_term r1, last_log_index = last_index r, last_log_term = last_term r\<rparr>, r1))"

definition candidate_log_is_fresh :: "raft \<Rightarrow> vote_request \<Rightarrow> bool" where
  "candidate_log_is_fresh r q \<longleftrightarrow>
     last_log_term q > last_term r \<or> (last_log_term q = last_term r \<and> last_log_index q \<ge> last_index r)"

text \<open>A higher term seen in a message: adopt it as a follower that has not voted.\<close>

definition adopt_term :: "u64 \<Rightarrow> raft \<Rightarrow> raft" where
  "adopt_term t r = r\<lparr>current_term := t, role := Follower, voted_for := None\<rparr>"

definition request_vote :: "raft \<Rightarrow> vote_request \<Rightarrow> vote_response \<times> raft" where
  "request_vote r q =
     (if vr_term q < current_term r then (\<lparr>vote_term = current_term r, granted = False\<rparr>, r)
      else let r1 = (if vr_term q > current_term r then adopt_term (vr_term q) r else r);
               available = (voted_for r1 = None \<or> voted_for r1 = Some (candidate_id q));
               grant = (available \<and> candidate_log_is_fresh r1 q)
        in (\<lparr>vote_term = current_term r1, granted = grant\<rparr>,
            if grant then r1\<lparr>voted_for := Some (candidate_id q)\<rparr> else r1))"

fun append_loop :: "log_entry list \<Rightarrow> log_entry list \<Rightarrow> unit outcome \<times> log_entry list" where
  "append_loop [] log = (Ret (), log)"
| "append_loop (e # es) log =
     (if length log \<ge> unat (entry_index e)
      then if entry_index e = 0 then (Throw length_error, log)
           else append_loop es (take (unat (entry_index e) - 1) log @ [e])
      else append_loop es (log @ [e]))"

definition append_entries :: "raft \<Rightarrow> append_request \<Rightarrow> append_response outcome \<times> raft" where
  "append_entries r q =
     (if ar_term q < current_term r then (Ret \<lparr>append_term = current_term r, success = False\<rparr>, r)
      else let r1 = r\<lparr>current_term := ar_term q, role := Follower, voted_for := Some (leader_id q)\<rparr>
        in if prev_log_index q > 0 \<and>
              (length (raft_log r1) < unat (prev_log_index q) \<or>
               entry_term (raft_log r1 ! (unat (prev_log_index q) - 1)) \<noteq> prev_log_term q)
           then (Ret \<lparr>append_term = current_term r1, success = False\<rparr>, r1)
           else case append_loop (ar_entries q) (raft_log r1) of
             (Ret _, log) \<Rightarrow>
               (let r2 = r1\<lparr>raft_log := log\<rparr>
                in (Ret \<lparr>append_term = current_term r2, success = True\<rparr>,
                    r2\<lparr>commit_index := min (leader_commit q) (last_index r2)\<rparr>))
           | (Throw e, log) \<Rightarrow> (Throw e, r1\<lparr>raft_log := log\<rparr>)
           | (Undefined, log) \<Rightarrow> (Undefined, r1\<lparr>raft_log := log\<rparr>))"

definition append_client_command :: "raft \<Rightarrow> string \<Rightarrow> log_entry result \<times> raft" where
  "append_client_command r command =
     (if role r \<noteq> Leader then (Error (Unavailable ''node is not raft leader''), r)
      else let entry = \<lparr>entry_index = following_index r, entry_term = current_term r, entry_command = command\<rparr>
        in (Value entry, r\<lparr>raft_log := raft_log r @ [entry], commit_index := entry_index entry\<rparr>))"

definition observe_vote :: "raft \<Rightarrow> vote_response \<Rightarrow> u64 \<Rightarrow> raft" where
  "observe_vote r resp cluster_size =
     (if vote_term resp > current_term r then adopt_term (vote_term resp) r
      else let r1 = (if role r = Candidate \<and> granted resp then r\<lparr>votes_received := votes_received r + 1\<rparr> else r)
        in if role r1 = Candidate \<and> votes_received r1 > cluster_size div 2
           then r1\<lparr>role := Leader,
                   next_index := map (\<lambda>(p, _). (p, following_index r1)) (next_index r1),
                   match_index := map (\<lambda>(p, _). (p, 0)) (match_index r1)\<rparr>
           else r1)"

definition make_append_entries :: "raft \<Rightarrow> string \<Rightarrow> append_request" where
  "make_append_entries r follower_id =
     (let next = (case map_of (next_index r) follower_id of None \<Rightarrow> following_index r | Some n \<Rightarrow> n);
          prev_index = (if next = 0 then 0 else next - 1);
          prev_term = (if prev_index = 0 \<or> length (raft_log r) < unat prev_index then 0
                       else entry_term (raft_log r ! (unat prev_index - 1)))
      in \<lparr>leader_id = raft_id r, ar_term = current_term r, prev_log_index = prev_index, prev_log_term = prev_term,
          leader_commit = commit_index r, ar_entries = filter (\<lambda>e. entry_index e \<ge> next) (raft_log r)\<rparr>)"

text \<open>The search for an index that a majority has, from the last one down; the new
  \<^verbatim>\<open>commit_index_\<close>.\<close>

function commit_loop :: "raft \<Rightarrow> u64 \<Rightarrow> u64 \<Rightarrow> u64 outcome" where
  "commit_loop r cluster_size candidate =
     (if candidate > commit_index r
      then let replicated = 1 + of_nat (length (filter (\<lambda>(_, m). m \<ge> candidate) (match_index r)))
        in if replicated > cluster_size div 2
           then if length (raft_log r) < unat candidate then Undefined
                else if entry_term (raft_log r ! (unat candidate - 1)) = current_term r then Ret candidate
                else commit_loop r cluster_size (candidate - 1)
           else commit_loop r cluster_size (candidate - 1)
      else Ret (commit_index r))"
  by pat_completeness auto
termination
  by (relation "measure (\<lambda>(r, n, candidate). unat candidate)")
    (simp_all add: unat_pred_less)

declare commit_loop.simps [simp del]

definition observe_append_entries_response :: "raft \<Rightarrow> string \<Rightarrow> append_response \<Rightarrow> u64 \<Rightarrow> unit outcome \<times> raft" where
  "observe_append_entries_response r follower_id resp cluster_size =
     (if append_term resp > current_term r then (Ret (), adopt_term (append_term resp) r)
      else if role r \<noteq> Leader then (Ret (), r)
      else if \<not> success resp then
        (let next = (case map_of (next_index r) follower_id of None \<Rightarrow> 0 | Some n \<Rightarrow> n)
         in (Ret (), r\<lparr>next_index := AList.update follower_id (if next > 1 then next - 1 else next) (next_index r)\<rparr>))
      else let r1 = r\<lparr>match_index := AList.update follower_id (last_index r) (match_index r),
                      next_index := AList.update follower_id (last_index r + 1) (next_index r)\<rparr>
        in case commit_loop r1 cluster_size (last_index r) of
             Ret c \<Rightarrow> (Ret (), r1\<lparr>commit_index := c\<rparr>)
           | Throw e \<Rightarrow> (Throw e, r1)
           | Undefined \<Rightarrow> (Undefined, r1))"

definition configure_cluster :: "raft \<Rightarrow> string list \<Rightarrow> raft" where
  "configure_cluster r peer_ids =
     fold (\<lambda>peer r. r\<lparr>next_index := AList.update peer (following_index r) (next_index r),
                      match_index := AList.update peer 0 (match_index r)\<rparr>) peer_ids r"

definition become_leader_for_single_node :: "raft \<Rightarrow> raft" where
  "become_leader_for_single_node r =
     (let r1 = snd (start_election r) in observe_vote r1 \<lparr>vote_term = current_term r1, granted = True\<rparr> 1)"

section \<open>Invariant of a node\<close>

text \<open>Entry \<open>i\<close> of the log has index \<open>i + 1\<close>.\<close>

definition contiguous :: "nat \<Rightarrow> log_entry list \<Rightarrow> bool" where
  "contiguous p es \<longleftrightarrow> (\<forall>k < length es. unat (entry_index (es ! k)) = p + k + 1)"

definition bounded :: "(string \<times> u64) list \<Rightarrow> nat \<Rightarrow> bool" where
  "bounded al b \<longleftrightarrow> (\<forall>(p, n) \<in> set al. unat n \<le> b)"

definition raft_inv :: "raft \<Rightarrow> bool" where
  "raft_inv r \<longleftrightarrow> contiguous 0 (raft_log r) \<and> unat (commit_index r) \<le> length (raft_log r) \<and>
     distinct (map fst (match_index r)) \<and>
     (role r = Leader \<longrightarrow> bounded (next_index r) (length (raft_log r) + 1) \<and> bounded (match_index r) (length (raft_log r)))"

lemma contiguous_Nil [simp]: "contiguous p []"
  by (simp add: contiguous_def)

lemma contiguous_Cons: "contiguous p (e # es) \<longleftrightarrow> unat (entry_index e) = Suc p \<and> contiguous (Suc p) es"
  unfolding contiguous_def by (auto simp: nth_Cons All_less_Suc2)

lemma contiguous_append: "contiguous p (es @ fs) \<longleftrightarrow> contiguous p es \<and> contiguous (p + length es) fs"
  by (induction es arbitrary: p) (auto simp: contiguous_Cons)

lemma contiguous_take: "contiguous p es \<Longrightarrow> contiguous p (take n es)"
  by (simp add: contiguous_def)

lemma contiguous_drop: "contiguous p es \<Longrightarrow> contiguous (p + n) (drop n es)"
  by (auto simp: contiguous_def)

lemma contiguous_length: "contiguous 0 es \<Longrightarrow> length es < 2 ^ 64"
proof (cases es rule: rev_cases)
  case (snoc fs e)
  assume "contiguous 0 es"
  with snoc have "unat (entry_index e) = length es" by (simp add: contiguous_append contiguous_Cons)
  then show ?thesis using unat_u64_less [of "entry_index e"] by simp
qed simp

lemma unat_last_index: "contiguous 0 (raft_log r) \<Longrightarrow> unat (last_index r) = length (raft_log r)"
  by (cases "raft_log r" rule: rev_cases) (simp_all add: last_index_def contiguous_append contiguous_Cons)

lemma following_index_eq: "following_index r = last_index r + 1"
  by (simp add: following_index_def last_index_def)

lemma unat_succ_le: "unat (w + 1) \<le> unat w + 1" for w :: u64
  using unatSuc [of w] by (cases "1 + w = 0") (simp_all add: add.commute)

lemma unat_following_le: "contiguous 0 (raft_log r) \<Longrightarrow> unat (following_index r) \<le> length (raft_log r) + 1"
  using unat_succ_le [of "last_index r"] by (simp add: following_index_eq unat_last_index)

lemma unat_following:
  "contiguous 0 (raft_log r) \<Longrightarrow> following_index r \<noteq> 0 \<Longrightarrow> unat (following_index r) = length (raft_log r) + 1"
  using unatSuc [of "last_index r"] by (simp add: following_index_eq unat_last_index add.commute)

lemma append_loop_contiguous:
  "contiguous p es \<Longrightarrow> p \<le> length log \<Longrightarrow> append_loop es log = (Ret (), if es = [] then log else take p log @ es)"
proof (induction es arbitrary: p log)
  case (Cons e es)
  from Cons.prems have e: "unat (entry_index e) = Suc p" "entry_index e \<noteq> 0" "contiguous (Suc p) es"
    by (auto simp: contiguous_Cons)
  have eq: "append_loop (e # es) log = append_loop es (take p log @ [e])"
    using e Cons.prems(2) by auto
  show ?case unfolding eq using Cons.IH [OF e(3), of "take p log @ [e]"] Cons.prems(2) by simp
qed simp

text \<open>The operations as one step function, with the conditions under which the invariant is
  kept: no wrap-around of terms and indices, and append requests whose entries continue
  the position they name.\<close>

datatype raft_op =
  StartElection
| RequestVote vote_request
| AppendEntries append_request
| ClientCommand string
| ObserveVote vote_response u64
| ObserveAppend string append_response u64
| Configure "string list"
| SingleNode

primrec raft_step :: "raft_op \<Rightarrow> raft \<Rightarrow> raft" where
  "raft_step StartElection r = snd (start_election r)"
| "raft_step (RequestVote q) r = snd (request_vote r q)"
| "raft_step (AppendEntries q) r = snd (append_entries r q)"
| "raft_step (ClientCommand c) r = snd (append_client_command r c)"
| "raft_step (ObserveVote v n) r = observe_vote r v n"
| "raft_step (ObserveAppend p a n) r = snd (observe_append_entries_response r p a n)"
| "raft_step (Configure ps) r = configure_cluster r ps"
| "raft_step SingleNode r = become_leader_for_single_node r"

primrec raft_permitted :: "raft_op \<Rightarrow> raft \<Rightarrow> bool" where
  "raft_permitted StartElection r = (current_term r \<noteq> - 1)"
| "raft_permitted (RequestVote q) r = True"
| "raft_permitted (AppendEntries q) r = contiguous (unat (prev_log_index q)) (ar_entries q)"
| "raft_permitted (ClientCommand c) r = (following_index r \<noteq> 0)"
| "raft_permitted (ObserveVote v n) r = True"
| "raft_permitted (ObserveAppend p a n) r = True"
| "raft_permitted (Configure ps) r = True"
| "raft_permitted SingleNode r = (current_term r \<noteq> - 1)"

lemma raft_inv_new: "raft_inv (raft_new i)"
  by (simp add: raft_inv_def raft_new_def)

lemma adopt_term_inv: "raft_inv r \<Longrightarrow> raft_inv (adopt_term t r)"
  by (simp add: raft_inv_def adopt_term_def)

lemma start_election_inv: "raft_inv r \<Longrightarrow> raft_inv (snd (start_election r))"
  by (simp add: raft_inv_def start_election_def Let_def)

lemma request_vote_inv: "raft_inv r \<Longrightarrow> raft_inv (snd (request_vote r q))"
  by (simp add: raft_inv_def request_vote_def adopt_term_def Let_def)

text \<open>Maps whose entries are all set, or of which one entry is set.\<close>

lemma fst_set_all [simp]: "fst \<circ> (\<lambda>(p, _). (p, x)) = fst"
  by auto

lemma bounded_update: "bounded al b \<Longrightarrow> unat v \<le> b \<Longrightarrow> bounded (AList.update k v al) b"
  unfolding bounded_def by (induction al) auto

lemma bounded_set_all: "unat x \<le> b \<Longrightarrow> bounded (map (\<lambda>(p, _). (p, x)) al) b"
  by (auto simp: bounded_def)

lemma bounded_Suc: "bounded al b \<Longrightarrow> bounded al (Suc b)"
  by (auto simp: bounded_def)

lemma bounded_map_of: "bounded al b \<Longrightarrow> map_of al k = Some n \<Longrightarrow> unat n \<le> b"
  by (auto simp: bounded_def dest: map_of_SomeD)

lemma observe_vote_inv:
  assumes "raft_inv r"
  shows "raft_inv (observe_vote r v n)"
  using assms unat_following_le [of r]
  by (auto simp: raft_inv_def observe_vote_def adopt_term_def Let_def following_index_def intro!: bounded_set_all)

lemma configure_cluster_inv: "raft_inv r \<Longrightarrow> raft_inv (configure_cluster r ps)"
proof (induction ps arbitrary: r)
  case (Cons p ps)
  let ?r = "r\<lparr>next_index := AList.update p (following_index r) (next_index r), match_index := AList.update p 0 (match_index r)\<rparr>"
  have "raft_inv ?r"
    using Cons.prems unat_following_le [of r] unfolding raft_inv_def
    by (simp add: distinct_update bounded_update)
  from Cons.IH [OF this] show ?case by (simp add: configure_cluster_def)
qed (simp add: configure_cluster_def)

lemma append_client_command_inv:
  assumes "raft_inv r" "following_index r \<noteq> 0"
  shows "raft_inv (snd (append_client_command r c))"
  using assms unat_following [of r]
  by (auto simp: raft_inv_def append_client_command_def Let_def contiguous_append contiguous_Cons bounded_Suc)

text \<open>An accepted append request, and one that is turned down.\<close>

definition prev_matches :: "log_entry list \<Rightarrow> append_request \<Rightarrow> bool" where
  "prev_matches log q \<longleftrightarrow> prev_log_index q = 0 \<or>
     (unat (prev_log_index q) \<le> length log \<and> entry_term (log ! (unat (prev_log_index q) - 1)) = prev_log_term q)"

lemma append_entries_cases:
  assumes "contiguous (unat (prev_log_index q)) (ar_entries q)"
  shows "append_entries r q =
    (if ar_term q < current_term r then (Ret \<lparr>append_term = current_term r, success = False\<rparr>, r)
     else let r1 = r\<lparr>current_term := ar_term q, role := Follower, voted_for := Some (leader_id q)\<rparr>
       in if prev_matches (raft_log r) q
          then let r2 = r1\<lparr>raft_log := (if ar_entries q = [] then raft_log r
                                     else take (unat (prev_log_index q)) (raft_log r) @ ar_entries q)\<rparr>
            in (Ret \<lparr>append_term = ar_term q, success = True\<rparr>, r2\<lparr>commit_index := min (leader_commit q) (last_index r2)\<rparr>)
          else (Ret \<lparr>append_term = ar_term q, success = False\<rparr>, r1))"
proof -
  have "append_loop (ar_entries q) (raft_log r) =
      (Ret (), if ar_entries q = [] then raft_log r else take (unat (prev_log_index q)) (raft_log r) @ ar_entries q)"
    if "prev_matches (raft_log r) q"
    using append_loop_contiguous [OF assms] that by (auto simp: prev_matches_def)
  then show ?thesis
    by (auto simp: append_entries_def prev_matches_def Let_def word_neq_0_conv not_less)
qed

lemma append_entries_inv:
  assumes "raft_inv r" "contiguous (unat (prev_log_index q)) (ar_entries q)"
  shows "raft_inv (snd (append_entries r q))"
proof (cases "\<not> ar_term q < current_term r \<and> prev_matches (raft_log r) q")
  case True
  let ?log = "if ar_entries q = [] then raft_log r else take (unat (prev_log_index q)) (raft_log r) @ ar_entries q"
  let ?r2 = "r\<lparr>current_term := ar_term q, role := Follower, voted_for := Some (leader_id q), raft_log := ?log\<rparr>"
  have "unat (prev_log_index q) \<le> length (raft_log r)" using True by (auto simp: prev_matches_def)
  then have log: "contiguous 0 (raft_log ?r2)"
    using assms by (auto simp: contiguous_append contiguous_take raft_inv_def min_absorb2)
  then have "unat (min (leader_commit q) (last_index ?r2)) \<le> length (raft_log ?r2)"
    unfolding unat_last_index [OF log, symmetric] by (simp add: word_le_nat_alt [symmetric])
  then show ?thesis
    using True log assms(1) unfolding append_entries_cases [OF assms(2)]
    by (simp add: raft_inv_def Let_def)
qed (use assms(1) in \<open>auto simp: append_entries_cases [OF assms(2)] raft_inv_def Let_def\<close>)

text \<open>The commit search stays inside the log and inside the range between the old commit index
  and the last one; it chooses an entry of the current term that a majority reports.\<close>

definition replicas_of :: "raft \<Rightarrow> u64 \<Rightarrow> u64" where
  "replicas_of r candidate = 1 + of_nat (length (filter (\<lambda>(_, m). m \<ge> candidate) (match_index r)))"

definition committable :: "raft \<Rightarrow> u64 \<Rightarrow> u64 \<Rightarrow> bool" where
  "committable r cluster_size c \<longleftrightarrow> c > commit_index r \<and> replicas_of r c > cluster_size div 2 \<and>
     entry_term (raft_log r ! (unat c - 1)) = current_term r"

lemma commit_loop_result:
  assumes "unat c \<le> length (raft_log r)"
  shows "\<exists>d. commit_loop r n c = Ret d \<and> commit_index r \<le> d \<and> d \<le> max c (commit_index r) \<and>
    (d = commit_index r \<or> committable r n d) \<and> (\<forall>e. committable r n e \<and> e \<le> c \<longrightarrow> e \<le> d)"
  using assms
proof (induction r n c rule: commit_loop.induct)
  case (1 r n c)
  show ?case
  proof (cases "commit_index r < c \<and> \<not> committable r n c")
    case True
    then have less: "unat (c - 1) < unat c" using unat_pred_less by blast
    then have "unat (c - 1) \<le> length (raft_log r)" using 1(3) by simp
    moreover have step: "commit_loop r n c = commit_loop r n (c - 1)"
      using True 1(3) by (subst commit_loop.simps) (auto simp: committable_def replicas_of_def Let_def)
    ultimately obtain d where d: "commit_loop r n (c - 1) = Ret d" "commit_index r \<le> d" "d \<le> max (c - 1) (commit_index r)"
      "d = commit_index r \<or> committable r n d" "\<forall>e. committable r n e \<and> e \<le> c - 1 \<longrightarrow> e \<le> d"
      using 1(1,2) True 1(3) by (auto simp: committable_def replicas_of_def Let_def)
    have below: "e \<le> c - 1" if "e \<le> c" "e \<noteq> c" for e
    proof -
      have "e < c" using that by simp
      then have "unat e < unat c" by (simp add: word_less_nat_alt)
      moreover have "unat (c - 1) = unat c - 1" using True by (intro unat_minus_one) auto
      ultimately show ?thesis by (simp add: word_le_nat_alt)
    qed
    have "d \<le> max c (commit_index r)" using d(3) less by (auto simp: word_le_nat_alt max_def split: if_splits)
    with d step below True show ?thesis by metis
  next
    case False
    show ?thesis
    proof (cases "commit_index r < c")
      case True
      with False have c: "committable r n c" by simp
      then have "commit_loop r n c = Ret c"
        using 1(3) by (subst commit_loop.simps) (simp add: committable_def replicas_of_def Let_def)
      with c show ?thesis by (auto simp: committable_def)
    next
      case False
      then have "commit_loop r n c = Ret (commit_index r)" by (subst commit_loop.simps) simp
      with False show ?thesis by (auto simp: not_less)
    qed
  qed
qed

lemma observe_append_success:
  assumes "raft_inv r" "role r = Leader" "append_term resp \<le> current_term r" "success resp"
  shows "\<exists>d. observe_append_entries_response r p resp n =
      (Ret (), r\<lparr>match_index := AList.update p (last_index r) (match_index r),
                 next_index := AList.update p (last_index r + 1) (next_index r), commit_index := d\<rparr>) \<and>
    commit_index r \<le> d \<and> unat d \<le> length (raft_log r) \<and>
    (d = commit_index r \<or> committable (r\<lparr>match_index := AList.update p (last_index r) (match_index r)\<rparr>) n d)"
proof -
  let ?r1 = "r\<lparr>match_index := AList.update p (last_index r) (match_index r), next_index := AList.update p (last_index r + 1) (next_index r)\<rparr>"
  have len: "unat (last_index r) = length (raft_log r)" using assms(1) by (simp add: raft_inv_def unat_last_index)
  obtain d where d: "commit_loop ?r1 n (last_index r) = Ret d" "commit_index r \<le> d" "d \<le> max (last_index r) (commit_index r)"
      "d = commit_index r \<or> committable ?r1 n d"
    using commit_loop_result [of "last_index r" ?r1 n] len by auto
  have "unat d \<le> length (raft_log r)"
    using d(3) assms(1) len by (auto simp: raft_inv_def word_le_nat_alt max_def split: if_splits)
  moreover have "committable ?r1 n d = committable (r\<lparr>match_index := AList.update p (last_index r) (match_index r)\<rparr>) n d"
    by (simp add: committable_def replicas_of_def)
  ultimately show ?thesis
    using assms(2-4) d by (intro exI [of _ d]) (auto simp: observe_append_entries_response_def Let_def not_less)
qed

lemma observe_append_inv:
  assumes "raft_inv r"
  shows "raft_inv (snd (observe_append_entries_response r p resp n))"
proof (cases "role r = Leader \<and> append_term resp \<le> current_term r \<and> success resp")
  case True
  then obtain d where d: "snd (observe_append_entries_response r p resp n) =
      r\<lparr>match_index := AList.update p (last_index r) (match_index r),
        next_index := AList.update p (last_index r + 1) (next_index r), commit_index := d\<rparr>" "unat d \<le> length (raft_log r)"
    using observe_append_success [OF assms, of resp p n] by (metis snd_conv)
  have len: "unat (last_index r) = length (raft_log r)" using assms by (simp add: raft_inv_def unat_last_index)
  then have "unat (last_index r + 1) \<le> Suc (length (raft_log r))" using unat_succ_le [of "last_index r"] by simp
  with len True assms d show ?thesis by (simp add: raft_inv_def distinct_update bounded_update)
next
  case False
  have bound: "unat (x - 1) \<le> b" if "unat x \<le> b" "1 < x" for x :: u64 and b
    using that unat_pred_less [of 1 x] by simp
  have "unat (case map_of (next_index r) p of None \<Rightarrow> 0 | Some n \<Rightarrow> n) \<le> Suc (length (raft_log r))" if "role r = Leader"
    using that assms bounded_map_of [of "next_index r" _ p] by (auto simp: raft_inv_def split: option.splits)
  then show ?thesis
    using False assms bound
    by (auto simp: raft_inv_def observe_append_entries_response_def adopt_term_def Let_def not_less intro!: bounded_update)
qed

lemma raft_step_inv: "raft_inv r \<Longrightarrow> raft_permitted op r \<Longrightarrow> raft_inv (raft_step op r)"
  by (cases op)
    (simp_all add: start_election_inv request_vote_inv append_entries_inv append_client_command_inv
      observe_vote_inv observe_append_inv configure_cluster_inv become_leader_for_single_node_def Let_def)

lemma configure_term [simp]: "current_term (configure_cluster r ps) = current_term r"
  unfolding configure_cluster_def by (induction ps arbitrary: r) simp_all

lemma observe_append_term: "current_term r \<le> current_term (snd (observe_append_entries_response r p resp n))"
  by (auto simp: observe_append_entries_response_def adopt_term_def Let_def split: outcome.splits)

lemma election_term: "current_term r \<noteq> - 1 \<Longrightarrow> current_term r \<le> current_term r + 1"
  using unatSuc [of "current_term r"] by (auto simp: word_le_nat_alt add.commute eq_neg_iff_add_eq_0)

lemma raft_step_term:
  assumes "raft_permitted op r"
  shows "current_term r \<le> current_term (raft_step op r)"
proof (cases op)
  case (AppendEntries q)
  with assms show ?thesis by (auto simp: append_entries_cases Let_def)
qed (use assms in \<open>auto simp: start_election_def request_vote_def append_client_command_def observe_vote_def
  observe_append_term adopt_term_def become_leader_for_single_node_def Let_def election_term\<close>)

interpretation raft: ranked_machine raft_step raft_permitted raft_inv "\<lambda>r. unat (current_term r)"
  by unfold_locales (simp_all add: raft_step_inv raft_step_term word_le_nat_alt [symmetric])

section \<open>Votes\<close>

text \<open>The vote a step casts: for itself when it starts an election, for the candidate when it
  grants a request.\<close>

primrec cast_vote :: "raft_op \<Rightarrow> raft \<Rightarrow> (u64 \<times> string) list" where
  "cast_vote StartElection r = [(current_term r + 1, raft_id r)]"
| "cast_vote (RequestVote q) r = (if granted (fst (request_vote r q)) then [(vr_term q, candidate_id q)] else [])"
| "cast_vote (AppendEntries q) r = []"
| "cast_vote (ClientCommand c) r = []"
| "cast_vote (ObserveVote v n) r = []"
| "cast_vote (ObserveAppend p a n) r = []"
| "cast_vote (Configure ps) r = []"
| "cast_vote SingleNode r = [(current_term r + 1, raft_id r)]"

fun votes_cast :: "raft_op list \<Rightarrow> raft \<Rightarrow> (u64 \<times> string) list" where
  "votes_cast [] r = []"
| "votes_cast (op # ops) r = cast_vote op r @ votes_cast ops (raft_step op r)"

text \<open>What a node has voted so far, as far as it still matters.\<close>

definition ballot_ok :: "(u64 \<times> string) set \<Rightarrow> raft \<Rightarrow> bool" where
  "ballot_ok V r \<longleftrightarrow> (\<forall>(t, c) \<in> V. t \<le> current_term r \<and> (t = current_term r \<longrightarrow> voted_for r = Some c))"

lemma ballot_ok_mono:
  assumes "ballot_ok V r" "current_term r < current_term r' \<or> current_term r = current_term r' \<and> voted_for r' = voted_for r"
  shows "ballot_ok V r'"
  using assms unfolding ballot_ok_def by fastforce

lemma election_term_less: "current_term r \<noteq> - 1 \<Longrightarrow> current_term r < current_term r + 1"
  using election_term [of r] by (simp add: order.strict_iff_order)

lemma configure_voted [simp]: "voted_for (configure_cluster r ps) = voted_for r"
  unfolding configure_cluster_def by (induction ps arbitrary: r) simp_all

lemma single_node_vote:
  "current_term (become_leader_for_single_node r) = current_term r + 1"
  "voted_for (become_leader_for_single_node r) = Some (raft_id r)"
  by (simp_all add: become_leader_for_single_node_def start_election_def observe_vote_def Let_def)

lemma silent_step:
  assumes "raft_permitted op r" "\<forall>q. op \<noteq> AppendEntries q" "cast_vote op r = []"
  shows "current_term r < current_term (raft_step op r) \<or>
    current_term r = current_term (raft_step op r) \<and> voted_for (raft_step op r) = voted_for r"
  using assms
  by (cases op) (auto simp: request_vote_def append_client_command_def observe_vote_def
      observe_append_entries_response_def adopt_term_def Let_def split: outcome.splits)

text \<open>A cast vote is recorded, and only in a term in which no other vote was recorded.\<close>

lemma voting_step:
  assumes "raft_permitted op r" "cast_vote op r \<noteq> []"
  shows "\<exists>c. cast_vote op r = [(current_term (raft_step op r), c)] \<and> voted_for (raft_step op r) = Some c \<and>
    (current_term r < current_term (raft_step op r) \<or>
     current_term r = current_term (raft_step op r) \<and> voted_for r \<in> {None, Some c})"
  using assms
  by (cases op) (auto simp: request_vote_def start_election_def single_node_vote adopt_term_def Let_def
      election_term_less split: if_splits)

lemma ballot_step:
  assumes "ballot_ok V r" "raft_permitted op r" "\<forall>q. op \<noteq> AppendEntries q"
  shows "ballot_ok (V \<union> set (cast_vote op r)) (raft_step op r) \<and>
    (\<forall>(t, c) \<in> set (cast_vote op r). \<forall>d. (t, d) \<in> V \<longrightarrow> c = d)"
proof (cases "cast_vote op r = []")
  case True
  then show ?thesis using ballot_ok_mono [OF assms(1) silent_step [OF assms(2,3)]] by simp
next
  case False
  then obtain c where c: "cast_vote op r = [(current_term (raft_step op r), c)]" "voted_for (raft_step op r) = Some c"
    "current_term r < current_term (raft_step op r) \<or>
     current_term r = current_term (raft_step op r) \<and> voted_for r \<in> {None, Some c}"
    using voting_step [OF assms(2)] by blast
  have old: "t \<le> current_term (raft_step op r) \<and> (t = current_term (raft_step op r) \<longrightarrow> d = c)" if "(t, d) \<in> V" for t d
    using assms(1) that c(3) unfolding ballot_ok_def by fastforce
  then show ?thesis unfolding c(1) ballot_ok_def using c(2) by auto
qed

definition one_vote_per_term :: "(u64 \<times> string) set \<Rightarrow> bool" where
  "one_vote_per_term V \<longleftrightarrow> (\<forall>t c d. (t, c) \<in> V \<longrightarrow> (t, d) \<in> V \<longrightarrow> c = d)"

lemma votes_cast_unique:
  assumes "ballot_ok V r" "one_vote_per_term V" "raft.permitted_run ops r" "\<forall>q. AppendEntries q \<notin> set ops"
  shows "one_vote_per_term (V \<union> set (votes_cast ops r))"
  using assms
proof (induction ops arbitrary: V r)
  case (Cons op ops)
  have step: "ballot_ok (V \<union> set (cast_vote op r)) (raft_step op r)"
    "\<forall>(t, c) \<in> set (cast_vote op r). \<forall>d. (t, d) \<in> V \<longrightarrow> c = d"
    using ballot_step [OF Cons.prems(1), of op] Cons.prems(3,4) by auto
  have new: "one_vote_per_term (set (cast_vote op r))"
    using voting_step [of op r] Cons.prems(3) by (cases "cast_vote op r = []") (auto simp: one_vote_per_term_def)
  have mixed: "c = d" if "(t, c) \<in> set (cast_vote op r)" "(t, d) \<in> V" for t c d
    using step(2) that by blast
  have "one_vote_per_term (V \<union> set (cast_vote op r))"
    using Cons.prems(2) new mixed unfolding one_vote_per_term_def Un_iff by (metis (lifting))
  from Cons.IH [OF step(1) this] Cons.prems(3,4) show ?case by (simp add: Un_assoc)
qed simp

section \<open>Bringing a follower up to date\<close>

text \<open>One exchange between a leader and a follower: the request the leader makes, the follower's
  answer, and the leader's reaction to it.\<close>

definition sync_round :: "u64 \<Rightarrow> raft \<times> raft \<Rightarrow> raft \<times> raft" where
  "sync_round cluster_size lf =
     (let (l, f) = lf; q = make_append_entries l (raft_id f)
      in case append_entries f q of
           (Ret resp, f') \<Rightarrow> (snd (observe_append_entries_response l (raft_id f) resp cluster_size), f')
         | (_, f') \<Rightarrow> (l, f'))"

definition log_matching :: "log_entry list \<Rightarrow> log_entry list \<Rightarrow> bool" where
  "log_matching xs ys \<longleftrightarrow> (\<forall>i < min (length xs) (length ys).
     entry_term (xs ! i) = entry_term (ys ! i) \<longrightarrow> take (Suc i) xs = take (Suc i) ys)"

definition next_for :: "raft \<Rightarrow> string \<Rightarrow> u64" where
  "next_for r p = (case map_of (next_index r) p of None \<Rightarrow> following_index r | Some n \<Rightarrow> n)"

lemma filter_contiguous:
  "contiguous k es \<Longrightarrow> filter (\<lambda>e. n \<le> entry_index e) es = drop (unat n - Suc k) es"
proof (induction es arbitrary: k)
  case (Cons e es)
  then have e: "unat (entry_index e) = Suc k" "contiguous (Suc k) es" by (simp_all add: contiguous_Cons)
  show ?case
  proof (cases "unat n \<le> Suc k")
    case True
    then show ?thesis using Cons.IH [OF e(2)] e(1) by (simp add: word_le_nat_alt)
  next
    case False
    then have "unat n - Suc k = Suc (unat n - Suc (Suc k))" by simp
    then show ?thesis using Cons.IH [OF e(2)] e(1) False by (simp add: word_le_nat_alt)
  qed
qed simp

lemma make_append_entries_spec:
  assumes "raft_inv l" "unat (next_for l p) \<le> length (raft_log l) + 1"
  defines "q \<equiv> make_append_entries l p" and "k \<equiv> unat (next_for l p) - 1"
  shows "unat (prev_log_index q) = k" "ar_entries q = drop k (raft_log l)" "contiguous k (ar_entries q)" "k \<le> length (raft_log l)"
    "0 < k \<Longrightarrow> prev_log_term q = entry_term (raft_log l ! (k - 1))" "ar_term q = current_term l" "leader_commit q = commit_index l"
proof -
  show k: "k \<le> length (raft_log l)" using assms(2) by (simp add: k_def)
  show prev: "unat (prev_log_index q) = k"
    by (simp add: q_def k_def make_append_entries_def next_for_def [symmetric] Let_def unat_minus_one)
  have "contiguous 0 (raft_log l)" using assms(1) by (simp add: raft_inv_def)
  from filter_contiguous [OF this, of "next_for l p"] show entries: "ar_entries q = drop k (raft_log l)"
    by (simp add: q_def k_def make_append_entries_def next_for_def [symmetric] Let_def)
  show "contiguous k (ar_entries q)"
    using contiguous_drop [of 0 "raft_log l" k] assms(1) by (simp add: entries raft_inv_def)
  show "prev_log_term q = entry_term (raft_log l ! (k - 1))" if "0 < k"
  proof -
    have n: "next_for l p \<noteq> 0" using that by (auto simp: k_def)
    then have "unat (next_for l p - 1) = k" by (simp add: k_def unat_minus_one)
    moreover from this that have "next_for l p - 1 \<noteq> 0" by (metis less_nat_zero_code unat_0)
    ultimately show ?thesis
      using n k by (simp add: q_def make_append_entries_def next_for_def [symmetric] Let_def)
  qed
qed (simp_all add: q_def make_append_entries_def Let_def)

lemma next_for_bound: "raft_inv l \<Longrightarrow> role l = Leader \<Longrightarrow> unat (next_for l p) \<le> length (raft_log l) + 1"
  using unat_following_le [of l] bounded_map_of [of "next_index l" _ p]
  by (auto simp: next_for_def raft_inv_def split: option.splits)

text \<open>An exchange either ends with the follower holding the leader's log, or moves the leader's
  \<^verbatim>\<open>next_index_\<close> for the follower down.\<close>

definition in_sync :: "raft \<Rightarrow> raft \<times> raft \<Rightarrow> bool" where
  "in_sync l lf \<longleftrightarrow> (case lf of (l', f') \<Rightarrow>
     role l' = Leader \<and> raft_log l' = raft_log l \<and> current_term l' = current_term l \<and>
     map_of (match_index l') (raft_id f') = Some (last_index l) \<and>
     take (length (raft_log l)) (raft_log f') = raft_log l \<and> raft_inv f')"

definition retry :: "raft \<Rightarrow> raft \<Rightarrow> raft \<times> raft \<Rightarrow> bool" where
  "retry l f lf \<longleftrightarrow> (case lf of (l', f') \<Rightarrow>
     raft_inv l' \<and> role l' = Leader \<and> raft_log l' = raft_log l \<and> current_term l' = current_term l \<and>
     raft_inv f' \<and> raft_id f' = raft_id f \<and> raft_log f' = raft_log f \<and> current_term f' = current_term l \<and>
     unat (next_for l' (raft_id f)) - 1 < unat (next_for l (raft_id f)) - 1)"

lemma matched_log:
  assumes "log_matching ll lf" "k \<le> length ll" "k \<le> length lf" "0 < k \<Longrightarrow> entry_term (lf ! (k - 1)) = entry_term (ll ! (k - 1))"
  shows "take (length ll) (if drop k ll = [] then lf else take k lf @ drop k ll) = ll"
proof -
  have "take k ll = take k lf"
  proof (cases k)
    case (Suc i)
    then show ?thesis using assms unfolding log_matching_def by (metis Suc_le_lessD diff_Suc_1 min_less_iff_conj zero_less_Suc)
  qed simp
  then show ?thesis using assms(2) by (metis append_self_conv append_take_drop_id drop_eq_Nil le_antisym order_refl take_all)
qed

lemma lowered_next:
  assumes "role l = Leader" "append_term resp = current_term l" "\<not> success resp" "1 < unat (next_for l p)"
  shows "unat (next_for (snd (observe_append_entries_response l p resp n)) p) - 1 < unat (next_for l p) - 1"
proof -
  have "unat (x - 1) - 1 < unat x - 1" if "1 < unat x" for x :: u64
    using that unat_minus_one [of x] by fastforce
  moreover have "1 < x" if "1 < unat x" for x :: u64 using that by (simp add: word_less_nat_alt)
  ultimately show ?thesis
    using assms by (auto simp: next_for_def observe_append_entries_response_def Let_def update_conv' split: option.splits)
qed

lemma accepted_round:
  assumes "raft_inv l" "role l = Leader" "raft_inv f" "current_term f \<le> current_term l"
    "log_matching (raft_log l) (raft_log f)" "prev_matches (raft_log f) (make_append_entries l (raft_id f))"
  shows "in_sync l (sync_round n (l, f))"
proof -
  define q where "q = make_append_entries l (raft_id f)"
  define k where "k = unat (next_for l (raft_id f)) - 1"
  note q = make_append_entries_spec [OF assms(1) next_for_bound [OF assms(1,2)], of "raft_id f", folded q_def k_def]
  define f' where "f' = snd (append_entries f q)"
  have kf: "k \<le> length (raft_log f)" and same: "0 < k \<Longrightarrow> entry_term (raft_log f ! (k - 1)) = entry_term (raft_log l ! (k - 1))"
    using assms(6) q(1,5) by (auto simp: prev_matches_def q_def [symmetric])
  have con: "contiguous (unat (prev_log_index q)) (ar_entries q)" using q(1,3) by simp
  have ap: "append_entries f q = (Ret \<lparr>append_term = current_term l, success = True\<rparr>, f')"
    "raft_log f' = (if drop k (raft_log l) = [] then raft_log f else take k (raft_log f) @ drop k (raft_log l))"
    "raft_id f' = raft_id f"
    using assms(4,6) q by (simp_all add: append_entries_cases [OF con] f'_def q_def [symmetric] Let_def not_less)
  obtain l' where l': "snd (observe_append_entries_response l (raft_id f) \<lparr>append_term = current_term l, success = True\<rparr> n) = l'"
    "role l' = Leader" "raft_log l' = raft_log l" "current_term l' = current_term l"
    "map_of (match_index l') (raft_id f) = Some (last_index l)"
    using observe_append_success [OF assms(1,2), of "\<lparr>append_term = current_term l, success = True\<rparr>" "raft_id f" n] assms(2)
    by (auto simp: update_conv')
  have "raft_inv f'" unfolding f'_def by (rule append_entries_inv [OF assms(3) con])
  moreover have "take (length (raft_log l)) (raft_log f') = raft_log l"
    unfolding ap(2) by (rule matched_log [OF assms(5) q(4) kf same])
  moreover have "sync_round n (l, f) = (l', f')" by (simp add: sync_round_def q_def [symmetric] ap(1) l'(1))
  ultimately show ?thesis using l' ap(3) by (simp add: in_sync_def)
qed

lemma rejected_round:
  assumes "raft_inv l" "role l = Leader" "raft_inv f" "current_term f \<le> current_term l"
    "\<not> prev_matches (raft_log f) (make_append_entries l (raft_id f))"
  shows "retry l f (sync_round n (l, f))"
proof -
  define q where "q = make_append_entries l (raft_id f)"
  note q = make_append_entries_spec [OF assms(1) next_for_bound [OF assms(1,2)], of "raft_id f", folded q_def]
  define resp where "resp = \<lparr>append_term = current_term l, success = False\<rparr>"
  define f' where "f' = snd (append_entries f q)"
  define l' where "l' = snd (observe_append_entries_response l (raft_id f) resp n)"
  have con: "contiguous (unat (prev_log_index q)) (ar_entries q)" using q(1,3) by simp
  have newer: "\<not> current_term l < current_term f" using assms(4) by simp
  have ap: "append_entries f q = (Ret resp, f')" "raft_log f' = raft_log f" "raft_id f' = raft_id f" "current_term f' = current_term l"
    using newer assms(5) q(6) by (simp_all add: append_entries_cases [OF con] f'_def resp_def q_def [symmetric] Let_def)
  have "prev_log_index q \<noteq> 0" using assms(5) by (auto simp: prev_matches_def q_def)
  then have "0 < unat (prev_log_index q)" by (simp add: unat_gt_0)
  then have "1 < unat (next_for l (raft_id f))" using q(1) by simp
  then have low: "unat (next_for l' (raft_id f)) - 1 < unat (next_for l (raft_id f)) - 1"
    unfolding l'_def by (intro lowered_next) (simp_all add: assms(2) resp_def)
  have "raft_inv l'" unfolding l'_def by (rule observe_append_inv [OF assms(1)])
  moreover have "raft_inv f'" unfolding f'_def by (rule append_entries_inv [OF assms(3) con])
  moreover have "role l' = Leader" "raft_log l' = raft_log l" "current_term l' = current_term l"
    using assms(2) by (simp_all add: l'_def resp_def observe_append_entries_response_def Let_def)
  moreover have "sync_round n (l, f) = (l', f')" by (simp add: sync_round_def q_def [symmetric] ap(1) l'_def)
  ultimately show ?thesis using low ap by (simp add: retry_def)
qed

lemma catches_up:
  assumes "raft_inv l" "role l = Leader" "raft_inv f" "current_term f \<le> current_term l" "log_matching (raft_log l) (raft_log f)"
  shows "\<exists>k \<le> unat (next_for l (raft_id f)) - 1. in_sync l ((sync_round n ^^ Suc k) (l, f))"
  using assms
proof (induction "unat (next_for l (raft_id f)) - 1" arbitrary: l f rule: less_induct)
  case less
  show ?case
  proof (cases "prev_matches (raft_log f) (make_append_entries l (raft_id f))")
    case True
    then show ?thesis using accepted_round [OF less.prems] by (intro exI [of _ 0]) simp
  next
    case False
    obtain l' f' where lf: "sync_round n (l, f) = (l', f')" by fastforce
    have r: "retry l f (l', f')" using rejected_round [OF less.prems(1-4) False, of n] lf by simp
    then obtain k where "k \<le> unat (next_for l' (raft_id f)) - 1" "in_sync l' ((sync_round n ^^ Suc k) (l', f'))"
      using less.hyps [of l' f'] less.prems(5) by (auto simp: retry_def)
    moreover have "in_sync l' = in_sync l" using r by (simp add: fun_eq_iff in_sync_def retry_def last_index_def)
    moreover have "(sync_round n ^^ Suc (Suc k)) (l, f) = (sync_round n ^^ Suc k) (l', f')"
      by (simp add: funpow_swap1 lf)
    ultimately show ?thesis using r by (intro exI [of _ "Suc k"]) (auto simp: retry_def)
  qed
qed

section \<open>Properties\<close>

lemma run_safe:
  assumes "raft.permitted_run (ops @ ops') (raft_new i)"
  defines "r \<equiv> fold raft_step ops (raft_new i)"
  shows "\<forall>k < length (raft_log r). unat (entry_index (raft_log r ! k)) = k + 1"
    and "unat (commit_index r) \<le> length (raft_log r)"
    and "current_term r \<le> current_term (fold raft_step ops' r)"
    and "contiguous (unat (prev_log_index q)) (ar_entries q) \<Longrightarrow> \<exists>resp. fst (append_entries r q) = Ret resp"
    and "fst (observe_append_entries_response r p resp n) = Ret ()"
proof -
  have inv: "raft_inv r"
    using raft.run_inv [OF raft_inv_new] assms(1) by (simp add: r_def raft.permitted_run_append)
  then show "\<forall>k < length (raft_log r). unat (entry_index (raft_log r ! k)) = k + 1" "unat (commit_index r) \<le> length (raft_log r)"
    by (simp_all add: raft_inv_def contiguous_def)
  show "current_term r \<le> current_term (fold raft_step ops' r)"
    using raft.run_rank [OF inv] assms(1) by (simp add: r_def raft.permitted_run_append word_le_nat_alt)
  show "\<exists>resp. fst (append_entries r q) = Ret resp" if "contiguous (unat (prev_log_index q)) (ar_entries q)"
    by (simp add: append_entries_cases [OF that] Let_def)
  show "fst (observe_append_entries_response r p resp n) = Ret ()"
  proof (cases "role r = Leader \<and> append_term resp \<le> current_term r \<and> success resp")
    case True
    then show ?thesis using observe_append_success [OF inv, of resp p n] by auto
  qed (auto simp: observe_append_entries_response_def Let_def not_less)
qed



text \<open>C15: A node that receives no append requests casts at most one vote per term, its own
  candidacies included: two votes of the same term are for the same candidate.\<close>

theorem raft_one_vote_per_term:
  assumes "raft.permitted_run ops (raft_new i)" "\<forall>q. AppendEntries q \<notin> set ops"
    "(t, c) \<in> set (votes_cast ops (raft_new i))" "(t, d) \<in> set (votes_cast ops (raft_new i))"
  shows "c = d"
  using votes_cast_unique [of "{}" "raft_new i" ops] assms
  by (simp add: ballot_ok_def one_vote_per_term_def)

theorem raft_one_vote_per_term_witness:
  "(1, ''c'') \<notin> set (votes_cast [RequestVote \<lparr>candidate_id = ''b'', vr_term = 1, last_log_index = 0, last_log_term = 0\<rparr>,
      RequestVote \<lparr>candidate_id = ''c'', vr_term = 1, last_log_index = 0, last_log_term = 0\<rparr>] (raft_new ''a''))"
proof
  let ?ops = "[RequestVote \<lparr>candidate_id = ''b'', vr_term = 1, last_log_index = 0, last_log_term = 0\<rparr>,
      RequestVote \<lparr>candidate_id = ''c'', vr_term = 1, last_log_index = 0, last_log_term = 0\<rparr>]"
  assume c: "(1, ''c'') \<in> set (votes_cast ?ops (raft_new ''a''))"
  have "raft.permitted_run ?ops (raft_new ''a'')" "\<forall>q. AppendEntries q \<notin> set ?ops" by simp_all
  moreover have "(1, ''b'') \<in> set (votes_cast ?ops (raft_new ''a''))" by code_simp
  ultimately have "''c'' = ''b''" using raft_one_vote_per_term c by blast
  then show False by simp
qed


definition leader_with_entry :: raft where
  "leader_with_entry = fold raft_step [Configure [''b''], SingleNode, ClientCommand ''x'', ClientCommand ''y''] (raft_new ''a'')"




text \<open>A leader counts its own commands as committed at once: whatever the size of the cluster
  and however few followers hold it, the command that was just appended is the commit index, and
  no later acknowledgement has anything left to commit.\<close>

theorem client_command_commits_at_once:
  fixes r :: raft and c :: string
  assumes "role r = Leader"
  defines "r' \<equiv> snd (append_client_command r c)"
  shows "fst (append_client_command r c) = Value (last (raft_log r')) \<and> entry_command (last (raft_log r')) = c \<and>
    commit_index r' = last_index r' \<and> \<not> (\<exists>e \<le> last_index r'. committable r' n e)"
  using assms(1) unfolding r'_def by (auto simp: append_client_command_def last_index_def committable_def Let_def)

theorem client_command_commits_at_once_witness:
  "commit_index (snd (append_client_command (become_leader_for_single_node (raft_new ''a'')) ''z'')) = 1"
proof -
  let ?r = "become_leader_for_single_node (raft_new ''a'')"
  have "role ?r = Leader" by code_simp
  moreover have "last_index (snd (append_client_command ?r ''z'')) = 1" by code_simp
  ultimately show ?thesis using client_command_commits_at_once [of ?r "''z''"] by simp
qed



end
