(* ===== verification/Logger.thy ===== *)
theory Logger
  imports Cpp_Text
begin

text \<open>
  \<^verbatim>\<open>src/common/logger.cpp\<close>: one line of JSON on the error stream for each message, or a call of
  spdlog where the program is built with it (\<open>use_spdlog\<close>). How the standard library prints a time
  is the argument \<open>put_time\<close>; spdlog is the list of the calls it receives. The mutex makes
  each line one piece.

  A reader of such lines is defined here as their meaning; it knows no escapes, because the writer
  writes none.
\<close>

section \<open>The implementation\<close>

datatype level = kInfo | kWarn | kError

record log_sink =
  err_text :: string
  spdlog_calls :: "(level \<times> string) list"

definition level_label :: "level \<Rightarrow> string" where
  "level_label l = (if l = kInfo then ''INFO'' else if l = kWarn then ''WARN'' else ''ERROR'')"

definition quote :: char where
  "quote = CHR 0x22"

definition log_line :: "string \<Rightarrow> level \<Rightarrow> string \<Rightarrow> string \<Rightarrow> string" where
  "log_line ts l component message =
     ''{'' @ [quote] @ ''ts'' @ [quote] @ '':'' @ [quote] @ ts @ [quote] @ '','' @ [quote] @ ''level'' @ [quote] @ '':'' @ [quote] @ level_label l @
     [quote] @ '','' @ [quote] @ ''component'' @ [quote] @ '':'' @ [quote] @ component @
     [quote] @ '','' @ [quote] @ ''msg'' @ [quote] @ '':'' @ [quote] @ message @ [quote] @ ''}'' @ [newline]"

definition logger_log :: "bool \<Rightarrow> (int \<Rightarrow> string) \<Rightarrow> int \<Rightarrow> level \<Rightarrow> string \<Rightarrow> string \<Rightarrow> log_sink \<Rightarrow> log_sink" where
  "logger_log use_spdlog put_time now l component message k =
     (if use_spdlog then k\<lparr>spdlog_calls := spdlog_calls k @ [(l, ''['' @ component @ ''] '' @ message)]\<rparr>
      else k\<lparr>err_text := err_text k @ log_line (put_time now) l component message\<rparr>)"

section \<open>Reading the lines\<close>

definition unescaped :: "string \<Rightarrow> bool" where
  "unescaped s \<longleftrightarrow> (\<forall>c \<in> set s. c \<noteq> quote \<and> c \<noteq> CHR 0x5C \<and> 32 \<le> (of_char c :: nat))"

fun read_string :: "string \<Rightarrow> (string \<times> string) option" where
  "read_string [] = None"
| "read_string (c # cs) =
     (if c = quote then Some ([], cs)
      else if c = CHR 0x5C \<or> (of_char c :: nat) < 32 then None
      else map_option (\<lambda>(s, rest). (c # s, rest)) (read_string cs))"

fun expect :: "string \<Rightarrow> string \<Rightarrow> string option" where
  "expect [] cs = Some cs"
| "expect (p # ps) (c # cs) = (if p = c then expect ps cs else None)"
| "expect (p # ps) [] = None"

definition read_member :: "string \<Rightarrow> string \<Rightarrow> (string \<times> string) option" where
  "read_member key cs = Option.bind (expect ([quote] @ key @ [quote] @ '':'' @ [quote]) cs) read_string"

definition read_line :: "string \<Rightarrow> ((string \<times> string \<times> string \<times> string) \<times> string) option" where
  "read_line cs0 =
     Option.bind (expect ''{'' cs0) (\<lambda>cs. Option.bind (read_member ''ts'' cs) (\<lambda>(ts, cs).
       Option.bind (expect '','' cs) (\<lambda>cs. Option.bind (read_member ''level'' cs) (\<lambda>(l, cs).
         Option.bind (expect '','' cs) (\<lambda>cs. Option.bind (read_member ''component'' cs) (\<lambda>(component, cs).
           Option.bind (expect '','' cs) (\<lambda>cs. Option.bind (read_member ''msg'' cs) (\<lambda>(msg, cs).
             map_option (Pair (ts, l, component, msg)) (expect (''}'' @ [newline]) cs)))))))))"

lemma read_string_shorter: "read_string cs = Some (s, rest) \<Longrightarrow> length rest < length cs"
  by (induction cs arbitrary: s) (fastforce split: if_splits)+

lemma expect_shorter: "expect ps cs = Some rest \<Longrightarrow> length rest + length ps = length cs"
  by (induction ps cs rule: expect.induct) (auto split: if_splits)

lemma read_member_shorter: "read_member key cs = Some (s, rest) \<Longrightarrow> length rest < length cs"
  by (auto simp: read_member_def bind_eq_Some_conv dest!: expect_shorter read_string_shorter)

lemma read_line_shorter: "read_line cs = Some (e, rest) \<Longrightarrow> length rest < length cs"
  by (auto simp: read_line_def bind_eq_Some_conv split: prod.splits dest!: expect_shorter read_member_shorter)

function read_lines :: "string \<Rightarrow> (string \<times> string \<times> string \<times> string) list option" where
  "read_lines cs = (if cs = [] then Some [] else case read_line cs of None \<Rightarrow> None | Some (e, rest) \<Rightarrow> map_option (Cons e) (read_lines rest))"
  by pat_completeness auto

termination by (relation "measure length") (auto dest: read_line_shorter)

declare read_lines.simps [simp del]

lemma expect_append [simp]: "expect ps (ps @ cs) = Some cs"
  by (induction ps) simp_all

lemma read_string_append: "unescaped s \<Longrightarrow> read_string (s @ quote # cs) = Some (s, cs)"
  by (induction s) (auto simp: unescaped_def)

lemma read_member_append:
  assumes "unescaped s"
  shows "read_member key ([quote] @ key @ [quote] @ '':'' @ [quote] @ s @ [quote] @ cs) = Some (s, cs)"
proof -
  have "expect ([quote] @ key @ [quote] @ '':'' @ [quote]) (([quote] @ key @ [quote] @ '':'' @ [quote]) @ s @ [quote] @ cs) = Some (s @ [quote] @ cs)"
    by (rule expect_append)
  then show ?thesis using read_string_append [OF assms, of cs] by (simp add: read_member_def)
qed

lemma label_unescaped: "unescaped (level_label l)"
  by (simp add: level_label_def unescaped_def quote_def)

lemma label_inj: "level_label l = level_label l' \<longleftrightarrow> l = l'"
  by (cases l; cases l') (simp_all add: level_label_def)

lemma read_log_line:
  assumes "unescaped ts" "unescaped component" "unescaped message"
  shows "read_line (log_line ts l component message @ cs) = Some ((ts, level_label l, component, message), cs)"
proof -
  have e: "expect '','' ('','' @ cs) = Some cs" "expect ''{'' (''{'' @ cs) = Some cs"
    "expect (''}'' @ [newline]) (''}'' @ [newline] @ cs) = Some cs" for cs by simp_all
  note m = read_member_append [OF assms(1), of "''ts''"] read_member_append [OF label_unescaped, of "''level''"]
    read_member_append [OF assms(2), of "''component''"] read_member_append [OF assms(3), of "''msg''"]
  show ?thesis unfolding read_line_def log_line_def append_assoc e Option.bind.simps m prod.case by simp
qed

lemma log_line_end: "\<exists>h. \<forall>m. log_line ts l c m = h @ m @ [quote] @ ''}'' @ [newline]"
  unfolding log_line_def
  by (intro exI [of _ "''{'' @ [quote] @ ''ts'' @ [quote] @ '':'' @ [quote] @ ts @ [quote] @ '','' @ [quote] @ ''level'' @ [quote] @ '':'' @ [quote] @
      level_label l @ [quote] @ '','' @ [quote] @ ''component'' @ [quote] @ '':'' @ [quote] @ c @ [quote] @ '','' @ [quote] @ ''msg'' @ [quote] @ '':'' @ [quote]"])
    simp

section \<open>Properties\<close>

definition log_all :: "bool \<Rightarrow> (int \<Rightarrow> string) \<Rightarrow> (int \<times> level \<times> string \<times> string) list \<Rightarrow> log_sink \<Rightarrow> log_sink" where
  "log_all use_spdlog put_time es k = fold (\<lambda>(now, l, c, m). logger_log use_spdlog put_time now l c m) es k"

lemma log_all_text:
  "err_text (log_all False put_time es k) = err_text k @ concat (map (\<lambda>(now, l, c, m). log_line (put_time now) l c m) es)"
  unfolding log_all_def by (induction es arbitrary: k) (auto simp: logger_log_def)

text \<open>The error stream can be read back: when no field needs an escape, the lines give the messages
  that were logged, with their times, levels and components, in order.\<close>

theorem log_stream_readable:
  assumes "\<forall>(now, l, c, m) \<in> set es. unescaped (put_time now) \<and> unescaped c \<and> unescaped m" "err_text k = []"
  shows "read_lines (err_text (log_all False put_time es k)) = Some (map (\<lambda>(now, l, c, m). (put_time now, level_label l, c, m)) es)"
proof -
  have "read_lines (concat (map (\<lambda>(now, l, c, m). log_line (put_time now) l c m) es)) = Some (map (\<lambda>(now, l, c, m). (put_time now, level_label l, c, m)) es)"
    using assms(1)
  proof (induction es)
    case Nil
    then show ?case by (simp add: read_lines.simps)
  next
    case (Cons e es)
    obtain now l c m where e: "e = (now, l, c, m)" by (cases e)
    have "log_line (put_time now) l c m \<noteq> []" by (simp add: log_line_def)
    then show ?case using Cons by (subst read_lines.simps) (auto simp: e read_log_line)
  qed
  then show ?thesis by (simp add: log_all_text assms(2))
qed

theorem log_stream_readable_witness:
  "read_lines (err_text (log_all False (\<lambda>_. ''1970-01-01T00:00:00Z'') [(0, kInfo, ''wal'', ''opened''), (0, kError, ''http'', ''bind failed'')]
       \<lparr>err_text = [], spdlog_calls = []\<rparr>)) =
     Some [(''1970-01-01T00:00:00Z'', ''INFO'', ''wal'', ''opened''), (''1970-01-01T00:00:00Z'', ''ERROR'', ''http'', ''bind failed'')]"
proof -
  have "unescaped ''1970-01-01T00:00:00Z'' \<and> unescaped ''wal'' \<and> unescaped ''opened'' \<and> unescaped ''http'' \<and> unescaped ''bind failed''"
    by (simp add: unescaped_def quote_def)
  then show ?thesis
    using log_stream_readable [of "[(0, kInfo, ''wal'', ''opened''), (0, kError, ''http'', ''bind failed'')]" "\<lambda>_. ''1970-01-01T00:00:00Z''"
        "\<lparr>err_text = [], spdlog_calls = []\<rparr>"] by (simp add: level_label_def)
qed

text \<open>Nothing is escaped, so one message can pose as two: a message that contains the end of its
  own line and the beginning of another is written exactly as two messages would be.\<close>

theorem log_line_forged:
  fixes ts l c m ts' l' c' m'
  defines "other \<equiv> log_line ts' l' c' m'"
  shows "log_line ts l c (m @ [quote] @ ''}'' @ [newline] @ take (length other - 3) other) = log_line ts l c m @ other"
proof -
  obtain h where h: "\<And>m. log_line ts l c m = h @ m @ [quote] @ ''}'' @ [newline]" using log_line_end by blast
  obtain h' where h': "\<And>m. log_line ts' l' c' m = h' @ m @ [quote] @ ''}'' @ [newline]" using log_line_end by blast
  have "take (length other - 3) other = h' @ m'" by (simp add: other_def h')
  then show ?thesis by (simp add: other_def h h')
qed

end
