(* ===== verification/Http.thy ===== *)
theory Http
  imports Status_Result "HOL-Library.AList"
begin

text \<open>
  \<^verbatim>\<open>src/network/http_server.cpp\<close>: requests and responses, the request parser and dispatcher
  of the server, and the client call \<^verbatim>\<open>http_request\<close>.

  What a socket delivers is the list of the pieces that successive \<^verbatim>\<open>recv\<close> calls return;
  its end, or an empty piece, is a \<^verbatim>\<open>recv\<close> that returns 0 or an error. An unordered map of
  headers is the list of its entries in iteration order. What a peer answers is a parameter,
  \<open>network\<close>: it gives, for a host, a port and the bytes that were sent, how the call ends, and
  may change a state of the world outside.
\<close>

section \<open>The implementation\<close>

record HttpRequest =
  req_method :: string
  path :: string
  headers :: "(string \<times> string) list"
  body :: bytes

record HttpResponse =
  status :: int
  content_type :: string
  resp_body :: bytes

definition crlf :: string where "crlf = [CHR 0x0D, CHR 0x0A]"

definition header_end :: string where "header_end = crlf @ crlf"

text \<open>\<^verbatim>\<open>s.find(p)\<close>.\<close>

fun find_str :: "string \<Rightarrow> string \<Rightarrow> nat option" where
  "find_str p [] = (if p = [] then Some 0 else None)"
| "find_str p (x # xs) = (if take (length p) (x # xs) = p then Some 0 else map_option Suc (find_str p xs))"

definition tolower :: "char \<Rightarrow> char" where
  "tolower c = (if 65 \<le> (of_char c :: nat) \<and> (of_char c :: nat) \<le> 90 then char_of ((of_char c :: nat) + 32) else c)"

definition reason :: "int \<Rightarrow> string" where
  "reason s =
     (if s = 200 then ''OK'' else if s = 201 then ''Created'' else if s = 204 then ''No Content''
      else if s = 400 then ''Bad Request'' else if s = 401 then ''Unauthorized'' else if s = 403 then ''Forbidden''
      else if s = 404 then ''Not Found'' else if s = 409 then ''Conflict'' else ''Internal Server Error'')"

definition serialize :: "HttpResponse \<Rightarrow> string" where
  "serialize r =
     ''HTTP/1.1 '' @ to_string_int (status r) @ '' '' @ reason (status r) @ crlf @
     ''Content-Type: '' @ content_type r @ crlf @
     ''Content-Length: '' @ to_string (length (resp_body r)) @ crlf @
     ''Connection: close'' @ crlf @ crlf @ bytes_string (resp_body r)"

fun read_headers :: "string \<Rightarrow> string list \<Rightarrow> (string \<times> string list) result" where
  "read_headers buffer input =
     (if find_str header_end buffer \<noteq> None then Value (buffer, input)
      else case input of
        [] \<Rightarrow> Error (Invalid ''failed to read request'')
      | d # rest \<Rightarrow>
          if d = [] then Error (Invalid ''failed to read request'')
          else if length (buffer @ d) > 1024 * 1024 then Error (Invalid ''headers too large'')
          else read_headers (buffer @ d) rest)"

fun read_body :: "bytes \<Rightarrow> u64 \<Rightarrow> string list \<Rightarrow> bytes result" where
  "read_body bd content_length input =
     (if length bd < unat content_length
      then case input of
        [] \<Rightarrow> Error (Invalid ''failed to read body'')
      | d # rest \<Rightarrow> if d = [] then Error (Invalid ''failed to read body'') else read_body (bd @ string_bytes d) content_length rest
      else Value (take (unat content_length) bd))"

declare read_headers.simps [simp del] read_body.simps [simp del]

definition header_line :: "string \<Rightarrow> (string \<times> string) list \<Rightarrow> (string \<times> string) list" where
  "header_line raw hs =
     (let line = (if raw \<noteq> [] \<and> last raw = CHR 0x0D then butlast raw else raw)
      in case find_char CHR '':'' line of
           None \<Rightarrow> hs
         | Some colon \<Rightarrow>
             AList.update (map tolower (take colon line)) (dropWhile (\<lambda>c. c = CHR '' '') (drop (Suc colon) line)) hs)"

definition after_line :: "string \<Rightarrow> string" where
  "after_line s = (case find_char newline s of None \<Rightarrow> [] | Some i \<Rightarrow> drop (Suc i) s)"

definition parse_head :: "string \<Rightarrow> HttpRequest" where
  "parse_head text =
     (let (m, rest1) = extract_word text; (p, rest2) = extract_word rest1
      in \<lparr>req_method = m, path = p, headers = fold header_line (getlines (after_line rest2)) [], body = []\<rparr>)"

definition parse_request :: "string list \<Rightarrow> HttpRequest result outcome" where
  "parse_request input =
     (case read_headers [] input of
        Error e \<Rightarrow> Ret (Error e)
      | Value (buffer, rest) \<Rightarrow>
          (case find_str header_end buffer of
             None \<Rightarrow> Undefined
           | Some split \<Rightarrow>
               (let req = parse_head (take split buffer); bd = string_bytes (drop (split + 4) buffer)
                in obind (case map_of (headers req) ''content-length'' of None \<Rightarrow> Ret 0 | Some v \<Rightarrow> stoull v)
                     (\<lambda>content_length. case read_body bd content_length rest of
                        Error e \<Rightarrow> Ret (Error e)
                      | Value b \<Rightarrow> Ret (Value (req\<lparr>body := b\<rparr>))))))"

text \<open>Routes in the order they were added; a request goes to the first whose method is equal
  and whose prefix begins the path. A handler that does not return is \<open>None\<close>.\<close>

type_synonym 's handler = "HttpRequest \<Rightarrow> 's \<Rightarrow> (HttpResponse outcome \<times> 's) option"

fun dispatch :: "(string \<times> string \<times> 's handler) list \<Rightarrow> 's handler" where
  "dispatch [] req s = Some (Ret \<lparr>status = 404, content_type = ''application/json'', resp_body = string_bytes (''{}'' @ [newline])\<rparr>, s)"
| "dispatch ((m, prefix, handler) # routes) req s =
     (if req_method req = m \<and> take (length prefix) (path req) = prefix then handler req s else dispatch routes req s)"

text \<open>The task that \<^verbatim>\<open>HttpServer::run\<close> submits for one connection: what is sent, or an
  exception that ends the task before anything is sent or the socket is closed.\<close>

definition serve :: "(string \<times> string \<times> 's handler) list \<Rightarrow> string list \<Rightarrow> 's \<Rightarrow> (string outcome \<times> 's) option" where
  "serve routes input s =
     (case parse_request input of
        Ret (Error e) \<Rightarrow>
          Some (Ret (serialize \<lparr>status = 400, content_type = ''application/json'', resp_body = string_bytes (''{}'' @ [newline])\<rparr>), s)
      | Ret (Value req) \<Rightarrow> map_option (\<lambda>(r, s'). (obind r (\<lambda>resp. Ret (serialize resp)), s')) (dispatch routes req s)
      | Throw e \<Rightarrow> Some (Throw e, s)
      | Undefined \<Rightarrow> Some (Undefined, s))"

datatype connection = No_host | No_socket | No_connection | Reply string

type_synonym 'w network = "string \<Rightarrow> int \<Rightarrow> string \<Rightarrow> 'w \<Rightarrow> connection \<times> 'w"

definition request_text :: "string \<Rightarrow> HttpRequest \<Rightarrow> string" where
  "request_text host req =
     req_method req @ '' '' @ path req @ '' HTTP/1.1'' @ crlf @
     ''Host: '' @ host @ crlf @
     concat (map (\<lambda>(k, v). k @ '': '' @ v @ crlf) (headers req)) @
     ''Content-Length: '' @ to_string (length (body req)) @ crlf @ ''Connection: close'' @ crlf @ crlf @
     bytes_string (body req)"

text \<open>\<^verbatim>\<open>stream >> n\<close> for an \<^verbatim>\<open>int\<close> after \<^verbatim>\<open>stream >> word\<close>: nothing left to read keeps
  the old value, text that is no number gives 0, an overflow the nearest value.\<close>

definition extract_int :: "string \<Rightarrow> int \<Rightarrow> int" where
  "extract_int s old =
     (if dropWhile isspace s = [] then old
      else let (neg, ds) = scan_integer s in
        if ds = [] then 0
        else max (- (2 ^ 31)) (min (2 ^ 31 - 1) (if neg then - int (digits_value ds) else int (digits_value ds))))"

definition parse_response :: "string \<Rightarrow> HttpResponse result" where
  "parse_response raw =
     (case find_str header_end raw of
        None \<Rightarrow> Error (Internal ''invalid response'')
      | Some split \<Rightarrow>
          (let line = (case find_str crlf raw of None \<Rightarrow> raw | Some i \<Rightarrow> take i raw)
           in Value \<lparr>status = extract_int (snd (extract_word line)) 200, content_type = ''application/json'',
                     resp_body = string_bytes (drop (split + 4) raw)\<rparr>))"

definition http_request :: "'w network \<Rightarrow> string \<Rightarrow> int \<Rightarrow> HttpRequest \<Rightarrow> 'w \<Rightarrow> HttpResponse result \<times> 'w" where
  "http_request net host port req w =
     (case net host port (request_text host req) w of
        (No_host, w') \<Rightarrow> (Error (Unavailable ''host resolution failed''), w')
      | (No_socket, w') \<Rightarrow> (Error (Internal ''socket creation failed''), w')
      | (No_connection, w') \<Rightarrow> (Error (Unavailable ''connect failed''), w')
      | (Reply raw, w') \<Rightarrow> (parse_response raw, w'))"

section \<open>Finding the end of the header\<close>

definition no_cr :: "string \<Rightarrow> bool" where
  "no_cr l \<longleftrightarrow> CHR 0x0D \<notin> set l"

definition one_line :: "string \<Rightarrow> bool" where
  "one_line l \<longleftrightarrow> CHR 0x0D \<notin> set l \<and> newline \<notin> set l"

lemma one_line_simps [simp]:
  "one_line []" "one_line (c # l) \<longleftrightarrow> c \<noteq> CHR 0x0D \<and> c \<noteq> newline \<and> one_line l" "one_line (k @ l) \<longleftrightarrow> one_line k \<and> one_line l"
  by (auto simp: one_line_def)

lemma plain_one_line: "plain_word w \<Longrightarrow> one_line w"
proof -
  assume w: "plain_word w"
  have "isspace CHR 0x0D" by (simp add: isspace_def)
  then show ?thesis using w plain_word_no_sep(2) [OF w] by (auto simp: one_line_def plain_word_def)
qed

lemma one_line_to_string [simp]: "one_line (to_string n)"
  by (simp add: plain_one_line)

lemma find_str_bound: "find_str p s = Some i \<Longrightarrow> i + length p \<le> length s"
proof (induction s arbitrary: i)
  case (Cons x xs)
  show ?case
  proof (cases "take (length p) (x # xs) = p")
    case True
    have "length (take (length p) (x # xs)) \<le> length (x # xs)" by simp
    with True Cons.prems show ?thesis by simp
  qed (use Cons in auto)
qed (auto split: if_splits)

text \<open>Looking for \<open>p\<close> in a prefix that is long enough gives the same position.\<close>

lemma find_str_prefix:
  "i + length p \<le> length s \<Longrightarrow> find_str p (s @ t) = Some i \<longleftrightarrow> find_str p s = Some i"
proof (induction s arbitrary: i)
  case Nil
  then show ?case by (cases t) auto
next
  case (Cons x xs)
  show ?case
  proof (cases "length p \<le> length (x # xs)")
    case True
    then have "take (length p) ((x # xs) @ t) = take (length p) (x # xs)" by (subst take_append) simp
    with Cons show ?thesis by (cases i) (auto simp del: take_append)
  qed (use Cons.prems in simp)
qed

lemma find_str_extend: "find_str p s = Some i \<Longrightarrow> find_str p (s @ t) = Some i"
  using find_str_prefix [of i p s t] find_str_bound by blast

lemma find_header_end_skip:
  "CHR 0x0D \<notin> set l \<Longrightarrow> find_str header_end (l @ s) = map_option ((+) (length l)) (find_str header_end s)"
proof (induction l)
  case (Cons c l)
  then show ?case by (cases "find_str header_end s") (auto simp: header_end_def crlf_def)
qed (cases "find_str header_end s"; simp)

lemma find_header_end_crlf:
  assumes "c \<noteq> CHR 0x0D"
  shows "find_str header_end (crlf @ c # s) = map_option ((+) 2) (find_str header_end (c # s))"
proof -
  have "((+) 2) = (\<lambda>i::nat. Suc (Suc i))" by auto
  with assms show ?thesis by (simp add: header_end_def crlf_def option.map_comp comp_def)
qed

lemma find_header_end_lines:
  assumes "ls \<noteq> []" "\<forall>l \<in> set ls. l \<noteq> [] \<and> one_line l"
  shows "find_str header_end (concat (map (\<lambda>l. l @ crlf) ls) @ crlf @ rest) = Some (length (concat (map (\<lambda>l. l @ crlf) ls)) - 2)"
  using assms
proof (induction ls rule: list_nonempty_induct)
  case (single l)
  then show ?case using find_header_end_skip [of l "crlf @ crlf @ rest"]
    by (simp add: one_line_def) (simp add: header_end_def crlf_def)
next
  case (cons l ls)
  obtain k ks where ks: "ls = k # ks" using cons.hyps by (cases ls) auto
  obtain c k' where k: "k = c # k'" "c \<noteq> CHR 0x0D" using cons.prems ks by (cases k) (auto simp: one_line_def)
  let ?t = "concat (map (\<lambda>l. l @ crlf) ls)"
  have two: "2 \<le> length ?t" by (simp add: ks crlf_def)
  have "find_str header_end (crlf @ ?t @ crlf @ rest) = map_option ((+) 2) (find_str header_end (?t @ crlf @ rest))"
    using k find_header_end_crlf [of c] by (simp add: ks)
  moreover have "find_str header_end (?t @ crlf @ rest) = Some (length ?t - 2)" using cons by simp
  ultimately show ?case
    using find_header_end_skip [of l "crlf @ ?t @ crlf @ rest"] cons.prems two
    by (simp add: one_line_def) (simp add: crlf_def)
qed

section \<open>Reading in pieces\<close>

definition pieces_of :: "string \<Rightarrow> string list \<Rightarrow> bool" where
  "pieces_of text input \<longleftrightarrow> concat input = text \<and> (\<forall>d \<in> set input. d \<noteq> [] \<and> length d \<le> 8192)"

lemma read_headers_pieces:
  assumes "find_str header_end (buffer @ concat input) = Some i" "\<forall>d \<in> set input. d \<noteq> [] \<and> length d \<le> 8192"
    "i + 4 + 8192 \<le> 1024 * 1024"
  shows "\<exists>b rest. read_headers buffer input = Value (b, rest) \<and> b @ concat rest = buffer @ concat input \<and>
    find_str header_end b = Some i \<and> set rest \<subseteq> set input"
  using assms(1,2)
proof (induction input arbitrary: buffer)
  case Nil
  then show ?case by (simp add: read_headers.simps)
next
  case (Cons d input)
  show ?case
  proof (cases "find_str header_end buffer")
    case (Some j)
    then have "j = i" using find_str_extend [OF Some, of "concat (d # input)"] Cons.prems(1) by simp
    with Some show ?thesis by (simp add: read_headers.simps)
  next
    case None
    have "length buffer < i + 4"
      using None find_str_prefix [of i header_end buffer "concat (d # input)"] Cons.prems(1)
      by (force simp: header_end_def crlf_def)
    then have "\<not> 1024 * 1024 < length (buffer @ d)" "d \<noteq> []" using Cons.prems(2) assms(3) by auto
    moreover obtain b rest where "read_headers (buffer @ d) input = Value (b, rest)" "b @ concat rest = (buffer @ d) @ concat input"
      "find_str header_end b = Some i" "set rest \<subseteq> set input"
      using Cons.IH [of "buffer @ d"] Cons.prems by auto
    ultimately show ?thesis using None by (subst read_headers.simps) auto
  qed
qed

lemma string_bytes_concat: "string_bytes (concat ds) = concat (map string_bytes ds)"
  by (induction ds) (simp_all add: string_bytes_def)

lemma read_body_pieces:
  assumes "bd @ string_bytes (concat input) = b" "\<forall>d \<in> set input. d \<noteq> []" "length b = unat n"
  shows "read_body bd n input = Value b"
  using assms(1,2)
proof (induction input arbitrary: bd)
  case Nil
  then show ?case using assms(3) by (simp add: read_body.simps string_bytes_def)
next
  case (Cons d input)
  then have "length d > 0" "length bd + length d \<le> length b" by auto
  then have "length bd < unat n" using assms(3) by linarith
  with Cons show ?case by (subst read_body.simps) simp
qed

section \<open>Parsing what the client wrote\<close>

definition header_ok :: "string \<times> string \<Rightarrow> bool" where
  "header_ok h \<longleftrightarrow> (case h of (k, v) \<Rightarrow> one_line k \<and> CHR '':'' \<notin> set k \<and> one_line v \<and> (v = [] \<or> hd v \<noteq> CHR '' ''))"

definition header_text :: "string \<times> string \<Rightarrow> string" where
  "header_text h = fst h @ '': '' @ snd h"

definition add_header :: "string \<times> string \<Rightarrow> (string \<times> string) list \<Rightarrow> (string \<times> string) list" where
  "add_header h = AList.update (map tolower (fst h)) (snd h)"

lemma header_text_one_line: "header_ok h \<Longrightarrow> one_line (header_text h) \<and> header_text h \<noteq> []"
  by (auto simp: header_ok_def header_text_def newline_def split: prod.splits)

lemma header_line_text:
  assumes "header_ok h" "cr = [] \<or> cr = [CHR 0x0D]"
  shows "header_line (header_text h @ cr) = add_header h"
proof -
  obtain k v where h: "h = (k, v)" by (cases h)
  let ?l = "k @ CHR '':'' # CHR '' '' # v"
  have "CHR 0x0D \<notin> set ?l" using assms(1) by (auto simp: h header_ok_def one_line_def)
  then have "last ?l \<noteq> CHR 0x0D" by (metis Nil_is_append_conv last_in_set list.distinct(1))
  then have strip: "(if ?l @ cr \<noteq> [] \<and> last (?l @ cr) = CHR 0x0D then butlast (?l @ cr) else ?l @ cr) = ?l"
    using assms(2) by (auto simp: butlast_append)
  have "find_char CHR '':'' ?l = Some (length k)"
    using assms(1) by (intro find_char_append) (simp add: h header_ok_def)
  moreover have "dropWhile (\<lambda>c. c = CHR '' '') v = v"
    using assms(1) by (cases v) (auto simp: h header_ok_def)
  moreover have whole: "header_text h @ cr = ?l @ cr" by (simp add: header_text_def h)
  ultimately show ?thesis
    unfolding whole by (intro ext) (unfold header_line_def strip, simp add: add_header_def h)
qed

lemma getlines_headers:
  assumes "hs \<noteq> []" "\<forall>h \<in> set hs. header_ok h"
  shows "fold header_line (getlines (concat (map (\<lambda>h. header_text h @ crlf) (butlast hs)) @ header_text (last hs))) acc = fold add_header hs acc"
  using assms
proof (induction hs arbitrary: acc rule: list_nonempty_induct)
  case (single h)
  then have "one_line (header_text h)" "header_text h \<noteq> []" using header_text_one_line by auto
  then have "getlines (header_text h) = [header_text h]" by (intro getlines_last) (simp_all add: one_line_def)
  then show ?case using single header_line_text [of h "[]"] by simp
next
  case (cons h hs)
  then have h: "header_ok h" "newline \<notin> set (header_text h @ [CHR 0x0D])"
    using header_text_one_line by (auto simp: one_line_def newline_def)
  let ?rest = "concat (map (\<lambda>h. header_text h @ crlf) (butlast hs)) @ header_text (last hs)"
  have "getlines ((header_text h @ [CHR 0x0D]) @ newline # ?rest) = (header_text h @ [CHR 0x0D]) # getlines ?rest"
    by (rule getlines_line [OF h(2)])
  then have "fold header_line (getlines (header_text h @ crlf @ ?rest)) acc = fold add_header hs (add_header h acc)"
    using cons.IH [of "add_header h acc"] cons.prems header_line_text [OF h(1), of "[CHR 0x0D]"]
    by (simp add: crlf_def newline_def)
  then show ?case using cons.hyps by simp
qed

lemma parse_head_text:
  assumes "plain_word m" "plain_word p" "one_line v" "hs \<noteq> []" "\<forall>h \<in> set hs. header_ok h"
  shows "parse_head (m @ '' '' @ p @ '' '' @ v @ crlf @ concat (map (\<lambda>h. header_text h @ crlf) (butlast hs)) @ header_text (last hs)) =
    \<lparr>req_method = m, path = p, headers = fold add_header hs [], body = []\<rparr>"
proof -
  let ?rest = "concat (map (\<lambda>h. header_text h @ crlf) (butlast hs)) @ header_text (last hs)"
  have sp: "isspace CHR '' ''" by (simp add: isspace_def)
  have w1: "extract_word (m @ '' '' @ p @ '' '' @ v @ crlf @ ?rest) = (m, '' '' @ p @ '' '' @ v @ crlf @ ?rest)"
    using extract_word_append [OF assms(1) sp] by simp
  have w2: "extract_word ('' '' @ p @ '' '' @ v @ crlf @ ?rest) = (p, '' '' @ v @ crlf @ ?rest)"
    using extract_word_append [OF assms(2) sp] extract_word_space [OF sp] by simp
  have "find_char newline (('' '' @ v @ [CHR 0x0D]) @ newline # ?rest) = Some (length ('' '' @ v @ [CHR 0x0D]))"
    using assms(3) by (intro find_char_append) (auto simp: one_line_def newline_def)
  then have "after_line ('' '' @ v @ crlf @ ?rest) = ?rest" by (simp add: after_line_def crlf_def newline_def)
  then show ?thesis
    unfolding parse_head_def w1 w2 Let_def case_prod_conv using getlines_headers [OF assms(4,5), of "[]"] by simp
qed

definition sent_headers :: "string \<Rightarrow> HttpRequest \<Rightarrow> (string \<times> string) list" where
  "sent_headers host req = (''Host'', host) # headers req @ [(''Content-Length'', to_string (length (body req))), (''Connection'', ''close'')]"

definition request_line :: "HttpRequest \<Rightarrow> string" where
  "request_line req = req_method req @ '' '' @ path req @ '' HTTP/1.1''"

definition head_text :: "string \<Rightarrow> HttpRequest \<Rightarrow> string" where
  "head_text host req = request_line req @ crlf @
     concat (map (\<lambda>h. header_text h @ crlf) (butlast (sent_headers host req))) @ header_text (last (sent_headers host req))"

definition request_ok :: "string \<Rightarrow> HttpRequest \<Rightarrow> bool" where
  "request_ok host req \<longleftrightarrow> plain_word (req_method req) \<and> plain_word (path req) \<and> header_ok (''Host'', host) \<and>
     (\<forall>h \<in> set (headers req). header_ok h) \<and> length (body req) < 2 ^ 64 \<and> length (head_text host req) \<le> 1000000"

lemma lower_names: "map tolower ''Content-Length'' = ''content-length''" "map tolower ''Connection'' = ''connection''"
  by code_simp+

lemma add_header_names:
  "add_header (''Content-Length'', v) = AList.update ''content-length'' v" "add_header (''Connection'', v) = AList.update ''connection'' v"
  by (simp_all only: add_header_def lower_names fst_conv snd_conv)

lemma sent_headers_ok: "request_ok host req \<Longrightarrow> \<forall>h \<in> set (sent_headers host req). header_ok h"
proof -
  assume r: "request_ok host req"
  have "\<not> isspace (hd (to_string (length (body req))))" by (rule to_string_no_space [OF hd_in_set [OF to_string_nonempty]])
  then have "hd (to_string (length (body req))) \<noteq> CHR '' ''" by (auto simp: isspace_def)
  then have "header_ok (''Content-Length'', to_string (length (body req)))" by (simp add: header_ok_def newline_def)
  with r show ?thesis by (auto simp: request_ok_def sent_headers_def header_ok_def newline_def)
qed

lemma concat_butlast_last: "xs \<noteq> [] \<Longrightarrow> concat (map f (butlast xs)) @ f (last xs) = concat (map f xs)"
  by (cases xs rule: rev_cases) simp_all

lemma request_text_split: "request_text host req = head_text host req @ header_end @ bytes_string (body req)"
proof -
  have hs: "sent_headers host req \<noteq> []" by (simp add: sent_headers_def)
  have all: "concat (map (\<lambda>h. header_text h @ crlf) (butlast (sent_headers host req))) @ header_text (last (sent_headers host req)) @ crlf =
      concat (map (\<lambda>h. header_text h @ crlf) (sent_headers host req))"
    by (rule concat_butlast_last [OF hs, of "\<lambda>h. header_text h @ crlf"])
  then have "head_text host req @ header_end @ bytes_string (body req) =
      request_line req @ crlf @ concat (map (\<lambda>h. header_text h @ crlf) (sent_headers host req)) @ crlf @ bytes_string (body req)"
    by (simp only: head_text_def header_end_def all [symmetric] append.assoc)
  also have "\<dots> = request_text host req"
    by (simp add: request_text_def request_line_def sent_headers_def header_text_def case_prod_unfold)
  finally show ?thesis by simp
qed

lemma find_request_end:
  assumes "request_ok host req"
  shows "find_str header_end (request_text host req) = Some (length (head_text host req))"
proof -
  let ?ls = "request_line req # map header_text (sent_headers host req)"
  have "one_line (request_line req)" "request_line req \<noteq> []"
    using assms by (auto simp: request_ok_def request_line_def plain_one_line newline_def)
  then have ls: "\<forall>l \<in> set ?ls. l \<noteq> [] \<and> one_line l" using sent_headers_ok [OF assms] header_text_one_line by auto
  have "concat (map (\<lambda>l. l @ crlf) ?ls) @ crlf @ bytes_string (body req) = request_text host req"
    by (simp add: request_text_def request_line_def sent_headers_def header_text_def case_prod_unfold comp_def)
  moreover from arg_cong [OF this, of length] have "length (concat (map (\<lambda>l. l @ crlf) ?ls)) - 2 = length (head_text host req)"
    by (simp add: request_text_split header_end_def crlf_def)
  ultimately show ?thesis using find_header_end_lines [OF _ ls, of "bytes_string (body req)"] by simp
qed

lemma parse_request_text:
  assumes "request_ok host req" "pieces_of (request_text host req) input"
  shows "parse_request input = Ret (Value (req\<lparr>headers := fold add_header (sent_headers host req) []\<rparr>))"
proof -
  let ?h = "head_text host req" and ?n = "length (body req)"
  have input: "concat input = request_text host req" "\<forall>d \<in> set input. d \<noteq> [] \<and> length d \<le> 8192"
    using assms(2) by (simp_all add: pieces_of_def)
  obtain b rest where b: "read_headers [] input = Value (b, rest)" "b @ concat rest = request_text host req"
    "find_str header_end b = Some (length ?h)" "set rest \<subseteq> set input"
    using read_headers_pieces [of "[]" input "length ?h"] input find_request_end [OF assms(1)] assms(1)
    by (auto simp: request_ok_def)
  obtain t where t: "b = ?h @ header_end @ t"
  proof -
    have "length (?h @ header_end) \<le> length b" using find_str_bound [OF b(3)] by simp
    then have "take (length (?h @ header_end)) b = take (length (?h @ header_end)) (b @ concat rest)" by (subst take_append) simp
    also have "\<dots> = ?h @ header_end" unfolding b(2) request_text_split by simp
    finally have pre: "take (length (?h @ header_end)) b = ?h @ header_end" .
    have "(?h @ header_end) @ drop (length (?h @ header_end)) b = b" by (subst pre [symmetric]) (rule append_take_drop_id)
    then show ?thesis using that by (metis append.assoc)
  qed
  have bd: "string_bytes t @ string_bytes (concat rest) = body req"
    using b(2) by (simp add: t request_text_split) (metis string_bytes_append string_bytes_bytes_string)
  have "read_body (string_bytes t) (of_nat ?n) rest = Value (body req)"
    using read_body_pieces [OF bd, of "of_nat ?n"] b(4) input(2) assms(1) by (auto simp: request_ok_def unat_of_size)
  moreover have "parse_head ?h = \<lparr>req_method = req_method req, path = path req, headers = fold add_header (sent_headers host req) [], body = []\<rparr>"
    using parse_head_text [of "req_method req" "path req" "''HTTP/1.1''" "sent_headers host req"] sent_headers_ok [OF assms(1)] assms(1)
    by (simp add: request_ok_def head_text_def request_line_def sent_headers_def newline_def)
  moreover have "map_of (fold add_header (sent_headers host req) []) ''content-length'' = Some (to_string ?n)"
    by (simp add: sent_headers_def add_header_names update_conv')
  ultimately show ?thesis
    using b(1,3) assms(1) by (simp add: parse_request_def t header_end_def crlf_def request_ok_def)
qed

section \<open>Parsing what the server wrote\<close>

lemma find_crlf: "CHR 0x0D \<notin> set l \<Longrightarrow> find_str crlf (l @ crlf @ s) = Some (length l)"
  by (induction l) (auto simp: crlf_def)

lemma one_line_reason [simp]: "one_line (reason n)"
  by (simp add: reason_def newline_def)

lemma scan_number: "scan_integer (CHR '' '' # to_string n @ CHR '' '' # rest) = (False, to_string n)"
proof -
  obtain c cs where s: "to_string n = c # cs" using to_string_nonempty [of n] by (cases "to_string n") auto
  have d: "isdigit c" "\<forall>x \<in> set cs. isdigit x" using to_string_digits [of _ n] s by auto
  moreover have "isspace CHR '' ''" "\<not> isdigit CHR '' ''" by (simp_all add: isspace_def isdigit_def)
  moreover have "c \<noteq> CHR ''-''" "c \<noteq> CHR ''+''" using d(1) by (auto simp: isdigit_def)
  ultimately show ?thesis by (simp add: scan_integer_def s takeWhile_tail)
qed

lemma extract_status:
  assumes "0 \<le> n" "n < 2 ^ 31"
  shows "extract_int (snd (extract_word (''HTTP/1.1 '' @ to_string_int n @ '' '' @ rest))) old = n"
proof -
  have n: "to_string_int n = to_string (nat n)" using assms(1) by (simp add: to_string_int_def)
  have sp: "isspace CHR '' ''" by (simp add: isspace_def)
  have "plain_word ''HTTP/1.1''" by (simp add: plain_word_def isspace_def)
  from extract_word_append [OF this sp, of "to_string (nat n) @ '' '' @ rest"]
  have "snd (extract_word (''HTTP/1.1 '' @ to_string_int n @ '' '' @ rest)) = CHR '' '' # to_string (nat n) @ CHR '' '' # rest"
    by (simp add: n)
  moreover have "dropWhile isspace (CHR '' '' # to_string (nat n) @ CHR '' '' # rest) \<noteq> []"
    using to_string_no_space [of "hd (to_string (nat n))" "nat n"] by (cases "to_string (nat n)") auto
  ultimately show ?thesis using assms by (simp add: extract_int_def scan_number)
qed

definition response_lines :: "HttpResponse \<Rightarrow> string list" where
  "response_lines r = [''HTTP/1.1 '' @ to_string_int (status r) @ '' '' @ reason (status r), ''Content-Type: '' @ content_type r,
     ''Content-Length: '' @ to_string (length (resp_body r)), ''Connection: close'']"

lemma parse_response_serialize:
  assumes "one_line (content_type r)" "0 \<le> status r" "status r < 2 ^ 31"
  shows "parse_response (serialize r) = Value (r\<lparr>content_type := ''application/json''\<rparr>)"
proof -
  let ?ls = "response_lines r"
  have st: "one_line (to_string_int (status r))" using assms(2) by (simp add: to_string_int_def)
  have ls: "?ls \<noteq> []" "\<forall>l \<in> set ?ls. l \<noteq> [] \<and> one_line l" using assms(1) st by (auto simp: response_lines_def newline_def)
  have raw: "serialize r = concat (map (\<lambda>l. l @ crlf) ?ls) @ crlf @ bytes_string (resp_body r)"
    by (simp add: serialize_def response_lines_def)
  let ?k = "length (concat (map (\<lambda>l. l @ crlf) ?ls))"
  have k: "2 \<le> ?k" by (simp add: response_lines_def crlf_def)
  obtain l0 ls' where l0: "?ls = l0 # ls'" "hd ?ls = l0" by (simp add: response_lines_def)
  then have "serialize r = l0 @ crlf @ concat (map (\<lambda>l. l @ crlf) ls') @ crlf @ bytes_string (resp_body r)" by (simp add: raw)
  moreover have "CHR 0x0D \<notin> set l0" using ls(2) l0(1) by (simp add: one_line_def)
  ultimately have first: "find_str crlf (serialize r) = Some (length (hd ?ls))" and line: "take (length (hd ?ls)) (serialize r) = hd ?ls"
    unfolding l0(2) by (simp_all add: find_crlf)
  have "extract_int (snd (extract_word (hd ?ls))) 200 = status r"
    using extract_status [OF assms(2,3), of "reason (status r)"] by (simp add: response_lines_def)
  moreover have "drop (?k - 2 + 4) (serialize r) = bytes_string (resp_body r)"
    using k by (simp add: raw) (simp add: crlf_def)
  ultimately show ?thesis
    using find_header_end_lines [OF ls, of "bytes_string (resp_body r)", folded raw]
    by (simp add: parse_response_def first line)
qed

section \<open>Properties\<close>

definition sample_request :: HttpRequest where
  "sample_request = \<lparr>req_method = ''PUT'', path = ''/v1/objects/b/k'', headers = [(''Authorization'', ''Bearer t'')], body = [1, 13, 10, 13, 10]\<rparr>"

lemma sample_request_ok: "request_ok ''node1'' sample_request"
  by (auto simp: request_ok_def sample_request_def plain_word_def isspace_def header_ok_def newline_def
      head_text_def request_line_def sent_headers_def header_text_def crlf_def to_string.simps)

text \<open>However the network cuts up the bytes of a request, the server reads back the method, the
  path and the body the client sent, and every header under its name in lower case, with the
  body's length as \<^verbatim>\<open>content-length\<close>.\<close>

theorem http_request_roundtrip:
  assumes "request_ok host req" "pieces_of (request_text host req) input"
  shows "\<exists>hs. parse_request input = Ret (Value (req\<lparr>headers := hs\<rparr>)) \<and>
    map_of hs ''content-length'' = Some (to_string (length (body req))) \<and>
    (\<forall>k. k \<notin> {''content-length'', ''connection''} \<longrightarrow>
       map_of hs k = map_of (rev (map (\<lambda>(k, v). (map tolower k, v)) ((''Host'', host) # headers req))) k)"
proof -
  have fold: "map_of (fold add_header hs []) k = map_of (rev (map (\<lambda>(k, v). (map tolower k, v)) hs)) k" for hs k
    by (induction hs rule: rev_induct) (auto simp: add_header_def update_conv')
  have all: "fold add_header (sent_headers host req) [] =
    AList.update ''connection'' ''close'' (AList.update ''content-length'' (to_string (length (body req)))
      (fold add_header ((''Host'', host) # headers req) []))"
    by (simp add: sent_headers_def add_header_names)
  show ?thesis
    using parse_request_text [OF assms] fold [of "(''Host'', host) # headers req"]
    by (intro exI [of _ "fold add_header (sent_headers host req) []"]) (simp add: all update_conv' del: fold_simps rev.simps list.map)
qed

theorem http_request_roundtrip_witness:
  "\<exists>hs. parse_request [take 10 (request_text ''node1'' sample_request), drop 10 (request_text ''node1'' sample_request)] =
     Ret (Value (sample_request\<lparr>headers := hs\<rparr>))"
proof -
  have "pieces_of (request_text ''node1'' sample_request)
      [take 10 (request_text ''node1'' sample_request), drop 10 (request_text ''node1'' sample_request)]"
    by (simp add: pieces_of_def) (simp add: request_text_def sample_request_def crlf_def to_string.simps)
  from http_request_roundtrip [OF sample_request_ok this] show ?thesis by blast
qed

text \<open>C18: A client call against a server that is reached over any such network returns exactly the
  status and the body that the handler chosen for the request produced.\<close>

theorem http_exchange:
  assumes "request_ok host req" "pieces_of (request_text host req) input"
    "serve routes input s = Some (Ret raw, s')" "net host port (request_text host req) s = (Reply raw, s')"
    "\<And>req s r s'. dispatch routes req s = Some (Ret r, s') \<Longrightarrow> one_line (content_type r) \<and> 0 \<le> status r \<and> status r < 2 ^ 31"
  shows "\<exists>r. dispatch routes (req\<lparr>headers := fold add_header (sent_headers host req) []\<rparr>) s = Some (Ret r, s') \<and>
    http_request net host port req s = (Value (r\<lparr>content_type := ''application/json''\<rparr>), s')"
proof -
  let ?req = "req\<lparr>headers := fold add_header (sent_headers host req) []\<rparr>"
  obtain o' s1 where d: "dispatch routes ?req s = Some (o', s1)"
    using assms(3) by (auto simp: serve_def parse_request_text [OF assms(1,2)])
  from assms(3) have "obind o' (\<lambda>resp. Ret (serialize resp)) = Ret raw" and s1: "s1 = s'"
    by (simp_all add: serve_def parse_request_text [OF assms(1,2)] d)
  then obtain r where r: "o' = Ret r" "raw = serialize r" by auto
  have ok: "one_line (content_type r)" "0 \<le> status r" "status r < 2 ^ 31" using assms(5) [OF d [unfolded r(1)]] by auto
  have "http_request net host port req s = (Value (r\<lparr>content_type := ''application/json''\<rparr>), s')"
    by (simp add: http_request_def assms(4) r(2) parse_response_serialize [OF ok])
  with d r s1 show ?thesis by blast
qed

theorem http_exchange_witness:
  "http_request (\<lambda>host port msg s. case serve [] [msg] s of Some (Ret raw, s') \<Rightarrow> (Reply raw, s') | _ \<Rightarrow> (No_connection, s)) ''node1'' 80 sample_request () =
     (Value \<lparr>status = 404, content_type = ''application/json'', resp_body = string_bytes (''{}'' @ [newline])\<rparr>, ())"
proof -
  let ?t = "request_text ''node1'' sample_request"
  have p: "pieces_of ?t [?t]"
    by (simp add: pieces_of_def) (simp add: request_text_def sample_request_def crlf_def to_string.simps)
  obtain raw where s: "serve [] [?t] () = Some (Ret raw, ())"
    by (simp add: serve_def parse_request_text [OF sample_request_ok p])
  show ?thesis using http_exchange [OF sample_request_ok p s, of "\<lambda>host port msg s. case serve [] [msg] s of Some (Ret raw, s') \<Rightarrow> (Reply raw, s') | _ \<Rightarrow> (No_connection, s)" 80]
    by (auto simp: s newline_def)
qed

text \<open>A request whose content length is not a number is never answered, on whatever route: the
  conversion throws inside the connection's task, before a response is sent.\<close>

theorem malformed_length_unanswered:
  "serve routes [''PUT /v1/objects/b/k HTTP/1.1'' @ crlf @ ''Content-Length: x'' @ header_end] s = Some (Throw invalid_argument, s)"
proof -
  let ?t = "''PUT /v1/objects/b/k HTTP/1.1'' @ crlf @ ''Content-Length: x'' @ header_end"
  have f: "find_str header_end ?t = Some 47" by code_simp
  have "length ?t = 51" by (simp add: crlf_def header_end_def)
  with f have r: "read_headers [] [?t] = Value (?t, [])"
    by (subst read_headers.simps, subst read_headers.simps) (simp add: header_end_def crlf_def)
  have h: "map_of (headers (parse_head (take 47 ?t))) ''content-length'' = Some ''x''" by code_simp
  have "stoull ''x'' = Throw invalid_argument" by (simp add: stoull_def scan_integer_def isspace_def isdigit_def)
  then show ?thesis unfolding serve_def parse_request_def r result.case prod.case f option.case Let_def h by simp
qed

end
