(* ===== verification/Sha256.thy ===== *)
theory Sha256
  imports Status_Result
begin

text \<open>
  \<^verbatim>\<open>src/common/sha256.cpp\<close>: the incremental SHA-256 object (state words, bit length,
  pending buffer), its \<^verbatim>\<open>update\<close>, \<^verbatim>\<open>digest\<close> and \<^verbatim>\<open>hex\<close>, on machine words. The
  second half states the algorithm of FIPS 180-4 on whole messages, independently of the
  object, and the lemmas that tie the two together.
\<close>

section \<open>The implementation\<close>

text \<open>The table \<^verbatim>\<open>k\<close> of the source, in its eight rows.\<close>

definition sha_k :: "u32 list" where
  "sha_k = concat [
    [0x428a2f98,0x71374491,0xb5c0fbcf,0xe9b5dba5,0x3956c25b,0x59f111f1,0x923f82a4,0xab1c5ed5],
    [0xd807aa98,0x12835b01,0x243185be,0x550c7dc3,0x72be5d74,0x80deb1fe,0x9bdc06a7,0xc19bf174],
    [0xe49b69c1,0xefbe4786,0x0fc19dc6,0x240ca1cc,0x2de92c6f,0x4a7484aa,0x5cb0a9dc,0x76f988da],
    [0x983e5152,0xa831c66d,0xb00327c8,0xbf597fc7,0xc6e00bf3,0xd5a79147,0x06ca6351,0x14292967],
    [0x27b70a85,0x2e1b2138,0x4d2c6dfc,0x53380d13,0x650a7354,0x766a0abb,0x81c2c92e,0x92722c85],
    [0xa2bfe8a1,0xa81a664b,0xc24b8b70,0xc76c51a3,0xd192e819,0xd6990624,0xf40e3585,0x106aa070],
    [0x19a4c116,0x1e376c08,0x2748774c,0x34b0bcb5,0x391c0cb3,0x4ed8aa4a,0x5b9cca4f,0x682e6ff3],
    [0x748f82ee,0x78a5636f,0x84c87814,0x8cc70208,0x90befffa,0xa4506ceb,0xbef9a3f7,0xc67178f2]]"

definition rotr :: "u32 \<Rightarrow> nat \<Rightarrow> u32" where
  "rotr x n = drop_bit n x OR push_bit (32 - n) x"

record sha256 =
  sha_state :: "u32 list"
  bit_len :: u64
  buffer :: bytes

definition Sha256_init :: sha256 where
  "Sha256_init = \<lparr>sha_state = [0x6a09e667,0xbb67ae85,0x3c6ef372,0xa54ff53a,0x510e527f,0x9b05688c,0x1f83d9ab,0x5be0cd19],
     bit_len = 0, buffer = []\<rparr>"

text \<open>
  \<^verbatim>\<open>transform\<close>: the sixteen big-endian words of the chunk, the schedule loop
  \<open>16 \<le> i < 64\<close> (the list holds the initialised prefix of \<^verbatim>\<open>w\<close>), the sixty-four rounds
  over the variables \<open>a \<dots> h\<close>, and the additions into the state.
\<close>

definition load_word :: "bytes \<Rightarrow> nat \<Rightarrow> u32" where
  "load_word chunk i =
     push_bit 24 (ucast (chunk ! (i * 4))) OR push_bit 16 (ucast (chunk ! (i * 4 + 1))) OR
     push_bit 8 (ucast (chunk ! (i * 4 + 2))) OR ucast (chunk ! (i * 4 + 3))"

definition schedule_step :: "u32 list \<Rightarrow> nat \<Rightarrow> u32 list" where
  "schedule_step w i =
     (let s0 = rotr (w ! (i - 15)) 7 XOR rotr (w ! (i - 15)) 18 XOR drop_bit 3 (w ! (i - 15));
          s1 = rotr (w ! (i - 2)) 17 XOR rotr (w ! (i - 2)) 19 XOR drop_bit 10 (w ! (i - 2))
      in w @ [w ! (i - 16) + s0 + w ! (i - 7) + s1])"

definition schedule :: "bytes \<Rightarrow> u32 list" where
  "schedule chunk = foldl schedule_step (map (load_word chunk) [0..<16]) [16..<64]"

type_synonym regs = "u32 \<times> u32 \<times> u32 \<times> u32 \<times> u32 \<times> u32 \<times> u32 \<times> u32"

fun round_step :: "u32 list \<Rightarrow> regs \<Rightarrow> nat \<Rightarrow> regs" where
  "round_step w (a, b, c, d, e, f, g, h) i =
     (let s1 = rotr e 6 XOR rotr e 11 XOR rotr e 25;
          ch = (e AND f) XOR (NOT e AND g);
          temp1 = h + s1 + ch + sha_k ! i + w ! i;
          s0 = rotr a 2 XOR rotr a 13 XOR rotr a 22;
          maj = (a AND b) XOR (a AND c) XOR (b AND c);
          temp2 = s0 + maj
      in (temp1 + temp2, a, b, c, d + temp1, e, f, g))"

fun add_regs :: "u32 list \<Rightarrow> regs \<Rightarrow> u32 list" where
  "add_regs st (a, b, c, d, e, f, g, h) =
     [st ! 0 + a, st ! 1 + b, st ! 2 + c, st ! 3 + d, st ! 4 + e, st ! 5 + f, st ! 6 + g, st ! 7 + h]"

definition transform_words :: "u32 list \<Rightarrow> bytes \<Rightarrow> u32 list" where
  "transform_words st chunk =
     (let w = schedule chunk
      in add_regs st (foldl (round_step w)
           (st ! 0, st ! 1, st ! 2, st ! 3, st ! 4, st ! 5, st ! 6, st ! 7) [0..<64]))"

definition transform :: "sha256 \<Rightarrow> bytes \<Rightarrow> sha256" where
  "transform s chunk = s\<lparr>sha_state := transform_words (sha_state s) chunk\<rparr>"

text \<open>The loop \<^verbatim>\<open>while (buffer_.size() >= 64)\<close> of \<^verbatim>\<open>update\<close>.\<close>

function drain :: "sha256 \<Rightarrow> sha256" where
  "drain s = (if 64 \<le> length (buffer s)
     then drain ((transform s (take 64 (buffer s)))\<lparr>buffer := drop 64 (buffer s)\<rparr>) else s)"
  by pat_completeness auto
termination
  by (relation "measure (\<lambda>s. length (buffer s))") auto

definition update :: "sha256 \<Rightarrow> bytes \<Rightarrow> sha256" where
  "update s bytes = drain (s\<lparr>bit_len := bit_len s + of_nat (length bytes) * 8, buffer := buffer s @ bytes\<rparr>)"

text \<open>The loop \<^verbatim>\<open>while (buffer_.size() % 64 != 56) buffer_.push_back(0)\<close>.\<close>

function pad_zeros :: "bytes \<Rightarrow> bytes" where
  "pad_zeros b = (if length b mod 64 \<noteq> 56 then pad_zeros (b @ [0]) else b)"
  by pat_completeness auto
termination
proof (relation "measure (\<lambda>b. if length b mod 64 \<le> 56 then 56 - length b mod 64 else 120 - length b mod 64)")
  fix b :: bytes
  define r where "r = length b mod 64"
  assume "length b mod 64 \<noteq> 56"
  moreover have "Suc (length b) mod 64 = (if r = 63 then 0 else Suc r)"
    by (auto simp: r_def mod_Suc)
  moreover have "r < 64" by (simp add: r_def)
  ultimately show "(b @ [0], b) \<in> measure (\<lambda>b. if length b mod 64 \<le> 56 then 56 - length b mod 64 else 120 - length b mod 64)"
    by (auto simp flip: r_def)
qed simp

definition length_bytes :: "u64 \<Rightarrow> bytes" where
  "length_bytes total_bits = map (\<lambda>i. ucast (drop_bit (i * 8) total_bits AND 0xff)) [7, 6, 5, 4, 3, 2, 1, 0]"

text \<open>
  The loop \<^verbatim>\<open>while (!buffer_.empty())\<close> of \<^verbatim>\<open>digest\<close>. \<^verbatim>\<open>transform\<close> reads 64 bytes and
  \<^verbatim>\<open>erase\<close> removes 64; with fewer the code reads and erases past the end.
\<close>

function drain_all :: "sha256 \<Rightarrow> sha256 outcome" where
  "drain_all s = (if buffer s = [] then Ret s
     else if length (buffer s) < 64 then Undefined
     else drain_all ((transform s (take 64 (buffer s)))\<lparr>buffer := drop 64 (buffer s)\<rparr>))"
  by pat_completeness auto
termination
  by (relation "measure (\<lambda>s. length (buffer s))") auto

declare drain.simps [simp del] pad_zeros.simps [simp del] drain_all.simps [simp del]

definition word_bytes :: "u32 \<Rightarrow> bytes" where
  "word_bytes x = [ucast (drop_bit 24 x), ucast (drop_bit 16 x), ucast (drop_bit 8 x), ucast x]"

definition digest :: "sha256 \<Rightarrow> (bytes \<times> sha256) outcome" where
  "digest s =
     (let total_bits = bit_len s;
          b1 = pad_zeros (buffer s @ [0x80]);
          b2 = b1 @ length_bytes total_bits
      in obind (drain_all (s\<lparr>buffer := b2\<rparr>)) (\<lambda>s'.
           Ret (concat (map (\<lambda>i. word_bytes (sha_state s' ! i)) [0..<8]), s')))"

definition hex_digit :: "nat \<Rightarrow> char" where
  "hex_digit d = (if d < 10 then char_of (48 + d) else char_of (87 + d))"

definition hex_byte :: "u8 \<Rightarrow> string" where
  "hex_byte b = [hex_digit (unat b div 16), hex_digit (unat b mod 16)]"

definition hex_outcome :: "bytes \<Rightarrow> string outcome" where
  "hex_outcome bytes = obind (digest (update Sha256_init bytes)) (\<lambda>(d, _). Ret (concat (map hex_byte d)))"

text \<open>\<open>Sha256_hex\<close> is the value of \<^verbatim>\<open>Sha256::hex\<close>; \<open>hex_outcome_total\<close> below shows that the
  call always returns, so the last case never applies.\<close>

definition Sha256_hex :: "bytes \<Rightarrow> string" where
  "Sha256_hex bytes = (case hex_outcome bytes of Ret s \<Rightarrow> s | _ \<Rightarrow> [])"

definition Sha256_hex_string :: "string \<Rightarrow> string" where
  "Sha256_hex_string s = Sha256_hex (string_bytes s)"

section \<open>FIPS 180-4\<close>

text \<open>
  The standard's functions on words, its message schedule as a recursion on the index, its
  padding rule and its compression of one block, written without the object's buffer.
  \<^verbatim>\<open>ROTR\<close> is the library's rotation \<^const>\<open>word_rotr\<close>.
\<close>

definition fips_Ch :: "u32 \<Rightarrow> u32 \<Rightarrow> u32 \<Rightarrow> u32" where
  "fips_Ch x y z = (x AND y) XOR (NOT x AND z)"

definition fips_Maj :: "u32 \<Rightarrow> u32 \<Rightarrow> u32 \<Rightarrow> u32" where
  "fips_Maj x y z = (x AND y) XOR (x AND z) XOR (y AND z)"

definition fips_Sigma0 :: "u32 \<Rightarrow> u32" where
  "fips_Sigma0 x = word_rotr 2 x XOR word_rotr 13 x XOR word_rotr 22 x"

definition fips_Sigma1 :: "u32 \<Rightarrow> u32" where
  "fips_Sigma1 x = word_rotr 6 x XOR word_rotr 11 x XOR word_rotr 25 x"

definition fips_sigma0 :: "u32 \<Rightarrow> u32" where
  "fips_sigma0 x = word_rotr 7 x XOR word_rotr 18 x XOR drop_bit 3 x"

definition fips_sigma1 :: "u32 \<Rightarrow> u32" where
  "fips_sigma1 x = word_rotr 17 x XOR word_rotr 19 x XOR drop_bit 10 x"

definition big_endian :: "bytes \<Rightarrow> nat" where
  "big_endian bs = foldl (\<lambda>v b. v * 256 + unat b) 0 bs"

fun fips_W :: "bytes \<Rightarrow> nat \<Rightarrow> u32" where
  "fips_W m t = (if t < 16 then of_nat (big_endian (take 4 (drop (4 * t) m)))
     else fips_sigma1 (fips_W m (t - 2)) + fips_W m (t - 7) + fips_sigma0 (fips_W m (t - 15)) + fips_W m (t - 16))"

declare fips_W.simps [simp del]

fun fips_round :: "u32 \<Rightarrow> u32 \<Rightarrow> regs \<Rightarrow> regs" where
  "fips_round kt wt (a, b, c, d, e, f, g, h) =
     (let t1 = h + fips_Sigma1 e + fips_Ch e f g + kt + wt;
          t2 = fips_Sigma0 a + fips_Maj a b c
      in (t1 + t2, a, b, c, d + t1, e, f, g))"

fun fips_rounds :: "bytes \<Rightarrow> nat \<Rightarrow> regs \<Rightarrow> regs" where
  "fips_rounds m 0 r = r"
| "fips_rounds m (Suc t) r = fips_round (sha_k ! t) (fips_W m t) (fips_rounds m t r)"

definition fips_compress :: "u32 list \<Rightarrow> bytes \<Rightarrow> u32 list" where
  "fips_compress H m = add_regs H (fips_rounds m 64 (H ! 0, H ! 1, H ! 2, H ! 3, H ! 4, H ! 5, H ! 6, H ! 7))"

text \<open>
  Padding: a one bit, the least number of zero bits, and the message length in bits as a
  64-bit big-endian number; the padded length is a multiple of 512 bits.
\<close>

definition fips_pad :: "bytes \<Rightarrow> bytes" where
  "fips_pad m = m @ [0x80] @ replicate ((119 - length m mod 64) mod 64) 0 @
     map (\<lambda>i. of_nat (8 * length m div 256 ^ i)) [7, 6, 5, 4, 3, 2, 1, 0]"

function blocks :: "bytes \<Rightarrow> bytes list" where
  "blocks b = (if length b < 64 then [] else take 64 b # blocks (drop 64 b))"
  by pat_completeness auto
termination
  by (relation "measure length") auto

declare blocks.simps [simp del]

definition fips_sha256 :: "bytes \<Rightarrow> bytes" where
  "fips_sha256 m = concat (map word_bytes (foldl fips_compress (sha_state Sha256_init) (blocks (fips_pad m))))"

section \<open>The rounds agree with the standard\<close>

lemma rotr_word_rotr: assumes "n < 32" shows "rotr x n = word_rotr n x"
proof (rule bit_word_eqI)
  fix m assume "m < LENGTH(32)"
  then have m: "m < 32" by simp
  show "bit (rotr x n) m = bit (word_rotr n x) m"
  proof (cases "m + n < 32")
    case True
    then have "\<not> 32 - n \<le> m" by simp
    with True m assms show ?thesis by (simp add: rotr_def bit_simps add.commute)
  next
    case False
    then have "(m + n) mod 32 = m + n - 32" "m - (32 - n) = m + n - 32" "32 - n \<le> m"
      using m assms by (auto simp: mod_if)
    moreover have "\<not> bit x (n + m)"
      using False bit_imp_le_length [of x "n + m"] by auto
    ultimately show ?thesis using m by (auto simp: rotr_def bit_simps)
  qed
qed

lemma take4_drop: "i + 4 \<le> length m \<Longrightarrow> take 4 (drop i m) = [m ! i, m ! (i + 1), m ! (i + 2), m ! (i + 3)]"
  by (auto intro!: nth_equalityI simp: less_Suc_eq numeral_eq_Suc)

lemma load_word_fips:
  assumes "length m = 64" "t < 16"
  shows "load_word m t = fips_W m t"
proof -
  have "fips_W m t = of_nat (big_endian [m ! (t * 4), m ! (t * 4 + 1), m ! (t * 4 + 2), m ! (t * 4 + 3)])"
    using assms take4_drop [of "4 * t" m] by (simp add: fips_W.simps [of m t] mult.commute)
  then show ?thesis
    by (simp only: load_word_def be32_value) (simp add: big_endian_def algebra_simps)
qed

lemma schedule_prefix:
  assumes "length m = 64" "16 \<le> n"
  shows "foldl schedule_step (map (load_word m) [0..<16]) [16..<n] = map (fips_W m) [0..<n]"
  using assms(2)
proof (induction n rule: dec_induct)
  case base
  then show ?case using load_word_fips [OF assms(1)] by simp
next
  case (step n)
  have "fips_W m n = fips_W m (n - 16) + fips_sigma0 (fips_W m (n - 15)) + fips_W m (n - 7) + fips_sigma1 (fips_W m (n - 2))"
    using step.hyps by (simp add: fips_W.simps [of m n] algebra_simps)
  with step show ?case
    by (simp add: schedule_step_def Let_def rotr_word_rotr fips_sigma0_def fips_sigma1_def)
qed

lemma schedule_fips: "length m = 64 \<Longrightarrow> schedule m = map (fips_W m) [0..<64]"
  unfolding schedule_def by (rule schedule_prefix) simp_all

lemma round_step_fips: "t < 64 \<Longrightarrow> round_step (map W [0..<64]) r t = fips_round (sha_k ! t) (W t) r"
  by (cases "(map W [0..<64], r, t)" rule: round_step.cases)
    (simp add: Let_def rotr_word_rotr fips_Sigma0_def fips_Sigma1_def fips_Ch_def fips_Maj_def)

lemma rounds_fips: "n \<le> 64 \<Longrightarrow> foldl (round_step (map (fips_W m) [0..<64])) r [0..<n] = fips_rounds m n r"
  by (induction n) (simp_all add: round_step_fips)

lemma transform_words_fips: "length m = 64 \<Longrightarrow> transform_words st m = fips_compress st m"
  by (simp add: transform_words_def fips_compress_def schedule_fips rounds_fips Let_def)

lemma length_transform_words [simp]: "length (transform_words st m) = 8"
proof -
  have "length (add_regs st r) = 8" for r
    by (cases "(st, r)" rule: add_regs.cases) simp
  then show ?thesis by (simp add: transform_words_def Let_def)
qed

lemma blocks_length: "b \<in> set (blocks m) \<Longrightarrow> length b = 64"
proof (induction m rule: blocks.induct)
  case (1 m)
  then show ?case by (cases "length m < 64") (auto simp: blocks.simps [of m])
qed

lemma foldl_transform_fips: "(\<And>b. b \<in> set bs \<Longrightarrow> length b = 64) \<Longrightarrow> foldl transform_words st bs = foldl fips_compress st bs"
  by (induction bs arbitrary: st) (simp_all add: transform_words_fips)

section \<open>The buffer\<close>

lemma drain_eq:
  "drain s = s\<lparr>sha_state := foldl transform_words (sha_state s) (blocks (buffer s)),
               buffer := drop (64 * (length (buffer s) div 64)) (buffer s)\<rparr>"
proof (induction s rule: drain.induct)
  case (1 s)
  show ?case
  proof (cases "64 \<le> length (buffer s)")
    case True
    then have "64 * (length (buffer s) div 64) = 64 + 64 * ((length (buffer s) - 64) div 64)"
      by (simp add: le_div_geq)
    with True 1 show ?thesis
      by (subst drain.simps) (simp add: transform_def blocks.simps [of "buffer s"] add.commute)
  next
    case False
    then show ?thesis by (subst drain.simps) (simp add: blocks.simps [of "buffer s"])
  qed
qed


lemma drain_all_eq:
  "64 dvd length (buffer s) \<Longrightarrow>
   drain_all s = Ret (s\<lparr>sha_state := foldl transform_words (sha_state s) (blocks (buffer s)), buffer := []\<rparr>)"
proof (induction s rule: drain_all.induct)
  case (1 s)
  show ?case
  proof (cases "buffer s = []")
    case True
    then show ?thesis by (subst drain_all.simps) (simp add: blocks.simps)
  next
    case False
    with "1.prems" have "64 \<le> length (buffer s)" by (simp add: dvd_imp_le)
    with False 1 show ?thesis
      by (subst drain_all.simps) (simp add: transform_def blocks.simps [of "buffer s"] dvd_diff_nat)
  qed
qed

lemma pad_zeros_eq: "pad_zeros b = b @ replicate ((120 - length b mod 64) mod 64) 0"
proof (induction b rule: pad_zeros.induct)
  case (1 b)
  define r where "r = length b mod 64"
  have r: "r < 64" by (simp add: r_def)
  have s: "Suc (length b) mod 64 = (if r = 63 then 0 else Suc r)"
    by (auto simp: r_def mod_Suc)
  show ?case
  proof (cases "r = 56")
    case True
    then show ?thesis by (subst pad_zeros.simps) (simp add: r_def)
  next
    case False
    have "(120 - r) mod 64 = Suc ((120 - (if r = 63 then 0 else Suc r)) mod 64)"
      using r False by (cases "r < 56") (auto simp: mod_if)
    with False 1 s show ?thesis
      by (subst pad_zeros.simps) (simp add: r_def [symmetric])
  qed
qed

lemma blocks_append: "64 dvd length a \<Longrightarrow> blocks (a @ b) = blocks a @ blocks b"
proof (induction a rule: blocks.induct)
  case (1 a)
  show ?case
  proof (cases "length a < 64")
    case True
    with "1.prems" have "a = []" by (auto dest: dvd_imp_le)
    then show ?thesis by (simp add: blocks.simps [of "[]"])
  next
    case False
    with 1 show ?thesis
      by (simp add: blocks.simps [of a] blocks.simps [of "a @ b"] dvd_diff_nat)
  qed
qed

lemma length_bytes_fips:
  "length_bytes (of_nat n) = map (\<lambda>i. of_nat (n div 256 ^ i)) [7, 6, 5, 4, 3, 2, 1, 0]"
proof -
  have ff: "(0xff :: u64) = mask 8" by (simp add: mask_eq_exp_minus_1)
  have "ucast (drop_bit (i * 8) (of_nat n :: u64) AND 0xff) = (of_nat (n div 256 ^ i) :: u8)" if "i < 8" for i
  proof -
    have "(256::nat) ^ i = 2 ^ (i * 8)" using power_mult [of "2::nat" 8 i] by (simp add: mult.commute)
    then have d: "n div 256 ^ i = drop_bit (i * 8) n" by (simp add: drop_bit_eq_div)
    show ?thesis
      unfolding d ff using that
      by (intro bit_word_eqI) (auto simp: bit_simps  bit_of_nat_iff)
  qed
  moreover have "i < 8" if "i \<in> set [7, 6, 5, 4, 3, 2, 1, 0 :: nat]" for i using that by auto
  ultimately show ?thesis unfolding length_bytes_def by (intro map_cong refl) blast
qed

lemma blocks_short: "length b < 64 \<Longrightarrow> blocks b = []"
  by (simp add: blocks.simps [of b])

text \<open>\<open>pending b\<close> is what stays in the buffer once the full blocks are gone.\<close>

definition pending :: "bytes \<Rightarrow> bytes" where
  "pending b = drop (64 * (length b div 64)) b"

lemma length_pending: "length (pending b) = length b mod 64"
  by (simp add: pending_def minus_mult_div_eq_mod)

lemma pending_append: "64 dvd length a \<Longrightarrow> pending (a @ b) = pending b"
  by (elim dvdE) (simp add: pending_def)

lemma split_pending:
  obtains p where "b = p @ pending b" "64 dvd length p" "blocks b = blocks p"
proof -
  let ?n = "64 * (length b div 64)"
  have b: "b = take ?n b @ pending b" by (simp add: pending_def)
  have "length (take ?n b) = ?n" by (simp only: length_take min.absorb2 [OF times_div_less_eq_dividend])
  then have d: "64 dvd length (take ?n b)" by simp
  have "blocks b = blocks (take ?n b) @ blocks (pending b)"
    using b blocks_append [OF d] by metis
  then have "blocks b = blocks (take ?n b)" by (simp add: blocks_short length_pending)
  with b d that show thesis by blast
qed

lemma update_eq:
  "update s m = s\<lparr>bit_len := bit_len s + of_nat (length m) * 8,
     sha_state := foldl transform_words (sha_state s) (blocks (buffer s @ m)), buffer := pending (buffer s @ m)\<rparr>"
  by (simp add: update_def drain_eq pending_def)

text \<open>Feeding a message in two pieces leaves the object in the same state as feeding it at once.\<close>

lemma update_append: "update (update s a) b = update s (a @ b)"
proof -
  obtain p where p: "buffer s @ a = p @ pending (buffer s @ a)" "64 dvd length p" "blocks (buffer s @ a) = blocks p"
    by (rule split_pending)
  have e: "buffer s @ a @ b = p @ (pending (buffer s @ a) @ b)" using p(1) by (metis append.assoc)
  show ?thesis
    unfolding update_eq by (simp add: e pending_append [OF p(2)] blocks_append [OF p(2)] p(3) algebra_simps)
qed

section \<open>The digest\<close>

lemma pad_length: "64 dvd length (fips_pad m)"
proof -
  define r where "r = length m mod 64"
  have "length (fips_pad m) = length m + 9 + (119 - r) mod 64" by (simp add: fips_pad_def r_def)
  moreover have "(r + 9 + (119 - r) mod 64) mod 64 = 0"
  proof (cases "r \<le> 55")
    case True
    then have "(119 - r) mod 64 = 55 - r" by (simp add: mod_if)
    with True show ?thesis by simp
  next
    case False
    moreover have "r < 64" by (simp add: r_def)
    ultimately show ?thesis by simp
  qed
  ultimately show ?thesis
    by (metis (no_types, lifting) add.assoc mod_add_left_eq mod_eq_0_iff_dvd r_def)
qed

lemma length_foldl_transform: "length (foldl transform_words (sha_state Sha256_init) bs) = 8"
  by (cases bs rule: rev_cases) (simp_all add: Sha256_init_def)

lemma map_nth_8: "length xs = 8 \<Longrightarrow> map (\<lambda>i. f (xs ! i)) [0..<8] = map f xs"
  by (metis (no_types, lifting) map_nth map_map comp_def map_eq_conv)

lemma digest_fips:
  "digest (update Sha256_init m) =
     Ret (fips_sha256 m, (update Sha256_init m)\<lparr>
       sha_state := foldl transform_words (sha_state Sha256_init) (blocks (fips_pad m)), buffer := []\<rparr>)"
proof -
  let ?s = "update Sha256_init m"
  obtain p where p: "m = p @ pending m" "64 dvd length p" "blocks m = blocks p"
    by (rule split_pending)
  define tl where "tl = [0x80] @ replicate ((119 - length m mod 64) mod 64) 0 @ length_bytes (bit_len ?s)"
  have bl: "bit_len ?s = of_nat (8 * length m)" by (simp add: update_eq Sha256_init_def)
  have pad: "fips_pad m = p @ (pending m @ tl)"
    by (subst p(1)) (simp add: fips_pad_def tl_def bl length_bytes_fips p(1) [symmetric] del: of_nat_mult)
  have "pad_zeros (pending m @ [0x80]) @ length_bytes (bit_len ?s) = pending m @ tl"
    by (simp add: pad_zeros_eq tl_def length_pending mod_Suc)
  moreover have "64 dvd length (pending m @ tl)"
    using pad_length [of m] p(2) unfolding pad by (simp add: dvd_add_right_iff)
  moreover have "blocks (fips_pad m) = blocks m @ blocks (pending m @ tl)"
    using blocks_append [OF p(2)] p(3) by (simp add: pad)
  ultimately have "drain_all (?s\<lparr>buffer := pad_zeros (buffer ?s @ [0x80]) @ length_bytes (bit_len ?s)\<rparr>) =
      Ret (?s\<lparr>sha_state := foldl transform_words (sha_state Sha256_init) (blocks (fips_pad m)), buffer := []\<rparr>)"
    by (simp add: drain_all_eq update_eq Sha256_init_def)
  then show ?thesis
    by (simp add: digest_def Let_def fips_sha256_def map_nth_8 length_foldl_transform
        foldl_transform_fips [OF blocks_length, symmetric])
qed

text \<open>The call \<^verbatim>\<open>Sha256::hex\<close> always returns.\<close>

lemma hex_outcome_total: "hex_outcome m = Ret (Sha256_hex m)"
  by (simp add: Sha256_hex_def hex_outcome_def digest_fips)

lemma Sha256_hex_fips: "Sha256_hex m = concat (map hex_byte (fips_sha256 m))"
  by (simp add: Sha256_hex_def hex_outcome_def digest_fips)

lemma length_fips_sha256: "length (fips_sha256 m) = 32"
proof -
  have "length (concat (map word_bytes st)) = 4 * length st" for st
    by (induction st) (simp_all add: word_bytes_def)
  then show ?thesis
    by (simp add: fips_sha256_def length_foldl_transform foldl_transform_fips [OF blocks_length, symmetric])
qed

definition is_hex :: "char \<Rightarrow> bool" where
  "is_hex c \<longleftrightarrow> c \<in> set ''0123456789abcdef''"

lemma hex_digit_is_hex: assumes "d < 16" shows "is_hex (hex_digit d)"
proof -
  have "\<forall>d \<in> set [0..<16]. is_hex (hex_digit d)" by code_simp
  with assms show ?thesis by simp
qed

lemma hex_digit_inj: assumes "d < 16" "e < 16" "hex_digit d = hex_digit e" shows "d = e"
proof -
  have "\<forall>d \<in> set [0..<16]. \<forall>e \<in> set [0..<16]. hex_digit d = hex_digit e \<longrightarrow> d = e" by code_simp
  with assms show ?thesis by simp
qed

lemma length_Sha256_hex [simp]: "length (Sha256_hex m) = 64"
proof -
  have "length (concat (map hex_byte d)) = 2 * length d" for d
    by (induction d) (simp_all add: hex_byte_def)
  then show ?thesis by (simp add: Sha256_hex_fips length_fips_sha256)
qed

lemma Sha256_hex_is_hex: "c \<in> set (Sha256_hex m) \<Longrightarrow> is_hex c"
  by (auto simp: Sha256_hex_fips hex_byte_def less_mult_imp_div_less intro!: hex_digit_is_hex)

text \<open>Equal hex strings come from equal digests: printing loses nothing.\<close>

lemma hex_byte_inj: "hex_byte a = hex_byte b \<Longrightarrow> a = b"
proof -
  assume h: "hex_byte a = hex_byte b"
  have "unat a div 16 < 16" "unat b div 16 < 16" by (simp_all add: less_mult_imp_div_less)
  with h have "unat a div 16 = unat b div 16" "unat a mod 16 = unat b mod 16"
    by (auto simp: hex_byte_def intro: hex_digit_inj)
  then show "a = b" by (metis div_mult_mod_eq word_unat_eq_iff)
qed

lemma hex_string_inj: "concat (map hex_byte a) = concat (map hex_byte b) \<Longrightarrow> a = b"
proof (induction a arbitrary: b)
  case Nil
  then show ?case by (cases b) (simp_all add: hex_byte_def)
next
  case (Cons x a)
  then show ?case by (cases b) (auto simp: hex_byte_def intro: hex_byte_inj [unfolded hex_byte_def])
qed

lemma Sha256_hex_eq_iff: "Sha256_hex a = Sha256_hex b \<longleftrightarrow> fips_sha256 a = fips_sha256 b"
  by (auto simp: Sha256_hex_fips dest: hex_string_inj)

section \<open>The constants\<close>

text \<open>
  FIPS 180-4 defines the round constants as the first 32 bits of the fractional parts of
  the cube roots of the first sixty-four primes, and the initial hash value from the
  square roots of the first eight. \<open>frac_root_bits e p v\<close> says that \<open>v\<close> is that number
  for the \<open>e\<close>-th root of \<open>p\<close>: with the integer part \<open>i\<close> of the root, \<open>i * 2^32 + v\<close> is
  the integer part of the root scaled by \<open>2^32\<close>.
\<close>

definition frac_root_bits :: "nat \<Rightarrow> nat \<Rightarrow> nat \<Rightarrow> nat \<Rightarrow> bool" where
  "frac_root_bits e p i v \<longleftrightarrow> v < 2 ^ 32 \<and> i ^ e \<le> p \<and> p < (i + 1) ^ e \<and>
     (i * 2 ^ 32 + v) ^ e \<le> p * 2 ^ (32 * e) \<and> p * 2 ^ (32 * e) < (i * 2 ^ 32 + v + 1) ^ e"

definition first_primes :: "nat list" where
  "first_primes = [2,3,5,7,11,13,17,19,23,29,31,37,41,43,47,53,59,61,67,71,73,79,83,89,97,101,103,107,109,113,127,131,
     137,139,149,151,157,163,167,173,179,181,191,193,197,199,211,223,227,229,233,239,241,251,257,263,269,271,277,281,
     283,293,307,311]"

definition cbrt_floor :: "nat \<Rightarrow> nat" where
  "cbrt_floor p = (if p < 8 then 1 else if p < 27 then 2 else if p < 64 then 3 else if p < 125 then 4 else if p < 216 then 5 else 6)"

definition sqrt_floor :: "nat \<Rightarrow> nat" where
  "sqrt_floor p = (if p < 4 then 1 else if p < 9 then 2 else if p < 16 then 3 else 4)"


lemma sha_k_cube_roots: "list_all2 (\<lambda>p v. frac_root_bits 3 p (cbrt_floor p) (unat v)) first_primes sha_k"
  unfolding first_primes_def sha_k_def concat.simps append.simps list_all2_Cons list_all2_Nil
  by (intro conjI TrueI; simp add: frac_root_bits_def cbrt_floor_def flip: numeral_2_eq_2)

lemma sha_init_square_roots:
  "list_all2 (\<lambda>p v. frac_root_bits 2 p (sqrt_floor p) (unat v)) (take 8 first_primes) (sha_state Sha256_init)"
  unfolding first_primes_def Sha256_init_def
  by (simp add: frac_root_bits_def sqrt_floor_def flip: numeral_2_eq_2)

section \<open>Properties\<close>

lemma foldl_update: "foldl update (update s m) ps = update s (m @ concat ps)"
  by (induction ps arbitrary: m) (simp_all add: update_append)

lemma update_init_Nil: "update Sha256_init [] = Sha256_init"
  by (simp add: update_eq Sha256_init_def pending_def blocks_short)

lemma digest_pieces: "\<exists>s. digest (foldl update Sha256_init ps) = Ret (fips_sha256 (concat ps), s)"
  using foldl_update [of Sha256_init "[]" ps] digest_fips [of "concat ps"] unfolding update_init_Nil append_Nil by metis

text \<open>C13: Fed with a message in any pieces, the hasher ends without reading past its buffer and gives
  the digest that FIPS 180-4 defines for the whole message; \<^verbatim>\<open>hex\<close> prints it as 64 lower-case
  hexadecimal digits, different for different digests.\<close>

theorem sha256_conforms:
  "(\<exists>s. digest (foldl update Sha256_init ps) = Ret (fips_sha256 (concat ps), s)) \<and>
   hex_outcome m = Ret (Sha256_hex m) \<and> Sha256_hex m = concat (map hex_byte (fips_sha256 m)) \<and>
   length (Sha256_hex m) = 64 \<and> set (Sha256_hex m) \<subseteq> set ''0123456789abcdef'' \<and>
   (Sha256_hex m = Sha256_hex m' \<longleftrightarrow> fips_sha256 m = fips_sha256 m')"
proof (intro conjI)
  show "set (Sha256_hex m) \<subseteq> set ''0123456789abcdef''" using Sha256_hex_is_hex [of _ m] unfolding is_hex_def by blast
qed (fact digest_pieces hex_outcome_total Sha256_hex_fips length_Sha256_hex Sha256_hex_eq_iff)+

text \<open>The round constants are the first 32 bits of the fractional parts of the cube roots of the
  first 64 primes, the initial state those of the square roots of the first eight.\<close>

theorem sha256_constants:
  "list_all2 (\<lambda>p v. frac_root_bits 3 p (cbrt_floor p) (unat v)) first_primes sha_k \<and>
   list_all2 (\<lambda>p v. frac_root_bits 2 p (sqrt_floor p) (unat v)) (take 8 first_primes) (sha_state Sha256_init)"
  using sha_k_cube_roots sha_init_square_roots by blast

end
