(* ===== verification/Lru_Cache.thy ===== *)
theory Lru_Cache
  imports Prelude "HOL-Library.AList"
begin

text \<open>
  \<^verbatim>\<open>include/dstore/common/lru_cache.h\<close>. The cache is a doubly linked list of entries, most
  recent first, and an index from keys to list iterators. An iterator is modelled as the
  identity of its list node, a number drawn fresh at every insertion; following an iterator
  whose node is gone, or taking the back of an empty list, is \<open>Undefined\<close>.

  The interface \<open>cache\<close> states what a client may rely on in terms of the contents
  as a list of pairs; the lemmas proved in it hold for the model through the interpretation
  \<open>lru\<close> at the end.
\<close>

section \<open>The contract of a bounded cache with recency order\<close>

locale cache =
  fixes put :: "'c \<Rightarrow> 'k \<Rightarrow> 'v \<Rightarrow> 'c outcome"
    and get :: "'c \<Rightarrow> 'k \<Rightarrow> ('v option \<times> 'c) outcome"
    and contents :: "'c \<Rightarrow> ('k \<times> 'v) list"
    and room :: "'c \<Rightarrow> nat"
    and inv :: "'c \<Rightarrow> bool"
  assumes put_law: "inv c \<Longrightarrow> \<exists>c'. put c k v = Ret c' \<and> inv c' \<and> room c' = room c \<and>
      contents c' = take (room c) ((k, v) # filter (\<lambda>p. fst p \<noteq> k) (contents c))"
    and get_law: "inv c \<Longrightarrow> \<exists>c'. get c k = Ret (map_of (contents c) k, c') \<and> inv c' \<and> room c' = room c \<and>
      contents c' = (case map_of (contents c) k of None \<Rightarrow> contents c
         | Some v \<Rightarrow> (k, v) # filter (\<lambda>p. fst p \<noteq> k) (contents c))"
    and keys_distinct: "inv c \<Longrightarrow> distinct (map fst (contents c))"
    and size_bound: "inv c \<Longrightarrow> length (contents c) \<le> room c"
begin

lemma put_lookup:
  assumes "inv c" "put c k v = Ret c'" "0 < room c"
  shows "map_of (contents c') k = Some v"
  using put_law [OF assms(1), of k v] assms(2,3) by (cases "room c") auto

lemma put_all:
  assumes "inv c" "put c k v = Ret c'" "P k v" "\<And>k v. (k, v) \<in> set (contents c) \<Longrightarrow> P k v" "(k', v') \<in> set (contents c')"
  shows "P k' v'"
  using put_law [OF assms(1), of k v] assms(2-5) by (auto dest!: in_set_takeD)

lemma get_all:
  assumes "inv c" "get c k = Ret (r, c')" "\<And>k v. (k, v) \<in> set (contents c) \<Longrightarrow> P k v" "(k', v') \<in> set (contents c')"
  shows "P k' v'"
  using get_law [OF assms(1), of k] assms(2-4) by (auto split: option.splits dest: map_of_SomeD)

lemma get_hit:
  assumes "inv c" "get c k = Ret (Some v, c')" "\<And>k v. (k, v) \<in> set (contents c) \<Longrightarrow> P k v"
  shows "P k v"
  using get_law [OF assms(1), of k] assms(2,3) by (auto dest!: sym [of "Some _"] map_of_SomeD)

text \<open>A hit moves the entry to the front and changes no lookup.\<close>

lemma get_keeps_lookups:
  assumes "inv c" "get c k = Ret (r, c')"
  shows "map_of (contents c') x = map_of (contents c) x"
proof -
  have "map_of (filter (\<lambda>p. fst p \<noteq> k) xs) x = map_of xs x" if "x \<noteq> k" for xs :: "('k \<times> 'v) list"
    using that by (induction xs) auto
  then show ?thesis
    using get_law [OF assms(1), of k] assms(2) by (auto split: option.splits)
qed

text \<open>When a new key goes into a full cache, exactly the least recently used entry leaves.\<close>

lemma put_evicts_last:
  assumes "inv c" "put c k v = Ret c'" "k \<notin> fst ` set (contents c)" "length (contents c) = room c" "0 < room c"
  shows "contents c' = (k, v) # butlast (contents c)"
proof -
  have "filter (\<lambda>p. fst p \<noteq> k) (contents c) = contents c"
    using assms(3) by (auto simp: filter_id_conv image_iff)
  then show ?thesis
    using put_law [OF assms(1), of k v] assms(2,4,5)
    by (cases "room c") (auto simp: butlast_conv_take)
qed

end

section \<open>The implementation\<close>

record ('k, 'v) lru =
  capacity :: nat
  entries :: "(nat \<times> 'k \<times> 'v) list"
  index :: "('k \<times> nat) list"
  fresh :: nat

definition lru_new :: "nat \<Rightarrow> ('k, 'v) lru" where
  "lru_new cap = \<lparr>capacity = cap, entries = [], index = [], fresh = 0\<rparr>"

text \<open>\<^verbatim>\<open>entries_.erase(it)\<close>.\<close>

definition erase_node :: "nat \<Rightarrow> (nat \<times> 'a) list \<Rightarrow> (nat \<times> 'a) list outcome" where
  "erase_node it es = (if it \<in> fst ` set es then Ret (filter (\<lambda>e. fst e \<noteq> it) es) else Undefined)"

text \<open>The loop \<^verbatim>\<open>while (index_.size() > capacity_)\<close>.\<close>

function lru_evict :: "('k, 'v) lru \<Rightarrow> ('k, 'v) lru outcome" where
  "lru_evict c = (if capacity c < length (index c)
     then if entries c = [] then Undefined
       else lru_evict (c\<lparr>index := AList.delete (fst (snd (last (entries c)))) (index c), entries := butlast (entries c)\<rparr>)
     else Ret c)"
  by pat_completeness auto
termination
  by (relation "measure (\<lambda>c. length (entries c))") auto

declare lru_evict.simps [simp del]

definition lru_put :: "('k, 'v) lru \<Rightarrow> 'k \<Rightarrow> 'v \<Rightarrow> ('k, 'v) lru outcome" where
  "lru_put c k v =
     obind (case map_of (index c) k of
              Some it \<Rightarrow> obind (erase_node it (entries c)) (\<lambda>es. Ret (c\<lparr>entries := es, index := AList.delete k (index c)\<rparr>))
            | None \<Rightarrow> Ret c)
       (\<lambda>c1. lru_evict (c1\<lparr>entries := (fresh c1, k, v) # entries c1,
                         index := AList.update k (fresh c1) (index c1), fresh := Suc (fresh c1)\<rparr>))"

definition lru_get :: "('k, 'v) lru \<Rightarrow> 'k \<Rightarrow> ('v option \<times> ('k, 'v) lru) outcome" where
  "lru_get c k =
     (case map_of (index c) k of
        None \<Rightarrow> Ret (None, c)
      | Some it \<Rightarrow> (case map_of (entries c) it of
          None \<Rightarrow> Undefined
        | Some kv \<Rightarrow> Ret (Some (snd kv), c\<lparr>entries := (it, kv) # filter (\<lambda>e. fst e \<noteq> it) (entries c)\<rparr>)))"

definition lru_size :: "('k, 'v) lru \<Rightarrow> nat" where
  "lru_size c = length (index c)"

section \<open>Invariant and refinement\<close>

text \<open>
  The index and the list describe the same set of entries: node identities and keys are
  distinct, and the index maps each key to the node that holds it.
\<close>

definition key_nodes :: "(nat \<times> 'k \<times> 'v) list \<Rightarrow> ('k \<times> nat) list" where
  "key_nodes es = map (\<lambda>(h, k, v). (k, h)) es"

definition lru_linked :: "('k, 'v) lru \<Rightarrow> bool" where
  "lru_linked c \<longleftrightarrow> distinct (map fst (entries c)) \<and> distinct (map (\<lambda>e. fst (snd e)) (entries c)) \<and>
     (\<forall>e \<in> set (entries c). fst e < fresh c) \<and> distinct (map fst (index c)) \<and>
     set (index c) = set (key_nodes (entries c))"

definition lru_inv :: "('k, 'v) lru \<Rightarrow> bool" where
  "lru_inv c \<longleftrightarrow> lru_linked c \<and> length (entries c) \<le> capacity c"

definition lru_abs :: "('k, 'v) lru \<Rightarrow> ('k \<times> 'v) list" where
  "lru_abs c = map snd (entries c)"

lemma key_nodes_simps [simp]:
  "key_nodes [] = []" "key_nodes ((h, k, v) # es) = (k, h) # key_nodes es"
  "map fst (key_nodes es) = map (\<lambda>e. fst (snd e)) es"
  by (auto simp: key_nodes_def)

lemma lru_linked_sizes: "lru_linked c \<Longrightarrow> length (index c) = length (entries c)"
  by (metis (no_types, lifting) distinct_card distinct_map key_nodes_def key_nodes_simps(3) length_map lru_linked_def)

lemma lru_new_inv: "lru_inv (lru_new cap)"
  by (simp add: lru_inv_def lru_linked_def lru_new_def)

lemma set_AList_delete: "set (AList.delete k xs) = {p \<in> set xs. fst p \<noteq> k}"
  by (auto simp: AList.delete_eq)

lemma lru_linked_butlast:
  assumes "lru_linked c" "entries c \<noteq> []"
  shows "lru_linked (c\<lparr>index := AList.delete (fst (snd (last (entries c)))) (index c), entries := butlast (entries c)\<rparr>)"
proof -
  obtain es h k v where e: "entries c = es @ [(h, k, v)]"
    using assms(2) by (metis append_butlast_last_id surj_pair)
  have k: "k \<notin> (\<lambda>e. fst (snd e)) ` set es" using assms(1) by (simp add: lru_linked_def e)
  have "set (key_nodes es) = {p \<in> set (key_nodes (es @ [(h, k, v)])). fst p \<noteq> k}"
    using k by (force simp: key_nodes_def image_iff)
  then show ?thesis
    using assms(1) by (auto simp: lru_linked_def e set_AList_delete distinct_delete)
qed

lemma lru_evict_spec:
  assumes "lru_linked c"
  shows "\<exists>c'. lru_evict c = Ret c' \<and> lru_inv c' \<and> capacity c' = capacity c \<and>
    lru_abs c' = take (capacity c) (lru_abs c)"
  using assms
proof (induction c rule: lru_evict.induct)
  case (1 c)
  show ?case
  proof (cases "capacity c < length (index c)")
    case True
    then have ne: "entries c \<noteq> []" using lru_linked_sizes [OF "1.prems"] by auto
    let ?c = "c\<lparr>index := AList.delete (fst (snd (last (entries c)))) (index c), entries := butlast (entries c)\<rparr>"
    from "1.IH" [OF True ne lru_linked_butlast [OF "1.prems" ne]] obtain c' where
      c': "lru_evict ?c = Ret c'" "lru_inv c'" "capacity c' = capacity c" "lru_abs c' = take (capacity c) (lru_abs ?c)"
      by auto
    have "take (capacity c) (butlast (lru_abs c)) = take (capacity c) (lru_abs c)"
      using True lru_linked_sizes [OF "1.prems"] by (simp add: take_butlast lru_abs_def)
    then have "lru_abs c' = take (capacity c) (lru_abs c)"
      using c'(4) by (simp add: lru_abs_def map_butlast)
    with c' True ne show ?thesis by (subst lru_evict.simps) auto
  next
    case False
    then show ?thesis
      using "1.prems" lru_linked_sizes [OF "1.prems"] by (subst lru_evict.simps) (simp add: lru_inv_def lru_abs_def)
  qed
qed

lemma lru_lookup:
  assumes "lru_linked c"
  shows "map_of (index c) k = Some it \<longleftrightarrow> (\<exists>v. (it, k, v) \<in> set (entries c))"
proof -
  have "map_of (index c) k = Some it \<longleftrightarrow> (k, it) \<in> set (key_nodes (entries c))"
    using assms by (simp add: lru_linked_def)
  then show ?thesis by (force simp: key_nodes_def)
qed

lemma lru_lookup_None:
  assumes "lru_linked c"
  shows "map_of (index c) k = None \<longleftrightarrow> k \<notin> fst ` set (lru_abs c)"
proof -
  have "fst ` set (index c) = fst ` set (key_nodes (entries c))"
    using assms by (simp add: lru_linked_def)
  also have "\<dots> = fst ` set (lru_abs c)"
    by (simp add: key_nodes_def lru_abs_def image_image case_prod_beta)
  finally show ?thesis by (simp add: map_of_eq_None_iff)
qed

text \<open>Removing the node that holds \<open>k\<close> is removing the entry for \<open>k\<close>.\<close>

lemma filter_node_filter_key:
  assumes "lru_linked c" "(it, k, v) \<in> set (entries c)"
  shows "filter (\<lambda>e. fst e \<noteq> it) (entries c) = filter (\<lambda>e. fst (snd e) \<noteq> k) (entries c)"
proof (rule filter_cong [OF refl])
  fix e assume e: "e \<in> set (entries c)"
  have "inj_on fst (set (entries c))" "inj_on (\<lambda>e. fst (snd e)) (set (entries c))"
    using assms(1) by (auto simp: lru_linked_def distinct_map)
  from this [THEN inj_on_eq_iff, OF e assms(2)] show "(fst e \<noteq> it) = (fst (snd e) \<noteq> k)"
    by simp
qed

lemma lru_linked_remove:
  assumes "lru_linked c"
  shows "lru_linked (c\<lparr>entries := filter (\<lambda>e. fst (snd e) \<noteq> k) (entries c), index := AList.delete k (index c)\<rparr>)"
proof -
  have "key_nodes (filter (\<lambda>e. fst (snd e) \<noteq> k) es) = filter (\<lambda>p. fst p \<noteq> k) (key_nodes es)" for es :: "(nat \<times> 'a \<times> 'b) list"
    by (induction es) (auto simp: key_nodes_def)
  then show ?thesis
    using assms by (auto simp: lru_linked_def set_AList_delete distinct_delete distinct_map_filter)
qed

lemma lru_linked_push:
  assumes "lru_linked c" "k \<notin> fst ` set (lru_abs c)"
  shows "lru_linked (c\<lparr>entries := (fresh c, k, v) # entries c, index := AList.update k (fresh c) (index c), fresh := Suc (fresh c)\<rparr>)"
proof -
  have k: "k \<notin> fst ` set (index c)"
    using lru_lookup_None [OF assms(1), of k] assms(2) by (simp add: map_of_eq_None_iff)
  have "AList.update k h xs = xs @ [(k, h)]" if "k \<notin> fst ` set xs" for h and xs :: "('a \<times> nat) list"
    using that by (induction xs) auto
  with k have "set (AList.update k (fresh c) (index c)) = insert (k, fresh c) (set (index c))" by auto
  then show ?thesis
    using assms by (auto simp: lru_linked_def lru_abs_def distinct_update less_SucI image_iff dest: bspec)
qed

lemma filter_key_abs: "map snd (filter (\<lambda>e. fst (snd e) \<noteq> k) es) = filter (\<lambda>p. fst p \<noteq> k) (map snd es)"
  by (induction es) auto

lemma lru_put_spec:
  assumes "lru_inv c"
  shows "\<exists>c'. lru_put c k v = Ret c' \<and> lru_inv c' \<and> capacity c' = capacity c \<and>
    lru_abs c' = take (capacity c) ((k, v) # filter (\<lambda>p. fst p \<noteq> k) (lru_abs c))"
proof -
  have L: "lru_linked c" using assms by (simp add: lru_inv_def)
  define c1 where "c1 = (if map_of (index c) k = None then c
    else c\<lparr>entries := filter (\<lambda>e. fst (snd e) \<noteq> k) (entries c), index := AList.delete k (index c)\<rparr>)"
  have "lru_abs c1 = filter (\<lambda>p. fst p \<noteq> k) (lru_abs c)"
  proof (cases "map_of (index c) k")
    case None
    then have "k \<notin> fst ` set (lru_abs c)" using lru_lookup_None [OF L] by blast
    then have "filter (\<lambda>p. fst p \<noteq> k) (lru_abs c) = lru_abs c"
      by (auto simp: filter_id_conv image_iff)
    then show ?thesis by (simp add: c1_def None)
  qed (simp add: c1_def lru_abs_def filter_key_abs)
  moreover have "lru_linked c1" using L by (simp add: c1_def lru_linked_remove)
  moreover have "capacity c1 = capacity c" by (simp add: c1_def)
  moreover have "lru_put c k v = lru_evict (c1\<lparr>entries := (fresh c1, k, v) # entries c1,
      index := AList.update k (fresh c1) (index c1), fresh := Suc (fresh c1)\<rparr>)"
  proof (cases "map_of (index c) k")
    case (Some it)
    then obtain w where w: "(it, k, w) \<in> set (entries c)" using lru_lookup [OF L] by blast
    then have "erase_node it (entries c) = Ret (filter (\<lambda>e. fst (snd e) \<noteq> k) (entries c))"
      using filter_node_filter_key [OF L w] by (force simp: erase_node_def)
    then show ?thesis by (simp add: lru_put_def Some c1_def)
  qed (simp add: lru_put_def c1_def)
  ultimately show ?thesis
    using lru_evict_spec [OF lru_linked_push, of c1 k v] by (auto simp: lru_abs_def)
qed

lemma lru_inv_reorder:
  assumes "lru_inv c" "set es = set (entries c)" "distinct (map fst es)" "distinct (map (\<lambda>e. fst (snd e)) es)"
    "length es = length (entries c)"
  shows "lru_inv (c\<lparr>entries := es\<rparr>)"
  using assms by (simp add: lru_inv_def lru_linked_def key_nodes_def)

lemma lru_get_spec:
  assumes "lru_inv c"
  shows "\<exists>c'. lru_get c k = Ret (map_of (lru_abs c) k, c') \<and> lru_inv c' \<and> capacity c' = capacity c \<and>
    lru_abs c' = (case map_of (lru_abs c) k of None \<Rightarrow> lru_abs c
       | Some v \<Rightarrow> (k, v) # filter (\<lambda>p. fst p \<noteq> k) (lru_abs c))"
proof (cases "map_of (index c) k")
  case None
  then have "map_of (lru_abs c) k = None"
    using lru_lookup_None [of c k] assms by (auto simp: lru_inv_def map_of_eq_None_iff)
  with None assms show ?thesis by (auto simp: lru_get_def)
next
  case (Some it)
  have L: "lru_linked c" using assms by (simp add: lru_inv_def)
  from Some obtain v where v: "(it, k, v) \<in> set (entries c)" using lru_lookup [OF L] by blast
  let ?es = "(it, k, v) # filter (\<lambda>e. fst (snd e) \<noteq> k) (entries c)"
  have m: "map_of (entries c) it = Some (k, v)" using L v by (simp add: lru_linked_def)
  have "(k, v) \<in> set (lru_abs c)" using v by (force simp: lru_abs_def)
  moreover have "distinct (map fst (lru_abs c))"
    using L by (simp add: lru_linked_def lru_abs_def comp_def)
  ultimately have a: "map_of (lru_abs c) k = Some v" by simp
  have s: "set ?es = set (entries c)"
    using L v filter_node_filter_key [OF L v] by (force simp: lru_linked_def distinct_map inj_on_def)
  have "distinct (map fst ?es)"
    unfolding filter_node_filter_key [OF L v, symmetric] using L by (auto simp: lru_linked_def distinct_map_filter)
  moreover have "distinct (map (\<lambda>e. fst (snd e)) ?es)"
    using L by (auto simp: lru_linked_def distinct_map_filter)
  moreover have "length ?es = length (entries c)"
    using s calculation(1) L by (metis distinct_card distinct_map lru_linked_def)
  ultimately have "lru_inv (c\<lparr>entries := ?es\<rparr>)"
    using lru_inv_reorder [OF assms s] by blast
  then show ?thesis
    using Some m a filter_node_filter_key [OF L v]
    by (auto simp: lru_get_def lru_abs_def filter_key_abs)
qed

interpretation lru: cache lru_put lru_get lru_abs capacity lru_inv
proof
  fix c :: "('k, 'v) lru"
  assume inv: "lru_inv c"
  show "distinct (map fst (lru_abs c))"
    using inv by (simp add: lru_inv_def lru_linked_def lru_abs_def comp_def)
  show "length (lru_abs c) \<le> capacity c"
    using inv by (simp add: lru_inv_def lru_abs_def)
qed (simp_all add: lru_put_spec lru_get_spec)

section \<open>Sequences of calls\<close>

datatype ('k, 'v) cache_call = Put 'k 'v | Get 'k

text \<open>The values that the \<^verbatim>\<open>get\<close> calls of a sequence return, and the cache after it.\<close>

fun lru_run :: "('k, 'v) lru \<Rightarrow> ('k, 'v) cache_call list \<Rightarrow> ('v option list \<times> ('k, 'v) lru) outcome" where
  "lru_run c [] = Ret ([], c)"
| "lru_run c (Put k v # ops) = obind (lru_put c k v) (\<lambda>c'. lru_run c' ops)"
| "lru_run c (Get k # ops) = obind (lru_get c k) (\<lambda>(r, c').
     obind (lru_run c' ops) (\<lambda>(rs, c''). Ret (r # rs, c'')))"

text \<open>The same sequence on the specification: pairs with the most recent first, cut at the capacity.\<close>

fun recency_run :: "nat \<Rightarrow> ('k \<times> 'v) list \<Rightarrow> ('k, 'v) cache_call list \<Rightarrow> 'v option list \<times> ('k \<times> 'v) list" where
  "recency_run cap xs [] = ([], xs)"
| "recency_run cap xs (Put k v # ops) = recency_run cap (take cap ((k, v) # filter (\<lambda>p. fst p \<noteq> k) xs)) ops"
| "recency_run cap xs (Get k # ops) =
     (let (rs, ys) = recency_run cap (case map_of xs k of None \<Rightarrow> xs
            | Some v \<Rightarrow> (k, v) # filter (\<lambda>p. fst p \<noteq> k) xs) ops
      in (map_of xs k # rs, ys))"

lemma lru_run_spec:
  "lru_inv c \<Longrightarrow> \<exists>rs c'. lru_run c ops = Ret (rs, c') \<and> lru_inv c' \<and> capacity c' = capacity c \<and>
     recency_run (capacity c) (lru_abs c) ops = (rs, lru_abs c')"
proof (induction ops arbitrary: c)
  case (Cons a ops)
  show ?case
  proof (cases a)
    case (Put k v)
    from lru.put_law [OF Cons.prems, of k v] obtain c1 where
      c1: "lru_put c k v = Ret c1" "lru_inv c1" "capacity c1 = capacity c"
        "lru_abs c1 = take (capacity c) ((k, v) # filter (\<lambda>p. fst p \<noteq> k) (lru_abs c))" by blast
    from Cons.IH [OF c1(2)] show ?thesis by (auto simp: Put c1 simp del: take_Suc_Cons)
  next
    case (Get k)
    from lru.get_law [OF Cons.prems, of k] obtain c1 where
      c1: "lru_get c k = Ret (map_of (lru_abs c) k, c1)" "lru_inv c1" "capacity c1 = capacity c"
        "lru_abs c1 = (case map_of (lru_abs c) k of None \<Rightarrow> lru_abs c
           | Some v \<Rightarrow> (k, v) # filter (\<lambda>p. fst p \<noteq> k) (lru_abs c))" by blast
    from Cons.IH [OF c1(2)] show ?thesis by (auto simp: Get c1 simp flip: c1(4))
  qed
qed simp

section \<open>Properties\<close>

text \<open>
  C17: every sequence of \<^verbatim>\<open>put\<close> and \<^verbatim>\<open>get\<close> calls on a fresh cache returns (no iterator is
  followed after its node is gone, the list is never empty when the back is taken), the
  values returned are those of the recency-list specification, the stored entries are the
  specification's, and \<^verbatim>\<open>size\<close> is the number of entries and never exceeds the capacity.
\<close>

theorem lru_refines_recency_list:
  "\<exists>rs c. lru_run (lru_new cap) ops = Ret (rs, c) \<and>
     recency_run cap [] ops = (rs, lru_abs c) \<and> lru_size c = length (lru_abs c) \<and> lru_size c \<le> cap"
proof -
  have "lru_abs (lru_new cap) = []" "capacity (lru_new cap) = cap"
    by (simp_all add: lru_new_def lru_abs_def)
  with lru_run_spec [OF lru_new_inv, of cap ops] obtain rs c where
    c: "lru_run (lru_new cap) ops = Ret (rs, c)" "lru_inv c" "capacity c = cap" "recency_run cap [] ops = (rs, lru_abs c)"
    by metis
  moreover have "lru_size c = length (lru_abs c)"
    using c(2) lru_linked_sizes [of c] by (simp add: lru_size_def lru_abs_def lru_inv_def)
  ultimately show ?thesis
    using lru.size_bound [OF c(2)] by auto
qed

end
