(* ===== verification/Chunk_Store.thy ===== *)
theory Chunk_Store
  imports Sha256 Lru_Cache
begin

text \<open>
  \<^verbatim>\<open>src/storage/chunk_store.cpp\<close>: the content-addressed chunk files with the cache in front
  of them, and the splitting of an object into chunks.

  The file system is a map from path strings to contents; two paths denote the same file
  exactly when they are equal. What the operating system answers is an argument of each
  operation: \<open>put_env\<close> says whether the directories, the temporary file, the write and the
  rename succeed and how many bytes the closing flush brought to disk (an error of that flush
  goes unnoticed, since it happens in the stream's destructor); \<open>remove_env\<close> is the error
  message of a failed removal. Opening and reading an existing file succeed.

  An operation gives its outcome and the store after it, also when it throws.
\<close>

section \<open>Paths\<close>

text \<open>\<^verbatim>\<open>operator/\<close> of \<^verbatim>\<open>std::filesystem::path\<close> on POSIX: an absolute right operand replaces
  the left one.\<close>

definition path_join :: "string \<Rightarrow> string \<Rightarrow> string" where
  "path_join p q =
     (if q \<noteq> [] \<and> hd q = CHR ''/'' then q
      else if p = [] \<or> last p = CHR ''/'' then p @ q
      else p @ ''/'' @ q)"

definition path_for :: "string \<Rightarrow> string \<Rightarrow> string" where
  "path_for root checksum = path_join (path_join root (take 2 checksum)) checksum"

section \<open>The implementation\<close>

record chunk_ref =
  ref_checksum :: string
  ref_size :: u64

record chunk_store =
  cs_root :: string
  cs_files :: "string \<rightharpoonup> bytes"
  cs_cache :: "(string, bytes) lru"

record put_env =
  mkdir_ok :: bool
  open_ok :: bool
  write_ok :: bool
  flushed :: "nat option"
  rename_ok :: bool

definition chunk_store_new :: "string \<Rightarrow> nat \<Rightarrow> (string \<rightharpoonup> bytes) \<Rightarrow> chunk_store" where
  "chunk_store_new root cache_bytes files =
     \<lparr>cs_root = root, cs_files = files, cs_cache = lru_new (cache_bytes div 4096 + 1)\<rparr>"

text \<open>What a stream that was given \<open>bytes\<close> leaves in its file.\<close>

definition on_disk :: "nat option \<Rightarrow> bytes \<Rightarrow> bytes" where
  "on_disk n bytes = (case n of None \<Rightarrow> bytes | Some k \<Rightarrow> take k bytes)"

definition put_cached :: "chunk_store \<Rightarrow> string \<Rightarrow> bytes \<Rightarrow> 'a \<Rightarrow> 'a outcome \<times> chunk_store" where
  "put_cached s checksum bytes r =
     (case lru_put (cs_cache s) checksum bytes of
        Ret c \<Rightarrow> (Ret r, s\<lparr>cs_cache := c\<rparr>)
      | Throw e \<Rightarrow> (Throw e, s)
      | Undefined \<Rightarrow> (Undefined, s))"

definition chunk_put :: "put_env \<Rightarrow> chunk_store \<Rightarrow> bytes \<Rightarrow> chunk_ref result outcome \<times> chunk_store" where
  "chunk_put env s bytes =
     (let checksum = Sha256_hex bytes;
          path = path_for (cs_root s) checksum;
          tmp = path @ ''.tmp'';
          ref = \<lparr>ref_checksum = checksum, ref_size = of_nat (length bytes)\<rparr>
      in if \<not> mkdir_ok env then (Throw filesystem_error, s)
         else if cs_files s path = None then
           if \<not> open_ok env then (Ret (Error (Internal ''failed to open chunk temp file'')), s)
           else let s1 = s\<lparr>cs_files := (cs_files s)(tmp \<mapsto> on_disk (flushed env) bytes)\<rparr>
             in if \<not> write_ok env then (Ret (Error (Internal ''failed to write chunk'')), s1)
                else if \<not> rename_ok env then (Throw filesystem_error, s1)
                else put_cached (s1\<lparr>cs_files := (cs_files s1)(path \<mapsto> on_disk (flushed env) bytes, tmp := None)\<rparr>)
                       checksum bytes (Value ref)
         else put_cached s checksum bytes (Value ref))"

definition chunk_get :: "chunk_store \<Rightarrow> string \<Rightarrow> bytes result outcome \<times> chunk_store" where
  "chunk_get s checksum =
     (case lru_get (cs_cache s) checksum of
        Ret (Some bytes, c) \<Rightarrow> (Ret (Value bytes), s\<lparr>cs_cache := c\<rparr>)
      | Ret (None, c) \<Rightarrow>
          (case cs_files s (path_for (cs_root s) checksum) of
             None \<Rightarrow> (Ret (Error (NotFound (''chunk not found: '' @ checksum))), s\<lparr>cs_cache := c\<rparr>)
           | Some bytes \<Rightarrow>
               if Sha256_hex bytes \<noteq> checksum
               then (Ret (Error (Internal (''chunk checksum mismatch: '' @ checksum))), s\<lparr>cs_cache := c\<rparr>)
               else put_cached (s\<lparr>cs_cache := c\<rparr>) checksum bytes (Value bytes))
      | Throw e \<Rightarrow> (Throw e, s)
      | Undefined \<Rightarrow> (Undefined, s))"

definition remove_if_unreferenced :: "string option \<Rightarrow> chunk_store \<Rightarrow> string \<Rightarrow> int \<Rightarrow> unit result \<times> chunk_store" where
  "remove_if_unreferenced env s checksum references =
     (if references > 0 then (Value (), s)
      else case env of
        Some msg \<Rightarrow> (Error (Internal (''failed to remove chunk: '' @ msg)), s)
      | None \<Rightarrow> (Value (), s\<lparr>cs_files := (cs_files s)(path_for (cs_root s) checksum := None)\<rparr>))"

definition chunk_exists :: "chunk_store \<Rightarrow> string \<Rightarrow> bool" where
  "chunk_exists s checksum \<longleftrightarrow> cs_files s (path_for (cs_root s) checksum) \<noteq> None"

text \<open>
  \<^verbatim>\<open>chunk_bytes\<close>. Offsets are 64-bit; \<open>None\<close> would be a loop that does not end, and a
  range whose end lies before its start is \<open>Undefined\<close>. Both are excluded below for inputs
  shorter than \<open>2^63\<close> bytes, the most a \<^verbatim>\<open>std::vector\<close> can hold.
\<close>

partial_function (option) chunk_loop :: "bytes \<Rightarrow> u64 \<Rightarrow> u64 \<Rightarrow> bytes list \<Rightarrow> bytes list outcome option" where
  "chunk_loop input chunk_size offset chunks =
     (if offset < of_nat (length input)
      then let stop = min (of_nat (length input)) (offset + chunk_size)
        in if stop < offset then Some Undefined
           else chunk_loop input chunk_size (offset + chunk_size)
                  (chunks @ [take (unat stop - unat offset) (drop (unat offset) input)])
      else Some (Ret chunks))"

definition chunk_bytes :: "bytes \<Rightarrow> u64 \<Rightarrow> bytes list outcome option" where
  "chunk_bytes input chunk_size =
     map_option (\<lambda>r. obind r (\<lambda>chunks. Ret (if input = [] then chunks @ [[]] else chunks)))
       (chunk_loop input (if chunk_size = 0 then 4 * 1024 * 1024 else chunk_size) 0 [])"

section \<open>Names of chunks\<close>

definition digest_name :: "string \<Rightarrow> bool" where
  "digest_name c \<longleftrightarrow> length c = 64 \<and> (\<forall>x \<in> set c. is_hex x)"

lemma digest_name_hex [simp]: "digest_name (Sha256_hex b)"
  by (simp add: digest_name_def Sha256_hex_is_hex)

lemma is_hex_plain: "is_hex x \<Longrightarrow> x \<noteq> CHR ''/'' \<and> x \<noteq> CHR ''p''"
  by (auto simp: is_hex_def)

lemma path_for_digest:
  assumes "digest_name c"
  shows "path_for root c = path_join root (take 2 c) @ ''/'' @ c"
proof -
  have two: "take 2 c \<noteq> []" "c \<noteq> []" using assms by (auto simp: digest_name_def)
  have h: "hd c \<noteq> CHR ''/''" using assms two is_hex_plain by (auto simp: digest_name_def)
  have "last (take 2 c) \<noteq> CHR ''/''"
    using assms is_hex_plain in_set_takeD [OF last_in_set [OF two(1)]] by (auto simp: digest_name_def)
  moreover have "path_join root (take 2 c) \<noteq> [] \<and> last (path_join root (take 2 c)) = last (take 2 c)"
    using two by (auto simp: path_join_def)
  ultimately show ?thesis using h by (simp add: path_for_def path_join_def [of "path_join root (take 2 c)"])
qed

lemma path_for_inj:
  assumes "digest_name c" "digest_name d" "path_for root c = path_for root d"
  shows "c = d"
  using assms(3) assms(1,2) unfolding path_for_digest [OF assms(1)] path_for_digest [OF assms(2)]
  by (simp add: digest_name_def)

lemma tmp_not_chunk:
  assumes "digest_name c"
  shows "path @ ''.tmp'' \<noteq> path_for root c"
proof
  assume "path @ ''.tmp'' = path_for root c"
  then have "last (path_for root c) = CHR ''p''" by (metis last_appendR last.simps list.distinct(1))
  moreover have "last (path_for root c) = last c"
    using assms by (auto simp: path_for_digest digest_name_def)
  moreover have "last c \<in> set c" using assms by (intro last_in_set) (auto simp: digest_name_def)
  ultimately show False using assms is_hex_plain by (auto simp: digest_name_def)
qed

section \<open>Invariant\<close>

text \<open>
  The cache is linked, has room for at least one entry, and every entry is the content its
  key names. The files are not part of the invariant: they can be damaged from outside.
\<close>

definition store_inv :: "chunk_store \<Rightarrow> bool" where
  "store_inv s \<longleftrightarrow> lru_inv (cs_cache s) \<and> 0 < capacity (cs_cache s) \<and>
     (\<forall>(c, b) \<in> set (lru_abs (cs_cache s)). Sha256_hex b = c)"

lemma store_inv_new: "store_inv (chunk_store_new root n files)"
  by (simp add: store_inv_def chunk_store_new_def lru_new_inv) (simp add: lru_new_def lru_abs_def)

lemma store_inv_files [simp]: "store_inv (s\<lparr>cs_files := f\<rparr>) = store_inv s"
  by (simp add: store_inv_def)

lemma put_cached_spec:
  assumes "store_inv s" "Sha256_hex b = checksum"
  shows "\<exists>c. put_cached s checksum b r = (Ret r, s\<lparr>cs_cache := c\<rparr>) \<and> store_inv (s\<lparr>cs_cache := c\<rparr>) \<and>
    map_of (lru_abs c) checksum = Some b"
proof -
  have inv: "lru_inv (cs_cache s)" "0 < capacity (cs_cache s)" using assms(1) by (simp_all add: store_inv_def)
  obtain c where c: "lru_put (cs_cache s) checksum b = Ret c" "lru_inv c" "capacity c = capacity (cs_cache s)"
    using lru.put_law [OF inv(1), of checksum b] by blast
  have "Sha256_hex v = k" if "(k, v) \<in> set (lru_abs c)" for k v
    using lru.put_all [OF inv(1) c(1), of "\<lambda>k v. Sha256_hex v = k", OF assms(2) _ that] assms(1)
    by (auto simp: store_inv_def)
  then have "store_inv (s\<lparr>cs_cache := c\<rparr>)" using c inv by (auto simp: store_inv_def)
  moreover have "map_of (lru_abs c) checksum = Some b" by (rule lru.put_lookup [OF inv(1) c(1) inv(2)])
  ultimately show ?thesis using c(1) by (auto simp: put_cached_def)
qed

lemma put_cached_inv: "store_inv s \<Longrightarrow> Sha256_hex b = checksum \<Longrightarrow> store_inv (snd (put_cached s checksum b r))"
  using put_cached_spec by (metis snd_conv)

lemma put_cached_ret:
  assumes "put_cached s checksum b r = (Ret r', s')" "store_inv s" "Sha256_hex b = checksum"
  shows "r' = r \<and> map_of (lru_abs (cs_cache s')) checksum = Some b \<and> cs_files s' = cs_files s \<and> cs_root s' = cs_root s"
  using put_cached_spec [OF assms(2,3), of r] assms(1) by auto

lemma lookup_cached:
  assumes "store_inv s"
  shows "\<exists>c. lru_get (cs_cache s) k = Ret (map_of (lru_abs (cs_cache s)) k, c) \<and> store_inv (s\<lparr>cs_cache := c\<rparr>)"
proof -
  have inv: "lru_inv (cs_cache s)" using assms by (simp add: store_inv_def)
  obtain c where c: "lru_get (cs_cache s) k = Ret (map_of (lru_abs (cs_cache s)) k, c)" "lru_inv c" "capacity c = capacity (cs_cache s)"
    using lru.get_law [OF inv, of k] by blast
  have "Sha256_hex v = k'" if "(k', v) \<in> set (lru_abs c)" for k' v
    using lru.get_all [OF inv c(1), of "\<lambda>k v. Sha256_hex v = k", OF _ that] assms by (auto simp: store_inv_def)
  then show ?thesis using c assms by (auto simp: store_inv_def)
qed

text \<open>The four ways in which a lookup ends.\<close>

lemma chunk_get_cases:
  assumes "store_inv s"
  shows "\<exists>s'. store_inv s' \<and> cs_root s' = cs_root s \<and> cs_files s' = cs_files s \<and>
    chunk_get s checksum =
      ((case map_of (lru_abs (cs_cache s)) checksum of
          Some b \<Rightarrow> Ret (Value b)
        | None \<Rightarrow> (case cs_files s (path_for (cs_root s) checksum) of
            None \<Rightarrow> Ret (Error (NotFound (''chunk not found: '' @ checksum)))
          | Some b \<Rightarrow> if Sha256_hex b \<noteq> checksum then Ret (Error (Internal (''chunk checksum mismatch: '' @ checksum)))
              else Ret (Value b))), s')"
proof -
  obtain c where c: "lru_get (cs_cache s) checksum = Ret (map_of (lru_abs (cs_cache s)) checksum, c)"
    and i: "store_inv (s\<lparr>cs_cache := c\<rparr>)"
    using lookup_cached [OF assms] by blast
  show ?thesis
  proof (cases "map_of (lru_abs (cs_cache s)) checksum")
    case (Some b)
    then show ?thesis using c i by (intro exI [of _ "s\<lparr>cs_cache := c\<rparr>"]) (simp add: chunk_get_def)
  next
    case None
    show ?thesis
    proof (cases "\<exists>b. cs_files s (path_for (cs_root s) checksum) = Some b \<and> Sha256_hex b = checksum")
      case True
      then obtain b where b: "cs_files s (path_for (cs_root s) checksum) = Some b" "Sha256_hex b = checksum" by blast
      obtain c' where "put_cached (s\<lparr>cs_cache := c\<rparr>) checksum b (Value b) = (Ret (Value b), s\<lparr>cs_cache := c'\<rparr>)"
        "store_inv (s\<lparr>cs_cache := c'\<rparr>)"
        using put_cached_spec [OF i b(2), of "Value b"] by auto
      then show ?thesis
        using b by (intro exI [of _ "s\<lparr>cs_cache := c'\<rparr>"]) (simp add: chunk_get_def c None)
    next
      case False
      then show ?thesis
        using c i None by (intro exI [of _ "s\<lparr>cs_cache := c\<rparr>"]) (auto simp: chunk_get_def split: option.splits)
    qed
  qed
qed

lemma chunk_get_inv: "store_inv s \<Longrightarrow> store_inv (snd (chunk_get s checksum))"
  by (drule chunk_get_cases [of s checksum], elim exE conjE) simp

lemma chunk_get_sound:
  assumes "store_inv s" "fst (chunk_get s checksum) = Ret (Value b)"
  shows "Sha256_hex b = checksum"
  using chunk_get_cases [OF assms(1), of checksum] assms
  by (auto simp: store_inv_def split: option.splits if_splits dest!: map_of_SomeD)

lemma chunk_put_inv: "store_inv s \<Longrightarrow> store_inv (snd (chunk_put env s bytes))"
  by (simp add: chunk_put_def Let_def put_cached_inv)

lemma remove_inv: "store_inv s \<Longrightarrow> store_inv (snd (remove_if_unreferenced env s checksum refs))"
  by (auto simp: remove_if_unreferenced_def split: option.splits)

text \<open>A successful \<^verbatim>\<open>put\<close> leaves the chunk in the cache, whatever happened on disk.\<close>

lemma chunk_put_cached:
  assumes "store_inv s" "chunk_put env s bytes = (Ret (Value ref), s')"
  shows "ref = \<lparr>ref_checksum = Sha256_hex bytes, ref_size = of_nat (length bytes)\<rparr> \<and>
    map_of (lru_abs (cs_cache s')) (Sha256_hex bytes) = Some bytes"
  using assms by (auto simp: chunk_put_def Let_def split: if_splits dest!: put_cached_ret)

lemma chunk_put_root: "cs_root (snd (chunk_put env s bytes)) = cs_root s"
  by (auto simp: chunk_put_def put_cached_def Let_def split: outcome.splits)

section \<open>Reachable stores\<close>

text \<open>
  A store after any calls with any answers of the operating system; \<open>damage\<close> lets the files
  change arbitrarily between calls (other processes, failing disks).
\<close>

inductive store_reach :: "chunk_store \<Rightarrow> bool" where
  start: "store_reach (chunk_store_new root n files)"
| put: "store_reach s \<Longrightarrow> store_reach (snd (chunk_put env s bytes))"
| get: "store_reach s \<Longrightarrow> store_reach (snd (chunk_get s checksum))"
| remove: "store_reach s \<Longrightarrow> store_reach (snd (remove_if_unreferenced renv s checksum refs))"
| damage: "store_reach s \<Longrightarrow> store_reach (s\<lparr>cs_files := files\<rparr>)"

lemma store_reach_inv: "store_reach s \<Longrightarrow> store_inv s"
  by (induction rule: store_reach.induct)
    (simp_all add: store_inv_new chunk_put_inv chunk_get_inv remove_inv)

section \<open>Chunks of an object\<close>

function chunks_of :: "nat \<Rightarrow> 'a list \<Rightarrow> 'a list list" where
  "chunks_of n xs = (if xs = [] \<or> n = 0 then [] else take n xs # chunks_of n (drop n xs))"
  by pat_completeness auto
termination
  by (relation "measure (\<lambda>(n, xs). length xs)") auto

declare chunks_of.simps [simp del]

lemma chunks_of_Nil [simp]: "chunks_of n [] = []"
  by (simp add: chunks_of.simps)

lemma chunks_of_step: "xs \<noteq> [] \<Longrightarrow> 0 < n \<Longrightarrow> chunks_of n xs = take n xs # chunks_of n (drop n xs)"
  by (simp add: chunks_of.simps [of n xs])

lemma chunks_of_eq_Nil: "0 < n \<Longrightarrow> chunks_of n xs = [] \<longleftrightarrow> xs = []"
  by (cases "xs = []") (simp_all add: chunks_of_step)

lemma concat_chunks_of: "0 < n \<Longrightarrow> concat (chunks_of n xs) = xs"
proof (induction n xs rule: chunks_of.induct)
  case (1 n xs)
  then show ?case by (cases "xs = []") (simp_all add: chunks_of_step)
qed

lemma chunks_of_sizes:
  assumes "0 < n" "c \<in> set (chunks_of n xs)"
  shows "c \<noteq> [] \<and> length c \<le> n"
  using assms
proof (induction n xs rule: chunks_of.induct)
  case (1 n xs)
  then show ?case by (cases "xs = []") (auto simp: chunks_of_step)
qed

lemma chunks_of_full:
  assumes "0 < n" "c \<in> set (butlast (chunks_of n xs))"
  shows "length c = n"
  using assms
proof (induction n xs rule: chunks_of.induct)
  case (1 n xs)
  show ?case
  proof (cases "drop n xs = []")
    case True
    with 1 show ?thesis by (cases "xs = []") (simp_all add: chunks_of_step)
  next
    case False
    then have ne: "xs \<noteq> []" "chunks_of n (drop n xs) \<noteq> []" using 1(2) chunks_of_eq_Nil [of n "drop n xs"] by auto
    then have "c = take n xs \<or> c \<in> set (butlast (chunks_of n (drop n xs)))"
      using 1(2,3) by (simp add: chunks_of_step [of xs n])
    with False ne 1(1,2) show ?thesis by auto
  qed
qed

lemma chunk_loop_chunks_of:
  assumes "length input < 2 ^ 63" "chunk_size \<noteq> 0" "offset = 0 \<or> chunk_size \<le> offset"
  shows "chunk_loop input chunk_size offset acc = Some (Ret (acc @ chunks_of (unat chunk_size) (drop (unat offset) input)))"
  using assms(3)
proof (induction "length input - unat offset" arbitrary: offset acc rule: less_induct)
  case less
  have len: "unat (of_nat (length input) :: u64) = length input"
    using assms(1) by (intro unat_of_size) simp
  show ?case
  proof (cases "unat offset < length input")
    case True
    have sum: "unat (offset + chunk_size) = unat offset + unat chunk_size"
    proof (rule unat_add_lem [THEN iffD1])
      show "unat offset + unat chunk_size < 2 ^ LENGTH(64)"
        using less.prems True assms(1) unat_u64_less [of chunk_size] by (auto simp: word_le_nat_alt)
    qed
    have pos: "0 < unat chunk_size" using assms(2) by (simp add: unat_gt_0)
    let ?stop = "min (of_nat (length input)) (offset + chunk_size)"
    have stop: "unat ?stop = min (length input) (unat offset + unat chunk_size)"
      by (simp add: min_def word_le_nat_alt len sum)
    have "take (unat ?stop - unat offset) (drop (unat offset) input) = take (unat chunk_size) (drop (unat offset) input)"
    proof (cases "length input \<le> unat offset + unat chunk_size")
      case True
      then show ?thesis unfolding stop by (simp add: min_absorb1)
    next
      case False
      then show ?thesis unfolding stop by (simp add: min_absorb2)
    qed
    moreover have "\<not> ?stop < offset" using True by (simp add: word_less_nat_alt stop)
    moreover have "offset < of_nat (length input)" using True by (simp add: word_less_nat_alt len)
    moreover have "chunk_loop input chunk_size (offset + chunk_size) acc' =
        Some (Ret (acc' @ chunks_of (unat chunk_size) (drop (unat offset + unat chunk_size) input)))" for acc'
      using less.hyps [of "offset + chunk_size" acc'] True pos by (simp add: sum word_le_nat_alt)
    ultimately show ?thesis
      using True pos by (subst chunk_loop.simps) (simp add: Let_def chunks_of_step add.commute)
  next
    case False
    then have "\<not> offset < of_nat (length input)" by (simp add: word_less_nat_alt len)
    with False show ?thesis by (subst chunk_loop.simps) simp
  qed
qed

definition effective_size :: "u64 \<Rightarrow> nat" where
  "effective_size n = (if n = 0 then 4194304 else unat n)"

lemma effective_size_pos [simp]: "0 < effective_size n"
  by (simp add: effective_size_def unat_gt_0)

lemma chunk_bytes_eq:
  assumes "length input < 2 ^ 63"
  shows "chunk_bytes input n = Some (Ret (if input = [] then [[]] else chunks_of (effective_size n) input))"
  using chunk_loop_chunks_of [OF assms, of "if n = 0 then 4 * 1024 * 1024 else n" 0 "[]"]
  by (simp add: chunk_bytes_def effective_size_def)

section \<open>Round trips and damage\<close>

lemma chunk_get_cached:
  assumes "store_inv s" "map_of (lru_abs (cs_cache s)) checksum = Some b"
  shows "fst (chunk_get s checksum) = Ret (Value b)"
  using chunk_get_cases [OF assms(1), of checksum] assms(2) by auto

lemma chunk_get_uncached:
  assumes "store_inv s" "map_of (lru_abs (cs_cache s)) checksum = None"
  shows "fst (chunk_get s checksum) =
    (case cs_files s (path_for (cs_root s) checksum) of
       None \<Rightarrow> Ret (Error (NotFound (''chunk not found: '' @ checksum)))
     | Some b \<Rightarrow> if Sha256_hex b \<noteq> checksum then Ret (Error (Internal (''chunk checksum mismatch: '' @ checksum)))
         else Ret (Value b))"
  using chunk_get_cases [OF assms(1), of checksum] assms(2) by auto

lemma put_cached_files [simp]:
  "cs_files (snd (put_cached s checksum b r)) = cs_files s" "cs_root (snd (put_cached s checksum b r)) = cs_root s"
  by (simp_all add: put_cached_def split: outcome.splits)

lemma restarted_get:
  "fst (chunk_get (chunk_store_new root n files) checksum) =
    (case files (path_for root checksum) of
       None \<Rightarrow> Ret (Error (NotFound (''chunk not found: '' @ checksum)))
     | Some b \<Rightarrow> if Sha256_hex b \<noteq> checksum then Ret (Error (Internal (''chunk checksum mismatch: '' @ checksum)))
         else Ret (Value b))"
proof -
  have "map_of (lru_abs (cs_cache (chunk_store_new root n files))) checksum = None"
    by (simp add: chunk_store_new_def lru_new_def lru_abs_def)
  from chunk_get_uncached [OF store_inv_new this] show ?thesis by (simp add: chunk_store_new_def)
qed

text \<open>What a \<^verbatim>\<open>put\<close> that reports success has left in the files.\<close>

lemma chunk_put_files:
  assumes "store_inv s" "fst (chunk_put env s bytes) = Ret (Value ref)"
  shows "cs_files (snd (chunk_put env s bytes)) =
    (let path = path_for (cs_root s) (Sha256_hex bytes)
     in if cs_files s path = None then (cs_files s)(path \<mapsto> on_disk (flushed env) bytes, path @ ''.tmp'' := None)
        else cs_files s)"
  using assms by (auto simp: chunk_put_def Let_def split: if_splits)

lemma other_chunk_files:
  assumes "store_inv s" "fst (chunk_put env s bytes) = Ret (Value ref)" "digest_name c" "c \<noteq> Sha256_hex bytes"
  shows "cs_files (snd (chunk_put env s bytes)) (path_for (cs_root s) c) = cs_files s (path_for (cs_root s) c)"
proof -
  let ?p = "path_for (cs_root s) (Sha256_hex bytes)"
  have "path_for (cs_root s) c \<noteq> ?p" using path_for_inj [OF assms(3) digest_name_hex] assms(4) by blast
  moreover have "path_for (cs_root s) c \<noteq> ?p @ ''.tmp''" using tmp_not_chunk [OF assms(3), of ?p] by metis
  ultimately show ?thesis by (simp add: chunk_put_files [OF assms(1,2)] Let_def)
qed

section \<open>Properties\<close>

definition calm :: put_env where
  "calm = \<lparr>mkdir_ok = True, open_ok = True, write_ok = True, flushed = None, rename_ok = True\<rparr>"

lemma chunk_put_calm:
  assumes "store_inv s"
  shows "fst (chunk_put calm s bytes) = Ret (Value \<lparr>ref_checksum = Sha256_hex bytes, ref_size = of_nat (length bytes)\<rparr>)"
  using put_cached_spec [of _ bytes "Sha256_hex bytes" "Value \<lparr>ref_checksum = Sha256_hex bytes, ref_size = of_nat (length bytes)\<rparr>"] assms
  by (auto simp: chunk_put_def calm_def Let_def) (metis fst_conv store_inv_files)+

text \<open>C7: Whatever the store has been through (failed calls, lost writes, files changed behind
  its back), a lookup returns only bytes whose SHA-256 digest is the name that was asked for.\<close>

theorem chunk_get_integrity:
  assumes "store_reach s" "fst (chunk_get s checksum) = Ret (Value bytes)"
  shows "Sha256_hex bytes = checksum"
  by (rule chunk_get_sound [OF store_reach_inv [OF assms(1)] assms(2)])

theorem chunk_get_integrity_witness:
  "fst (chunk_get (chunk_store_new ''data'' 0 [path_for ''data'' (Sha256_hex [1, 2]) \<mapsto> [1, 2]]) (Sha256_hex [1, 2])) = Ret (Value [1, 2]) \<and>
   Sha256_hex [1, 2] = Sha256_hex [1, 2]"
proof
  show got: "fst (chunk_get (chunk_store_new ''data'' 0 [path_for ''data'' (Sha256_hex [1, 2]) \<mapsto> [1, 2]]) (Sha256_hex [1, 2])) = Ret (Value [1, 2])"
    by (simp add: restarted_get)
  show "Sha256_hex [1, 2] = Sha256_hex [1, 2]"
    by (rule chunk_get_integrity [OF store_reach.start got])
qed

lemma put_durable:
  assumes "store_reach s" "fst (chunk_put env s bytes) = Ret (Value ref)"
  shows "ref = \<lparr>ref_checksum = Sha256_hex bytes, ref_size = of_nat (length bytes)\<rparr>"
    and "fst (chunk_get (snd (chunk_put env s bytes)) (Sha256_hex bytes)) = Ret (Value bytes)"
    and "flushed env = None \<Longrightarrow> cs_files s (path_for (cs_root s) (Sha256_hex bytes)) \<in> {None, Some bytes} \<Longrightarrow>
      fst (chunk_get (chunk_store_new (cs_root s) n (cs_files (snd (chunk_put env s bytes)))) (Sha256_hex bytes)) = Ret (Value bytes)"
    and "digest_name c \<Longrightarrow> c \<noteq> Sha256_hex bytes \<Longrightarrow>
      fst (chunk_get (chunk_store_new (cs_root s) n (cs_files (snd (chunk_put env s bytes)))) c) =
      fst (chunk_get (chunk_store_new (cs_root s) n (cs_files s)) c)"
    and "\<exists>r. fst (chunk_put calm s bytes) = Ret (Value r)"
proof -
  note inv = store_reach_inv [OF assms(1)]
  obtain s' where s': "chunk_put env s bytes = (Ret (Value ref), s')" using assms(2) by (cases "chunk_put env s bytes") simp
  note cached = chunk_put_cached [OF inv s']
  show "ref = \<lparr>ref_checksum = Sha256_hex bytes, ref_size = of_nat (length bytes)\<rparr>" using cached by simp
  show "fst (chunk_get (snd (chunk_put env s bytes)) (Sha256_hex bytes)) = Ret (Value bytes)"
    using chunk_get_cached [of s' "Sha256_hex bytes" bytes] chunk_put_inv [OF inv, of env bytes] cached s' by simp
  show "fst (chunk_get (chunk_store_new (cs_root s) n (cs_files (snd (chunk_put env s bytes)))) (Sha256_hex bytes)) = Ret (Value bytes)"
    if "flushed env = None" "cs_files s (path_for (cs_root s) (Sha256_hex bytes)) \<in> {None, Some bytes}"
    using that by (auto simp: restarted_get chunk_put_files [OF inv assms(2)] Let_def on_disk_def)
  show "fst (chunk_get (chunk_store_new (cs_root s) n (cs_files (snd (chunk_put env s bytes)))) c) =
      fst (chunk_get (chunk_store_new (cs_root s) n (cs_files s)) c)"
    if "digest_name c" "c \<noteq> Sha256_hex bytes"
    using that by (simp add: restarted_get other_chunk_files [OF inv assms(2)])
  show "\<exists>r. fst (chunk_put calm s bytes) = Ret (Value r)" by (simp add: chunk_put_calm [OF inv])
qed



text \<open>C39: Damage is never repaired by storing the chunk again: when the chunk's file already
  exists, with whatever content, \<^verbatim>\<open>put\<close> reports success and leaves the file as it is. Unless
  that content has the same digest, a lookup after a restart answers with the checksum error.\<close>

theorem chunk_put_keeps_damage:
  assumes "store_reach s" "mkdir_ok env"
    "cs_files s (path_for (cs_root s) (Sha256_hex bytes)) = Some old"
  shows "fst (chunk_put env s bytes) = Ret (Value \<lparr>ref_checksum = Sha256_hex bytes, ref_size = of_nat (length bytes)\<rparr>) \<and>
    cs_files (snd (chunk_put env s bytes)) = cs_files s \<and>
    fst (chunk_get (chunk_store_new (cs_root s) n (cs_files (snd (chunk_put env s bytes)))) (Sha256_hex bytes)) =
      (if Sha256_hex old = Sha256_hex bytes then Ret (Value old)
       else Ret (Error (Internal (''chunk checksum mismatch: '' @ Sha256_hex bytes))))"
proof -
  let ?r = "Value \<lparr>ref_checksum = Sha256_hex bytes, ref_size = of_nat (length bytes)\<rparr>"
  have "chunk_put env s bytes = put_cached s (Sha256_hex bytes) bytes ?r"
    using assms(2,3) by (simp add: chunk_put_def Let_def)
  then show ?thesis
    using put_cached_spec [OF store_reach_inv [OF assms(1)] refl, of bytes ?r] assms(3)
    by (auto simp: restarted_get)
qed

theorem chunk_put_keeps_damage_witness:
  "cs_files (snd (chunk_put calm (chunk_store_new ''data'' 0 [path_for ''data'' (Sha256_hex [3]) \<mapsto> []]) [3])) =
     [path_for ''data'' (Sha256_hex [3]) \<mapsto> []]"
proof -
  let ?s = "chunk_store_new ''data'' 0 [path_for ''data'' (Sha256_hex [3]) \<mapsto> []]"
  have "cs_files ?s (path_for (cs_root ?s) (Sha256_hex [3])) = Some []" "mkdir_ok calm"
    "cs_files ?s = [path_for ''data'' (Sha256_hex [3]) \<mapsto> []]"
    by (simp_all add: chunk_store_new_def calm_def)
  then show ?thesis using chunk_put_keeps_damage [OF store_reach.start, of calm "''data''" 0] by simp
qed

text \<open>A chunk that was stored and then removed is still served by the same process, from the
  cache, although its file is gone.\<close>

theorem removed_chunk_still_served:
  assumes "store_reach s" "fst (chunk_put env s bytes) = Ret (Value ref)"
  shows "let s1 = snd (chunk_put env s bytes); r = remove_if_unreferenced None s1 (Sha256_hex bytes) 0
    in fst r = Value () \<and> \<not> chunk_exists (snd r) (Sha256_hex bytes) \<and>
       fst (chunk_get (snd r) (Sha256_hex bytes)) = Ret (Value bytes)"
proof -
  note inv = store_reach_inv [OF assms(1)]
  obtain s1 where s1: "chunk_put env s bytes = (Ret (Value ref), s1)" using assms(2) by (cases "chunk_put env s bytes") simp
  let ?s2 = "s1\<lparr>cs_files := (cs_files s1)(path_for (cs_root s1) (Sha256_hex bytes) := None)\<rparr>"
  have "store_inv ?s2" using chunk_put_inv [OF inv, of env bytes] s1 by simp
  then have "fst (chunk_get ?s2 (Sha256_hex bytes)) = Ret (Value bytes)"
    using chunk_put_cached [OF inv s1] by (intro chunk_get_cached) simp_all
  then show ?thesis by (simp add: s1 remove_if_unreferenced_def chunk_exists_def)
qed

theorem removed_chunk_still_served_witness:
  "fst (chunk_get (snd (remove_if_unreferenced None
      (snd (chunk_put calm (chunk_store_new ''data'' 0 Map.empty) [7])) (Sha256_hex [7]) 0)) (Sha256_hex [7])) = Ret (Value [7])"
  using removed_chunk_still_served [OF store_reach.start chunk_put_calm [OF store_inv_new], of "''data''" 0 Map.empty "[7]"]
  by (simp add: Let_def)

text \<open>Splitting an object ends without leaving the input's bounds and gives a non-empty list of
  pieces whose concatenation is the object; all pieces but the last have exactly the chunk size
  (4 MiB when it is configured as 0), the last is no longer, and only the empty object has an
  empty piece.\<close>

theorem chunk_bytes_partition:
  assumes "length input < 2 ^ 63"
  shows "\<exists>chunks. chunk_bytes input chunk_size = Some (Ret chunks) \<and> chunks \<noteq> [] \<and> concat chunks = input \<and>
    (\<forall>c \<in> set (butlast chunks). length c = effective_size chunk_size) \<and>
    length (last chunks) \<le> effective_size chunk_size \<and> ([] \<in> set chunks \<longleftrightarrow> input = [])"
proof (cases "input = []")
  case True
  then show ?thesis by (simp add: chunk_bytes_eq)
next
  case False
  let ?cs = "chunks_of (effective_size chunk_size) input"
  have ne: "?cs \<noteq> []" using False by (simp add: chunks_of_eq_Nil)
  then have "length (last ?cs) \<le> effective_size chunk_size"
    using chunks_of_sizes [OF effective_size_pos last_in_set] by blast
  moreover have "[] \<notin> set ?cs" using chunks_of_sizes [OF effective_size_pos] by blast
  moreover have "\<forall>c \<in> set (butlast ?cs). length c = effective_size chunk_size"
    using chunks_of_full [OF effective_size_pos] by blast
  ultimately show ?thesis
    using False ne chunk_bytes_eq [OF assms, of chunk_size] concat_chunks_of [of "effective_size chunk_size" input] by simp
qed

theorem chunk_bytes_partition_witness:
  "\<exists>chunks. chunk_bytes [1, 2, 3, 4, 5] 2 = Some (Ret chunks) \<and> concat chunks = [1, 2, 3, 4, 5]"
  using chunk_bytes_partition [of "[1, 2, 3, 4, 5]" 2] by auto

end
