(* ===== verification/Hash_Ring.thy ===== *)
theory Hash_Ring
  imports Cpp_Text "HOL-Library.Sublist"
begin

text \<open>
  \<^verbatim>\<open>src/storage/consistent_hash.cpp\<close>: the consistent-hash ring. The ordered map
  \<^verbatim>\<open>ring_\<close> is a list of pairs with strictly increasing keys, an iterator into it is a
  position. \<^verbatim>\<open>std::hash<std::string>\<close> is implementation-defined, so \<open>hash64\<close> is an
  argument of the operations that use it.

  \<^verbatim>\<open>locate\<close> walks the ring in a loop that need not end, so it is a partial function:
  \<open>None\<close> means that the call does not return. The lemmas below give the exact condition,
  and the reference \<open>clockwise_replicas\<close> for the result when it returns.
\<close>

section \<open>The implementation\<close>

record storage_node =
  node_id :: string
  address :: string
  healthy :: bool

type_synonym ring = "(u64 \<times> storage_node) list"

text \<open>\<^verbatim>\<open>m[k] = v\<close> on a \<^verbatim>\<open>std::map\<close>.\<close>

fun map_put :: "'k::linorder \<Rightarrow> 'v \<Rightarrow> ('k \<times> 'v) list \<Rightarrow> ('k \<times> 'v) list" where
  "map_put k v [] = [(k, v)]"
| "map_put k v (p # ps) =
     (if fst p < k then p # map_put k v ps
      else if fst p = k then (k, v) # ps
      else (k, v) # p # ps)"

definition vnode_label :: "string \<Rightarrow> nat \<Rightarrow> string" where
  "vnode_label nid i = nid @ ''#'' @ to_string i"

definition add_node :: "(string \<Rightarrow> u64) \<Rightarrow> int \<Rightarrow> ring \<Rightarrow> storage_node \<Rightarrow> ring" where
  "add_node hash64 virtual_nodes r node =
     foldl (\<lambda>r i. map_put (hash64 (vnode_label (node_id node) i)) node r) r [0..<nat virtual_nodes]"

text \<open>The erasing loop of \<^verbatim>\<open>remove_node\<close>.\<close>

fun remove_node :: "string \<Rightarrow> ring \<Rightarrow> ring" where
  "remove_node nid [] = []"
| "remove_node nid (p # ps) = (if node_id (snd p) = nid then remove_node nid ps else p # remove_node nid ps)"

text \<open>The loop of \<^verbatim>\<open>nodes\<close>, with the set of identifiers seen so far.\<close>

fun nodes_loop :: "string set \<Rightarrow> ring \<Rightarrow> storage_node list" where
  "nodes_loop seen [] = []"
| "nodes_loop seen (p # ps) =
     (if node_id (snd p) \<in> seen then nodes_loop seen ps
      else snd p # nodes_loop (insert (node_id (snd p)) seen) ps)"

definition nodes :: "ring \<Rightarrow> storage_node list" where
  "nodes r = nodes_loop {} r"

definition lower_bound :: "u64 \<Rightarrow> ring \<Rightarrow> nat" where
  "lower_bound h r = length (takeWhile (\<lambda>p. fst p < h) r)"

partial_function (option) locate_loop ::
  "ring \<Rightarrow> nat \<Rightarrow> nat \<Rightarrow> storage_node list \<Rightarrow> string set \<Rightarrow> storage_node list option" where
  "locate_loop r replicas it out seen =
     (if length out < replicas \<and> card seen < length (nodes r)
      then let node = snd (r ! it);
               it' = (if Suc it = length r then 0 else Suc it)
        in if healthy node \<and> node_id node \<notin> seen
           then locate_loop r replicas it' (out @ [node]) (insert (node_id node) seen)
           else locate_loop r replicas it' out seen
      else Some out)"

definition locate :: "(string \<Rightarrow> u64) \<Rightarrow> ring \<Rightarrow> string \<Rightarrow> int \<Rightarrow> storage_node list option" where
  "locate hash64 r key replicas =
     (if r = [] \<or> replicas \<le> 0 then Some []
      else let it = lower_bound (hash64 key) r;
               it' = (if it = length r then 0 else it)
        in locate_loop r (nat replicas) it' [] {})"

section \<open>The ordered map\<close>

definition ring_ok :: "ring \<Rightarrow> bool" where
  "ring_ok r \<longleftrightarrow> sorted_wrt (<) (map fst r)"

lemma fst_map_put: "fst ` set (map_put k v ps) = insert k (fst ` set ps)"
  by (induction ps) auto

lemma sorted_map_put: "sorted_wrt (<) (map fst ps) \<Longrightarrow> sorted_wrt (<) (map fst (map_put k v ps))"
proof (induction ps)
  case (Cons p ps)
  have "\<forall>x \<in> fst ` set (map_put k v ps). fst p < x" if "fst p < k"
    using Cons.prems that by (auto simp: fst_map_put)
  with Cons show ?case by (auto simp: not_less_iff_gr_or_eq)
qed simp

lemma map_of_map_put: "sorted_wrt (<) (map fst ps) \<Longrightarrow> map_of (map_put k v ps) = (map_of ps)(k \<mapsto> v)"
  by (induction ps) (auto simp: fun_eq_iff)

lemma ring_ok_add_node: "ring_ok r \<Longrightarrow> ring_ok (add_node hash64 vn r node)"
proof -
  have "ring_ok r \<Longrightarrow> ring_ok (foldl (\<lambda>r i. map_put (h i) node r) r is)" for h and "is" :: "nat list"
    by (induction "is" arbitrary: r) (auto simp: ring_ok_def sorted_map_put)
  then show "ring_ok r \<Longrightarrow> ring_ok (add_node hash64 vn r node)" by (simp add: add_node_def)
qed

lemma remove_node_filter: "remove_node nid r = filter (\<lambda>p. node_id (snd p) \<noteq> nid) r"
  by (induction r) auto

lemma ring_ok_remove_node: "ring_ok r \<Longrightarrow> ring_ok (remove_node nid r)"
  by (simp add: ring_ok_def remove_node_filter sorted_wrt_map sorted_wrt_filter)

section \<open>First occurrences by identifier\<close>

fun firsts :: "string set \<Rightarrow> storage_node list \<Rightarrow> storage_node list" where
  "firsts seen [] = []"
| "firsts seen (x # xs) = (if node_id x \<in> seen then firsts seen xs else x # firsts (insert (node_id x) seen) xs)"

lemma set_firsts: "node_id ` set (firsts seen xs) = node_id ` set xs - seen"
  by (induction xs arbitrary: seen) auto

lemma firsts_subset: "set (firsts seen xs) \<subseteq> set xs"
proof (induction xs arbitrary: seen)
  case (Cons x xs)
  show ?case using Cons [of seen] Cons [of "insert (node_id x) seen"] by auto
qed simp

lemma distinct_firsts: "distinct (map node_id (firsts seen xs))"
proof (induction xs arbitrary: seen)
  case (Cons x xs)
  have "node_id x \<notin> node_id ` set (firsts (insert (node_id x) seen) xs)"
    by (simp only: set_firsts) blast
  with Cons show ?case by auto
qed simp

lemma length_firsts: "length (firsts seen xs) = card (node_id ` set xs - seen)"
  using distinct_card [OF distinct_firsts, of seen xs] by (simp add: set_firsts)

lemma nodes_loop_firsts: "nodes_loop seen r = firsts seen (map snd r)"
  by (induction r arbitrary: seen) auto

definition ring_ids :: "ring \<Rightarrow> string set" where
  "ring_ids r = node_id ` snd ` set r"

definition healthy_ids :: "ring \<Rightarrow> string set" where
  "healthy_ids r = node_id ` {n \<in> snd ` set r. healthy n}"

lemma length_nodes: "length (nodes r) = card (ring_ids r)"
  by (simp add: nodes_def nodes_loop_firsts length_firsts ring_ids_def image_image)

lemma healthy_ids_subset: "healthy_ids r \<subseteq> ring_ids r"
  by (auto simp: healthy_ids_def ring_ids_def)

lemma finite_ring_ids [simp]: "finite (ring_ids r)"
  by (simp add: ring_ids_def)

lemma card_healthy_ids: "card (healthy_ids r) \<le> card (ring_ids r)"
  by (rule card_mono [OF finite_ring_ids healthy_ids_subset])

lemma firsts_irrelevant: "nid \<notin> node_id ` set xs \<Longrightarrow> firsts (insert nid seen) xs = firsts seen xs"
proof (induction xs arbitrary: seen)
  case (Cons x xs)
  then show ?case using Cons.IH [of "insert (node_id x) seen"] by (auto simp: insert_commute [of _ nid])
qed simp

lemma firsts_filter_id:
  "firsts seen (filter (\<lambda>x. node_id x \<noteq> nid) xs) = filter (\<lambda>x. node_id x \<noteq> nid) (firsts seen xs)"
proof (induction xs arbitrary: seen)
  case (Cons x xs)
  have "nid \<notin> node_id ` set (filter (\<lambda>x. node_id x \<noteq> nid) xs)" by auto
  from firsts_irrelevant [OF this, of seen] Cons show ?case by auto
qed simp

section \<open>The walk\<close>

text \<open>The ring as a list of nodes starting at a position.\<close>

definition clockwise :: "ring \<Rightarrow> nat \<Rightarrow> storage_node list" where
  "clockwise r it = map snd (drop it r @ take it r)"

definition clockwise_replicas :: "ring \<Rightarrow> nat \<Rightarrow> storage_node list" where
  "clockwise_replicas r it = firsts {} (filter healthy (clockwise r it))"

lemma set_clockwise: "set (clockwise r it) = snd ` set r"
proof -
  have "set (drop it r @ take it r) = set r" by (metis append_take_drop_id inf_sup_aci(5) set_append)
  then show ?thesis by (simp only: clockwise_def set_map)
qed

lemma length_clockwise_replicas: "length (clockwise_replicas r it) = card (healthy_ids r)"
  by (simp add: clockwise_replicas_def length_firsts healthy_ids_def set_clockwise)

text \<open>One pass over a list of nodes, as the loop would make it.\<close>

fun scan :: "nat \<Rightarrow> storage_node list \<Rightarrow> storage_node list \<Rightarrow> string set \<Rightarrow> storage_node list \<times> string set" where
  "scan n [] out seen = (out, seen)"
| "scan n (x # xs) out seen =
     (if length out < n then
        if healthy x \<and> node_id x \<notin> seen then scan n xs (out @ [x]) (insert (node_id x) seen) else scan n xs out seen
      else (out, seen))"

lemma scan_stop: "n \<le> length out \<Longrightarrow> scan n xs out seen = (out, seen)"
  by (cases xs) auto

lemma scan_firsts: "fst (scan n xs out seen) = out @ take (n - length out) (firsts seen (filter healthy xs))"
proof (induction xs arbitrary: out seen)
  case (Cons x xs)
  show ?case
  proof (cases "length out < n")
    case True
    then show ?thesis using Cons by (simp add: Suc_diff_Suc take_Cons' split: if_splits)
  qed simp
qed simp

text \<open>The loop's own guard, with the bound it amounts to: \<open>card seen = length out\<close> throughout.\<close>

lemma locate_loop_step:
  assumes "card seen = length out" "finite seen"
  shows "locate_loop r n it out seen =
    (if length out < min n (card (ring_ids r)) then
       (if healthy (snd (r ! it)) \<and> node_id (snd (r ! it)) \<notin> seen
        then locate_loop r n (if Suc it = length r then 0 else Suc it) (out @ [snd (r ! it)]) (insert (node_id (snd (r ! it))) seen)
        else locate_loop r n (if Suc it = length r then 0 else Suc it) out seen)
     else Some out)"
  by (subst locate_loop.simps) (simp add: assms length_nodes Let_def)

lemma locate_loop_stop:
  "card seen = length out \<Longrightarrow> finite seen \<Longrightarrow> min n (card (ring_ids r)) \<le> length out \<Longrightarrow>
   locate_loop r n it out seen = Some out"
  by (subst locate_loop_step) (auto simp: min_le_iff_disj)

lemma map_cycle_Suc:
  assumes "i < L"
  shows "map (\<lambda>j. f ((i + j) mod L)) [0..<Suc k] = f i # map (\<lambda>j. f (((if Suc i = L then 0 else Suc i) + j) mod L)) [0..<k]"
proof -
  have "[0..<Suc k] = 0 # map Suc [0..<k]" by (simp add: map_Suc_upt upt_conv_Cons del: upt_Suc)
  moreover have "(i + Suc j) mod L = ((if Suc i = L then 0 else Suc i) + j) mod L" for j
  proof (cases "Suc i = L")
    case True
    then have "i + Suc j = L + j" by simp
    then have "(i + Suc j) mod L = j mod L" by (simp only: mod_add_self1)
    with True show ?thesis by simp
  qed simp
  ultimately show ?thesis using assms by (simp del: upt_Suc)
qed

lemma locate_loop_scan:
  assumes "card seen = length out" "finite seen" "it < length r"
    and "min n (card (ring_ids r)) \<le> length (fst (scan (min n (card (ring_ids r))) (map (\<lambda>j. snd (r ! ((it + j) mod length r))) [0..<k]) out seen))"
  shows "locate_loop r n it out seen =
    Some (fst (scan (min n (card (ring_ids r))) (map (\<lambda>j. snd (r ! ((it + j) mod length r))) [0..<k]) out seen))"
  using assms
proof (induction k arbitrary: it out seen)
  case 0
  then show ?case by (simp add: locate_loop_stop)
next
  case (Suc k)
  let ?m = "min n (card (ring_ids r))" and ?it = "if Suc it = length r then 0 else Suc it"
  have it: "?it < length r" using Suc.prems(3) by auto
  have eq: "map (\<lambda>j. snd (r ! ((it + j) mod length r))) [0..<Suc k] =
      snd (r ! it) # map (\<lambda>j. snd (r ! ((?it + j) mod length r))) [0..<k]"
    by (rule map_cycle_Suc [OF Suc.prems(3)])
  show ?case
  proof (cases "length out < ?m")
    case True
    note step = locate_loop_step [OF Suc.prems(1,2), of r n it]
    show ?thesis
    proof (cases "healthy (snd (r ! it)) \<and> node_id (snd (r ! it)) \<notin> seen")
      case new: True
      then have "card (insert (node_id (snd (r ! it))) seen) = length (out @ [snd (r ! it)])"
        using Suc.prems(1,2) by simp
      from Suc.IH [OF this _ it] Suc.prems(2,4) new True show ?thesis
        unfolding eq step by simp
    next
      case old: False
      from Suc.IH [OF Suc.prems(1,2) it] Suc.prems(4) old True show ?thesis
        unfolding eq step by auto
    qed
  next
    case False
    with Suc.prems(1,2) show ?thesis by (simp only: locate_loop_stop scan_stop not_less fst_conv)
  qed
qed

lemma map_rotate_index:
  assumes "it < length r"
  shows "map (\<lambda>j. snd (r ! ((it + j) mod length r))) [0..<length r] = clockwise r it"
proof -
  have "drop it r @ take it r = rotate it r" using assms by (simp add: rotate_drop_take)
  then show ?thesis
    by (auto intro!: nth_equalityI simp: clockwise_def nth_rotate add.commute simp del: map_append)
qed

lemma locate_loop_returns:
  assumes "it < length r" "min n (card (ring_ids r)) \<le> card (healthy_ids r)"
  shows "locate_loop r n it [] {} = Some (take n (clockwise_replicas r it))"
proof -
  let ?m = "min n (card (ring_ids r))"
  have s: "fst (scan ?m (map (\<lambda>j. snd (r ! ((it + j) mod length r))) [0..<length r]) [] {}) =
      take ?m (clockwise_replicas r it)"
    by (simp add: scan_firsts map_rotate_index [OF assms(1)] clockwise_replicas_def)
  have "locate_loop r n it [] {} = Some (take ?m (clockwise_replicas r it))"
    using locate_loop_scan [of "{}" "[]" it r n "length r"] assms
    unfolding s by (simp add: length_clockwise_replicas)
  moreover have "take ?m (clockwise_replicas r it) = take n (clockwise_replicas r it)"
    using card_healthy_ids [of r] by (simp add: min_def length_clockwise_replicas)
  ultimately show ?thesis by simp
qed

lemma locate_loop_diverges:
  assumes "r \<noteq> []" "it < length r" "card (healthy_ids r) < min n (card (ring_ids r))"
    "card seen = length out" "seen \<subseteq> healthy_ids r"
  shows "locate_loop r n it out seen = None"
proof (rule ccontr)
  let ?P = "\<lambda>r n it out seen (_ :: storage_node list). \<not> (it < length r \<and> card (healthy_ids r) < min n (card (ring_ids r)) \<and>
    card seen = length out \<and> seen \<subseteq> healthy_ids r)"
  assume "locate_loop r n it out seen \<noteq> None"
  then obtain y where "locate_loop r n it out seen = Some y" by auto
  then have "?P r n it out seen y"
  proof (rule locate_loop.raw_induct [rotated])
    fix f r n it out seen y
    assume IH: "\<And>r n it out seen y. f r n it out seen = Some y \<Longrightarrow> ?P r n it out seen y"
      and eq: "(if length out < n \<and> card seen < length (nodes r)
        then let node = snd (r ! it); it' = (if Suc it = length r then 0 else Suc it)
          in if healthy node \<and> node_id node \<notin> seen
             then f r n it' (out @ [node]) (insert (node_id node) seen) else f r n it' out seen
        else Some out) = Some y"
    show "?P r n it out seen y"
    proof
      assume inv: "it < length r \<and> card (healthy_ids r) < min n (card (ring_ids r)) \<and> card seen = length out \<and> seen \<subseteq> healthy_ids r"
      have fin: "finite (healthy_ids r)" by (rule finite_subset [OF healthy_ids_subset finite_ring_ids])
      have "card seen \<le> card (healthy_ids r)" by (rule card_mono [OF fin]) (use inv in blast)
      then have g: "length out < n \<and> card seen < length (nodes r)" using inv by (simp add: length_nodes)
      let ?it = "if Suc it = length r then 0 else Suc it"
      have it: "?it < length r" using inv by auto
      show False
      proof (cases "healthy (snd (r ! it)) \<and> node_id (snd (r ! it)) \<notin> seen")
        case True
        then have "node_id (snd (r ! it)) \<in> healthy_ids r" using inv by (auto simp: healthy_ids_def)
        moreover have "finite seen" using inv fin finite_subset by blast
        ultimately show False
          using IH [of r n ?it "out @ [snd (r ! it)]" "insert (node_id (snd (r ! it))) seen" y] eq g True it inv by (auto simp: Let_def)
      next
        case False
        then show False using IH [of r n ?it out seen y] eq g it inv by (auto simp: Let_def split: if_splits)
      qed
    qed
  qed
  with assms show False by simp
qed

section \<open>Where a key is placed\<close>

definition start_pos :: "u64 \<Rightarrow> ring \<Rightarrow> nat" where
  "start_pos h r = (if lower_bound h r = length r then 0 else lower_bound h r)"

lemma start_pos_less: "r \<noteq> [] \<Longrightarrow> start_pos h r < length r"
  by (auto simp: start_pos_def lower_bound_def le_neq_implies_less length_takeWhile_le)

lemma locate_cases:
  "locate hash64 r key n =
     (if r = [] \<or> n \<le> 0 then Some []
      else if min (nat n) (card (ring_ids r)) \<le> card (healthy_ids r)
           then Some (take (nat n) (clockwise_replicas r (start_pos (hash64 key) r)))
           else None)"
proof (cases "r = [] \<or> n \<le> 0")
  case False
  then have it: "start_pos (hash64 key) r < length r" by (simp add: start_pos_less)
  have "locate hash64 r key n = locate_loop r (nat n) (start_pos (hash64 key) r) [] {}"
    using False by (simp add: locate_def start_pos_def Let_def)
  then show ?thesis
    using False locate_loop_returns [OF it, of "nat n"] locate_loop_diverges [OF _ it, of "nat n" "{}" "[]"]
    by (cases "min (nat n) (card (ring_ids r)) \<le> card (healthy_ids r)") (simp_all add: not_le)
qed (auto simp: locate_def)

text \<open>On a sorted ring the walk starts with the keys at or above the hash.\<close>

lemma clockwise_start:
  assumes "ring_ok r"
  shows "clockwise r (start_pos h r) = map snd (filter (\<lambda>p. h \<le> fst p) r @ filter (\<lambda>p. fst p < h) r)"
proof -
  have s: "takeWhile (\<lambda>p. fst p < h) r = filter (\<lambda>p. fst p < h) r \<and> dropWhile (\<lambda>p. fst p < h) r = filter (\<lambda>p. h \<le> fst p) r"
    using assms
  proof (induction r)
    case (Cons p r)
    show ?case
    proof (cases "fst p < h")
      case True
      with Cons show ?thesis by (auto simp: ring_ok_def)
    next
      case False
      then have "\<forall>q \<in> set r. h \<le> fst q" using Cons.prems by (auto simp: ring_ok_def)
      with False show ?thesis by (auto simp: filter_id_conv filter_empty_conv not_less [symmetric])
    qed
  qed simp
  have "clockwise r (start_pos h r) = clockwise r (lower_bound h r)"
    by (auto simp: start_pos_def clockwise_def)
  also have "\<dots> = map snd (dropWhile (\<lambda>p. fst p < h) r @ takeWhile (\<lambda>p. fst p < h) r)"
    by (metis (no_types, lifting) clockwise_def dropWhile_eq_drop lower_bound_def takeWhile_eq_take)
  finally show ?thesis using s by simp
qed

lemma clockwise_replicas_remove:
  assumes "ring_ok r"
  shows "clockwise_replicas (remove_node nid r) (start_pos h (remove_node nid r)) =
    filter (\<lambda>x. node_id x \<noteq> nid) (clockwise_replicas r (start_pos h r))"
proof -
  have "clockwise (remove_node nid r) (start_pos h (remove_node nid r)) =
      filter (\<lambda>x. node_id x \<noteq> nid) (clockwise r (start_pos h r))"
    using assms ring_ok_remove_node [OF assms, of nid]
    by (simp add: clockwise_start remove_node_filter filter_map comp_def conj_commute)
  then show ?thesis
    by (simp add: clockwise_replicas_def firsts_filter_id [symmetric] conj_commute)
qed

lemma clockwise_replicas_distinct: "distinct (map node_id (clockwise_replicas r it))"
  by (simp add: clockwise_replicas_def distinct_firsts)

lemma clockwise_replicas_subset: "set (clockwise_replicas r it) \<subseteq> {n \<in> snd ` set r. healthy n}"
  using firsts_subset [of "{}" "filter healthy (clockwise r it)"]
  by (auto simp: clockwise_replicas_def set_clockwise)

lemma all_healthy_ids: "\<forall>p \<in> set r. healthy (snd p) \<Longrightarrow> healthy_ids r = ring_ids r"
  by (auto simp: healthy_ids_def ring_ids_def)

lemma locate_all_healthy:
  assumes "\<forall>p \<in> set r. healthy (snd p)"
  shows "locate hash64 r key n = Some (take (nat n) (clockwise_replicas r (start_pos (hash64 key) r)))"
  using all_healthy_ids [OF assms]
  by (auto simp: locate_cases clockwise_replicas_def clockwise_def)

lemma prefix_take_filter: "prefix (filter P (take n xs)) (take n (filter P xs))"
proof -
  have "filter P xs = filter P (take n xs) @ filter P (drop n xs)"
    by (metis append_take_drop_id filter_append)
  moreover have "length (filter P (take n xs)) \<le> n"
    using length_filter_le [of P "take n xs"] by simp
  ultimately show ?thesis by (simp add: prefixI)
qed

lemma take_filter_all: "\<forall>x \<in> set (take n xs). P x \<Longrightarrow> take n (filter P xs) = take n xs"
proof (induction xs arbitrary: n)
  case (Cons x xs)
  then show ?case by (cases n) auto
qed simp

text \<open>A ring of two nodes, for the concrete instances below.\<close>

definition two_node_ring :: ring where
  "two_node_ring = [(2, \<lparr>node_id = ''a'', address = ''a:1'', healthy = True\<rparr>), (5, \<lparr>node_id = ''b'', address = ''b:1'', healthy = True\<rparr>)]"

section \<open>Properties\<close>

text \<open>
  C30: \<^verbatim>\<open>locate\<close> fails to return exactly when the ring has nodes, replicas are asked for, and
  the healthy nodes are fewer than both the replicas and the nodes: the loop waits for
  \<^verbatim>\<open>seen\<close> to reach the number of all nodes, but an unhealthy node never enters \<^verbatim>\<open>seen\<close>.
\<close>

theorem locate_diverges_iff:
  "locate hash64 r key n = None \<longleftrightarrow>
     r \<noteq> [] \<and> 0 < n \<and> card (healthy_ids r) < nat n \<and> card (healthy_ids r) < length (nodes r)"
  by (auto simp: locate_cases length_nodes min_le_iff_disj not_le)

text \<open>
  When every node is healthy, \<^verbatim>\<open>locate\<close> returns, its result has pairwise distinct
  identifiers, exactly as many nodes as the smaller of the replicas asked for and the nodes
  on the ring, all of them nodes of the ring, and it is the start of the list of distinct
  nodes met clockwise from the hash of the key.
\<close>

theorem locate_healthy_ring:
  assumes "\<forall>p \<in> set r. healthy (snd p)"
  shows "\<exists>out. locate hash64 r key n = Some out \<and> distinct (map node_id out) \<and>
    length out = min (nat n) (length (nodes r)) \<and> set out \<subseteq> snd ` set r \<and>
    out = take (nat n) (clockwise_replicas r (start_pos (hash64 key) r))"
proof -
  let ?w = "clockwise_replicas r (start_pos (hash64 key) r)"
  have "distinct (map node_id (take (nat n) ?w))"
    by (simp add: take_map [symmetric] clockwise_replicas_distinct)
  moreover have "set (take (nat n) ?w) \<subseteq> snd ` set r"
    using clockwise_replicas_subset [of r "start_pos (hash64 key) r"] by (blast dest: in_set_takeD)
  moreover have "length (take (nat n) ?w) = min (nat n) (length (nodes r))"
    by (simp add: length_clockwise_replicas length_nodes all_healthy_ids [OF assms] min.commute)
  ultimately show ?thesis using locate_all_healthy [OF assms] by blast
qed

theorem locate_healthy_ring_witness:
  "\<exists>out. locate (\<lambda>s. of_nat (length s)) two_node_ring ''key'' 2 = Some out \<and>
    distinct (map node_id out) \<and>
    length out = min (nat 2) (length (nodes two_node_ring)) \<and>
    set out \<subseteq> snd ` set two_node_ring \<and>
    out = take (nat 2) (clockwise_replicas two_node_ring
      (start_pos (of_nat (length ''key'')) two_node_ring))"
  by (rule locate_healthy_ring) (simp add: two_node_ring_def)

text \<open>
  Consistent hashing. Taking a node off a ring of healthy nodes changes only the
  placements it took part in: a key that was not placed on it keeps its replicas, in order,
  and a key that was keeps the remaining ones at the front of its new list.
\<close>

theorem locate_after_removal:
  assumes "ring_ok r" and "\<forall>p \<in> set r. healthy (snd p)" and "locate hash64 r key n = Some out"
  shows "\<exists>out'. locate hash64 (remove_node nid r) key n = Some out' \<and>
    prefix (filter (\<lambda>x. node_id x \<noteq> nid) out) out' \<and> (nid \<notin> node_id ` set out \<longrightarrow> out' = out)"
proof -
  let ?w = "clockwise_replicas r (start_pos (hash64 key) r)"
  have out: "out = take (nat n) ?w" using assms(3) by (simp add: locate_all_healthy [OF assms(2)])
  have "\<forall>p \<in> set (remove_node nid r). healthy (snd p)" using assms(2) by (simp add: remove_node_filter)
  from locate_all_healthy [OF this]
  have "locate hash64 (remove_node nid r) key n = Some (take (nat n) (filter (\<lambda>x. node_id x \<noteq> nid) ?w))"
    by (simp add: clockwise_replicas_remove [OF assms(1)])
  then show ?thesis
    unfolding out using take_filter_all [of "nat n" ?w "\<lambda>x. node_id x \<noteq> nid"]
    by (auto simp: prefix_take_filter)
qed

theorem locate_after_removal_witness:
  "\<exists>out'. locate (\<lambda>s. of_nat (length s)) (remove_node ''a'' two_node_ring) ''key'' 1 = Some out' \<and>
    prefix (filter (\<lambda>x. node_id x \<noteq> ''a'') [\<lparr>node_id = ''b'', address = ''b:1'', healthy = True\<rparr>]) out' \<and>
    (''a'' \<notin> node_id ` set [\<lparr>node_id = ''b'', address = ''b:1'', healthy = True\<rparr>] \<longrightarrow> out' = [\<lparr>node_id = ''b'', address = ''b:1'', healthy = True\<rparr>])"
proof (rule locate_after_removal)
  show "locate (\<lambda>s. of_nat (length s)) two_node_ring ''key'' 1 =
      Some [\<lparr>node_id = ''b'', address = ''b:1'', healthy = True\<rparr>]"
    by (subst locate_all_healthy) (simp_all add: two_node_ring_def clockwise_replicas_def clockwise_def start_pos_def lower_bound_def)
qed (simp_all add: ring_ok_def two_node_ring_def)

end
