(* ===== verification/Node_Client.thy ===== *)
theory Node_Client
  imports Http Chunk_Store Hash_Ring
begin

text \<open>
  \<^verbatim>\<open>src/cluster/node_client.cpp\<close>: the calls to other nodes, each one HTTP request over the
  \<open>network\<close> of theory \<^verbatim>\<open>Http\<close>, and the address syntax of the configuration. An address whose
  port is not a number makes the call throw.
\<close>

section \<open>The implementation\<close>

text \<open>\<^verbatim>\<open>s.rfind(c)\<close>.\<close>

definition rfind_char :: "char \<Rightarrow> string \<Rightarrow> nat option" where
  "rfind_char c s = map_option (\<lambda>i. length s - 1 - i) (find_char c (rev s))"

definition split_address :: "string \<Rightarrow> (string \<times> int) outcome" where
  "split_address addr =
     (case rfind_char CHR '':'' addr of
        None \<Rightarrow> Ret (addr, 8080)
      | Some colon \<Rightarrow> obind (stoi (drop (Suc colon) addr)) (\<lambda>port. Ret (take colon addr, port)))"

definition parse_node :: "string \<Rightarrow> storage_node" where
  "parse_node spec =
     (case find_char CHR ''='' spec of
        None \<Rightarrow> \<lparr>node_id = spec, address = spec, healthy = True\<rparr>
      | Some eq \<Rightarrow> \<lparr>node_id = take eq spec, address = drop (Suc eq) spec, healthy = True\<rparr>)"

definition call :: "'w network \<Rightarrow> storage_node \<Rightarrow> HttpRequest \<Rightarrow> 'w \<Rightarrow> HttpResponse result outcome \<times> 'w" where
  "call net node req w =
     (case split_address (address node) of
        Ret (host, port) \<Rightarrow> (let (resp, w') = http_request net host port req w in (Ret resp, w'))
      | Throw e \<Rightarrow> (Throw e, w)
      | Undefined \<Rightarrow> (Undefined, w))"

definition chunk_request :: "string \<Rightarrow> string \<Rightarrow> string \<Rightarrow> HttpRequest" where
  "chunk_request token m checksum =
     \<lparr>req_method = m, path = ''/v1/chunks/'' @ checksum, headers = [(''Authorization'', ''Bearer '' @ token)], body = []\<rparr>"

definition put_chunk :: "'w network \<Rightarrow> string \<Rightarrow> storage_node \<Rightarrow> chunk_ref \<Rightarrow> bytes \<Rightarrow> 'w \<Rightarrow> unit result outcome \<times> 'w" where
  "put_chunk net token node ref bs w =
     (let req = (chunk_request token ''PUT'' (ref_checksum ref))
            \<lparr>headers := [(''Authorization'', ''Bearer '' @ token), (''X-Chunk-Size'', to_string (unat (ref_size ref)))], body := bs\<rparr>
      in sbind (call net node req w) (\<lambda>resp w'. (Ret (case resp of
             Error e \<Rightarrow> Error e
           | Value r \<Rightarrow> if status r \<ge> 300 then Error (Unavailable (''remote chunk put failed on '' @ node_id node)) else Value ()), w')) id)"

definition get_chunk :: "'w network \<Rightarrow> string \<Rightarrow> storage_node \<Rightarrow> string \<Rightarrow> 'w \<Rightarrow> bytes result outcome \<times> 'w" where
  "get_chunk net token node checksum w =
     sbind (call net node (chunk_request token ''GET'' checksum) w) (\<lambda>resp w'. (Ret (case resp of
         Error e \<Rightarrow> Error e
       | Value r \<Rightarrow> if status r \<ge> 300 then Error (NotFound (''remote chunk not found on '' @ node_id node)) else Value (resp_body r)), w')) id"

definition delete_chunk :: "'w network \<Rightarrow> string \<Rightarrow> storage_node \<Rightarrow> string \<Rightarrow> 'w \<Rightarrow> unit result outcome \<times> 'w" where
  "delete_chunk net token node checksum w =
     sbind (call net node (chunk_request token ''DELETE'' checksum) w) (\<lambda>resp w'. (Ret (case resp of
         Error e \<Rightarrow> Error e
       | Value r \<Rightarrow> if status r \<ge> 300 then Error (Unavailable (''remote chunk delete failed on '' @ node_id node)) else Value ()), w')) id"

definition send_heartbeat :: "'w network \<Rightarrow> string \<Rightarrow> storage_node \<Rightarrow> string \<Rightarrow> 'w \<Rightarrow> unit result outcome \<times> 'w" where
  "send_heartbeat net token node from_node_id w =
     (let req = \<lparr>req_method = ''POST'', path = ''/v1/heartbeat'', headers = [(''Authorization'', ''Bearer '' @ token)],
                 body = string_bytes from_node_id\<rparr>
      in sbind (call net node req w) (\<lambda>resp w'. (Ret (case resp of
             Error e \<Rightarrow> Error e
           | Value r \<Rightarrow> if status r \<ge> 300 then Error (Unavailable (''heartbeat failed on '' @ node_id node)) else Value ()), w')) id)"

section \<open>Addresses\<close>

lemma split_address_port:
  assumes "CHR '':'' \<notin> set (to_string port)" "port < 2 ^ 31"
  shows "split_address (host @ CHR '':'' # to_string port) = Ret (host, int port)"
proof -
  have "find_char CHR '':'' (rev (host @ CHR '':'' # to_string port)) = Some (length (to_string port))"
    using find_char_append [of "CHR '':''" "rev (to_string port)" "rev host"] assms(1) by simp
  then have "rfind_char CHR '':'' (host @ CHR '':'' # to_string port) = Some (length host)" by (simp add: rfind_char_def)
  then show ?thesis using assms(2) by (simp add: split_address_def)
qed

lemma colon_not_digit: "CHR '':'' \<notin> set (to_string n)"
  using to_string_digits [of "CHR '':''" n] by (auto simp: isdigit_def)

text \<open>An address from which a host and a port can be read.\<close>

definition address_ok :: "string \<Rightarrow> bool" where
  "address_ok addr \<longleftrightarrow> (case split_address addr of Ret _ \<Rightarrow> True | _ \<Rightarrow> False)"

lemma address_ok_host_port: "port < 2 ^ 31 \<Longrightarrow> address_ok (host @ CHR '':'' # to_string port)"
  by (simp add: address_ok_def split_address_port colon_not_digit)

lemma call_returns: "address_ok (address node) \<Longrightarrow> \<exists>r w'. call net node req w = (Ret r, w')"
  by (auto simp: address_ok_def call_def split: outcome.splits prod.splits)

lemma sbind_returns: "\<exists>r s. m = (Ret r, s) \<Longrightarrow> \<exists>r s. sbind m (\<lambda>x s. (Ret (f x), s)) id = (Ret r, s)"
  by auto

lemma client_returns:
  assumes "address_ok (address node)"
  shows "\<exists>r w'. put_chunk net token node ref bs w = (Ret r, w')" "\<exists>r w'. get_chunk net token node checksum w = (Ret r, w')"
    "\<exists>r w'. delete_chunk net token node checksum w = (Ret r, w')"
  unfolding put_chunk_def get_chunk_def delete_chunk_def Let_def
  by (rule sbind_returns, rule call_returns [OF assms])+

section \<open>Properties\<close>

text \<open>A node written as \<^verbatim>\<open>id=host:port\<close> is read back as that identifier, host and port, also
  when the host contains colons; a call to it never throws.\<close>

theorem parse_node_address:
  fixes i host :: string and port :: nat
  assumes "CHR ''='' \<notin> set i" "port < 2 ^ 31"
  defines "n \<equiv> parse_node (i @ CHR ''='' # host @ CHR '':'' # to_string port)"
  shows "node_id n = i \<and> healthy n \<and> split_address (address n) = Ret (host, int port) \<and>
    (\<exists>r w'. call net n req w = (Ret r, w'))"
proof -
  have n: "node_id n = i" "healthy n" "address n = host @ CHR '':'' # to_string port"
    using find_char_append [OF assms(1), of "host @ CHR '':'' # to_string port"] by (simp_all add: n_def parse_node_def)
  then show ?thesis using call_returns [of n] address_ok_host_port [OF assms(2)] split_address_port [OF colon_not_digit assms(2)] by simp
qed

theorem parse_node_address_witness:
  "node_id (parse_node ''n1=10.0.0.1:80'') = ''n1'' \<and> split_address (address (parse_node ''n1=10.0.0.1:80'')) = Ret (''10.0.0.1'', 80)"
proof -
  have "to_string 80 = ''80''" by code_simp
  then show ?thesis using parse_node_address [of "''n1''" 80 "''10.0.0.1''" "\<lambda>h p m w. (No_host, w)" _ "()"] by simp
qed

text \<open>A reply without a readable status counts as an acknowledgement: when a node answers with
  an empty status line, the put is reported as done.\<close>

theorem garbled_reply_acknowledges:
  assumes "split_address (address node) = Ret (host, port)" "\<And>msg. net host port msg w = (Reply (crlf @ crlf), w')"
  shows "put_chunk net token node ref bs w = (Ret (Value ()), w')"
proof -
  have "parse_response (crlf @ crlf) = Value \<lparr>status = 200, content_type = ''application/json'', resp_body = []\<rparr>" by code_simp
  then show ?thesis by (simp add: put_chunk_def call_def http_request_def assms Let_def)
qed

theorem garbled_reply_acknowledges_witness:
  "put_chunk (\<lambda>host port msg w. (Reply (crlf @ crlf), w)) ''t'' (parse_node ''n1=h'') \<lparr>ref_checksum = ''ab'', ref_size = 1\<rparr> [1] () = (Ret (Value ()), ())"
  by (rule garbled_reply_acknowledges [where host = "''h''" and port = 8080]) (code_simp, simp)

end
