(* ===== verification/Hinted_Handoff.thy ===== *)
theory Hinted_Handoff
  imports Codec Chunk_Store Hash_Ring
begin

text \<open>
  \<^verbatim>\<open>src/cluster/hinted_handoff.cpp\<close>: the text file of chunks that could not be sent to a
  replica, one line per hint. The queue is the content of its file, \<open>None\<close> when there is no
  file. The operating system's answers are a \<^typ>\<open>put_env\<close> as for chunks, of which no rename is
  used. Each operation holds the queue's lock; what happens between two of them is up to the
  caller.
\<close>

section \<open>The implementation\<close>

record handoff_hint =
  target_node_id :: string
  target_address :: string
  hint_checksum :: string
  hint_size :: u64

type_synonym queue = "string option"

definition hint_line :: "handoff_hint \<Rightarrow> string" where
  "hint_line h = target_node_id h @ [tab] @ target_address h @ [tab] @ hint_checksum h @ [tab] @ to_string (unat (hint_size h))"

definition hint_of :: "storage_node \<Rightarrow> chunk_ref \<Rightarrow> handoff_hint" where
  "hint_of target chunk = \<lparr>target_node_id = node_id target, target_address = address target,
     hint_checksum = ref_checksum chunk, hint_size = ref_size chunk\<rparr>"

definition enqueue :: "put_env \<Rightarrow> queue \<Rightarrow> storage_node \<Rightarrow> chunk_ref \<Rightarrow> unit result outcome \<times> queue" where
  "enqueue env q target chunk =
     (if \<not> mkdir_ok env then (Throw filesystem_error, q)
      else if \<not> open_ok env then (Ret (Error (Internal ''failed to open hinted handoff queue'')), q)
      else let line = hint_line (hint_of target chunk) @ [newline];
               written = (case flushed env of None \<Rightarrow> line | Some k \<Rightarrow> take k line);
               q' = Some ((case q of None \<Rightarrow> [] | Some t \<Rightarrow> t) @ written)
        in (Ret (if write_ok env then Value () else Error (Internal ''failed to append hinted handoff queue'')), q'))"

definition parse_hint :: "string \<Rightarrow> handoff_hint option" where
  "parse_hint line =
     (let (i, r1) = extract_word line; (a, r2) = extract_word r1; (c, r3) = extract_word r2
      in if i \<noteq> [] \<and> c \<noteq> []
         then Some \<lparr>target_node_id = i, target_address = a, hint_checksum = c, hint_size = extract_u64 r3\<rparr> else None)"

definition load :: "queue \<Rightarrow> handoff_hint list result" where
  "load q = (case q of None \<Rightarrow> Value [] | Some t \<Rightarrow> Value (List.map_filter parse_hint (getlines t)))"

definition replace :: "put_env \<Rightarrow> queue \<Rightarrow> handoff_hint list \<Rightarrow> unit result outcome \<times> queue" where
  "replace env q hints =
     (if \<not> mkdir_ok env then (Throw filesystem_error, q)
      else if \<not> open_ok env then (Ret (Error (Internal ''failed to rewrite hinted handoff queue'')), q)
      else let all = concat (map (\<lambda>h. hint_line h @ [newline]) hints)
        in (Ret (Value ()), Some (case flushed env of None \<Rightarrow> all | Some k \<Rightarrow> take k all)))"

section \<open>The line format\<close>

definition plain_hint :: "handoff_hint \<Rightarrow> bool" where
  "plain_hint h \<longleftrightarrow> plain_word (target_node_id h) \<and> plain_word (target_address h) \<and> plain_word (hint_checksum h)"

lemma parse_hint_line: "plain_hint h \<Longrightarrow> parse_hint (hint_line h) = Some h"
proof -
  assume h: "plain_hint h"
  then have "target_node_id h \<noteq> []" "hint_checksum h \<noteq> []" by (auto simp: plain_hint_def plain_word_def)
  with h show ?thesis
    by (simp add: parse_hint_def hint_line_def plain_hint_def extract_word_append extract_word_space
        extract_u64_space unat_u64_less [simplified])
qed

interpretation hints: line_codec hint_line parse_hint plain_hint
proof
  show "parse_hint (hint_line h) = Some h" if "plain_hint h" for h by (rule parse_hint_line [OF that])
  show "newline \<notin> set (hint_line h)" if "plain_hint h" for h
    using that plain_word_no_sep(2) plain_word_no_sep(2) [OF plain_word_to_string]
    by (auto simp: hint_line_def plain_hint_def)
qed

definition queue_text :: "handoff_hint list \<Rightarrow> string" where
  "queue_text hs = concat (map (\<lambda>h. hint_line h @ [newline]) hs)"

lemma load_queue_text: "\<forall>h \<in> set hs. plain_hint h \<Longrightarrow> load (Some (queue_text hs)) = Value hs"
proof -
  assume hs: "\<forall>h \<in> set hs. plain_hint h"
  then have "getlines (queue_text hs) = map hint_line hs"
    using hints.file_lines [of hs "[]"] by (simp add: queue_text_def)
  moreover have "List.map_filter parse_hint (map hint_line hs) = hs"
    using hs by (induction hs) (simp_all add: map_filter_simps parse_hint_line)
  ultimately show ?thesis by (simp add: load_def)
qed

section \<open>Properties\<close>

text \<open>The queue after calls of \<^verbatim>\<open>enqueue\<close> without an error of the file system.\<close>

definition enqueue_all :: "queue \<Rightarrow> (storage_node \<times> chunk_ref) list \<Rightarrow> queue" where
  "enqueue_all q ts = foldl (\<lambda>q (t, c). snd (enqueue calm q t c)) q ts"

lemma enqueue_all_text:
  "enqueue_all (Some (queue_text hs)) ts = Some (queue_text (hs @ map (\<lambda>(t, c). hint_of t c) ts))"
proof (induction ts arbitrary: hs)
  case (Cons tc ts)
  obtain t c where tc: "tc = (t, c)" by (cases tc)
  have "snd (enqueue calm (Some (queue_text hs)) t c) = Some (queue_text (hs @ [hint_of t c]))"
    by (simp add: enqueue_def calm_def queue_text_def)
  then show ?case using Cons [of "hs @ [hint_of t c]"] by (simp add: enqueue_all_def tc)
qed (simp add: enqueue_all_def)

lemma enqueue_all_absent: "load (enqueue_all None ts) = load (enqueue_all (Some (queue_text [])) ts)"
proof (cases ts)
  case (Cons tc ts')
  then show ?thesis by (simp add: enqueue_all_def enqueue_def queue_text_def calm_def split: prod.splits)
qed (simp add: enqueue_all_def load_def queue_text_def map_filter_simps)

lemma replace_text: "snd (replace calm q hs) = Some (queue_text hs)"
  by (simp add: replace_def calm_def queue_text_def)

text \<open>While no error of the file system occurs and no name contains white space, the queue loads
  as the hints it was last replaced with, none for a new queue, followed by those enqueued since,
  in their order.\<close>

theorem handoff_roundtrip:
  assumes "\<forall>(t, c) \<in> set ts. plain_hint (hint_of t c)" "\<forall>h \<in> set hs. plain_hint h"
  shows "load (enqueue_all (snd (replace calm q hs)) ts) = Value (hs @ map (\<lambda>(t, c). hint_of t c) ts) \<and>
    load (enqueue_all None ts) = Value (map (\<lambda>(t, c). hint_of t c) ts)"
proof -
  have all: "\<forall>h \<in> set (hs @ map (\<lambda>(t, c). hint_of t c) ts). plain_hint h"
    using assms by (auto split: prod.splits)
  have "load (enqueue_all (snd (replace calm q hs)) ts) = Value (hs @ map (\<lambda>(t, c). hint_of t c) ts)"
    unfolding replace_text enqueue_all_text by (rule load_queue_text [OF all])
  moreover have "load (enqueue_all None ts) = Value (map (\<lambda>(t, c). hint_of t c) ts)"
    using load_queue_text [of "map (\<lambda>(t, c). hint_of t c) ts"] all by (simp add: enqueue_all_absent enqueue_all_text)
  ultimately show ?thesis ..
qed

definition hint_target :: storage_node where
  "hint_target = \<lparr>node_id = ''n2'', address = ''n2:8080'', healthy = True\<rparr>"

theorem handoff_roundtrip_witness:
  "load (enqueue_all None [(hint_target, \<lparr>ref_checksum = ''ab'', ref_size = 7\<rparr>)]) =
     Value [\<lparr>target_node_id = ''n2'', target_address = ''n2:8080'', hint_checksum = ''ab'', hint_size = 7\<rparr>]"
proof -
  have "plain_hint (hint_of hint_target \<lparr>ref_checksum = ''ab'', ref_size = 7\<rparr>)"
    by (simp add: plain_hint_def hint_of_def hint_target_def plain_word_def isspace_def)
  then show ?thesis
    using handoff_roundtrip [of "[(hint_target, \<lparr>ref_checksum = ''ab'', ref_size = 7\<rparr>)]" "[]"]
    by (simp add: hint_of_def hint_target_def)
qed

text \<open>Loading, delivering and rewriting the queue are separate calls, so a hint that is enqueued
  between them is lost: the rewritten queue holds only what the replay decided to keep.\<close>

theorem concurrent_hint_lost:
  assumes "\<forall>h \<in> set kept. plain_hint h" "hint_of t c \<notin> set kept"
  shows "\<exists>hs. load (snd (replace calm (snd (enqueue env q t c)) kept)) = Value hs \<and> hint_of t c \<notin> set hs"
  using assms by (simp add: replace_text load_queue_text)

theorem concurrent_hint_lost_witness:
  "\<exists>hs. load (snd (replace calm (snd (enqueue calm None hint_target \<lparr>ref_checksum = ''ab'', ref_size = 7\<rparr>)) [])) = Value hs \<and>
     hint_of hint_target \<lparr>ref_checksum = ''ab'', ref_size = 7\<rparr> \<notin> set hs"
  by (rule concurrent_hint_lost) simp_all

end
