(* ===== verification/Cluster_State.thy ===== *)
theory Cluster_State
  imports Hash_Ring Status_Result "HOL-Library.AList" "HOL-Library.Multiset" "HOL-Library.List_Lexorder" "HOL-Library.Char_ord"
begin

text \<open>
  \<^verbatim>\<open>src/storage/replication.cpp\<close>: the table of known nodes with the time of their last
  heartbeat, the leader choice, and the replica plans. The unordered map \<^verbatim>\<open>nodes_\<close> is an
  association list; the order in which C++ iterates over it is unspecified, so \<open>iter\<close>, which
  gives the entries in iteration order, is an argument of every operation that iterates, and
  \<open>iteration_order\<close> says that it only reorders. Times are nanoseconds of the steady clock,
  timeouts are seconds.

  A heartbeat writes \<^verbatim>\<open>nodes_[node.id] = NodeState{std::move(node), ...}\<close>. The right operand of an
  assignment is evaluated before the left one, so \<^verbatim>\<open>node.id\<close> is read after the node was moved
  into the new entry, and the key is what the move left behind. The language only says that this
  is a valid string, so it is an argument, \<open>moved\<close>: the content of a string after its content was
  moved out. The common libraries leave the empty string.

  A plan is \<open>None\<close> when the ring walk does not return.
\<close>

section \<open>The implementation\<close>

record node_state =
  ns_node :: storage_node
  last_seen :: int

type_synonym cluster = "(string \<times> node_state) list"

record replica_plan =
  targets :: "storage_node list"
  quorum :: int

definition heartbeat :: "(string \<Rightarrow> string) \<Rightarrow> int \<Rightarrow> storage_node \<Rightarrow> cluster \<Rightarrow> cluster" where
  "heartbeat moved now node c =
     (let state = \<lparr>ns_node = node, last_seen = now\<rparr>;
          node = node\<lparr>node_id := moved (node_id node), address := moved (address node)\<rparr>
      in AList.update (node_id node) state c)"

definition known_nodes :: "(cluster \<Rightarrow> cluster) \<Rightarrow> cluster \<Rightarrow> storage_node list" where
  "known_nodes iter c = map (\<lambda>(_, s). ns_node s) (iter c)"

fun healthy_loop :: "int \<Rightarrow> int \<Rightarrow> cluster \<Rightarrow> storage_node list" where
  "healthy_loop now timeout [] = []"
| "healthy_loop now timeout ((_, s) # rest) =
     (let node = (ns_node s)\<lparr>healthy := (now - last_seen s \<le> timeout * 1000000000)\<rparr>
      in if healthy node then node # healthy_loop now timeout rest else healthy_loop now timeout rest)"

definition healthy_nodes :: "(cluster \<Rightarrow> cluster) \<Rightarrow> int \<Rightarrow> int \<Rightarrow> cluster \<Rightarrow> storage_node list" where
  "healthy_nodes iter now timeout c = healthy_loop now timeout (iter c)"

definition elect_leader :: "(cluster \<Rightarrow> cluster) \<Rightarrow> int \<Rightarrow> int \<Rightarrow> cluster \<Rightarrow> storage_node result" where
  "elect_leader iter now timeout c =
     (case sort_key node_id (healthy_nodes iter now timeout c) of
        [] \<Rightarrow> Error (Unavailable ''no healthy nodes available for leader election'')
      | n # _ \<Rightarrow> Value n)"

definition build_ring :: "(string \<Rightarrow> u64) \<Rightarrow> storage_node list \<Rightarrow> ring" where
  "build_ring hash64 ns = foldl (add_node hash64 128) [] ns"

definition write_plan :: "(string \<Rightarrow> u64) \<Rightarrow> (cluster \<Rightarrow> cluster) \<Rightarrow> cluster \<Rightarrow> string \<Rightarrow> int \<Rightarrow> int \<Rightarrow> replica_plan option" where
  "write_plan hash64 iter c chunk_id replicas q =
     map_option (\<lambda>ts. \<lparr>targets = ts, quorum = q\<rparr>) (locate hash64 (build_ring hash64 (known_nodes iter c)) chunk_id replicas)"

definition read_plan :: "(string \<Rightarrow> u64) \<Rightarrow> (cluster \<Rightarrow> cluster) \<Rightarrow> cluster \<Rightarrow> string \<Rightarrow> int \<Rightarrow> int \<Rightarrow> replica_plan option" where
  "read_plan hash64 iter c chunk_id replicas q = write_plan hash64 iter c chunk_id replicas q"

definition migration_targets :: "(string \<Rightarrow> u64) \<Rightarrow> (cluster \<Rightarrow> cluster) \<Rightarrow> cluster \<Rightarrow> string \<Rightarrow> int \<Rightarrow> storage_node list option" where
  "migration_targets hash64 iter c chunk_id replicas =
     map_option targets (write_plan hash64 iter c chunk_id replicas replicas)"

definition iteration_order :: "(cluster \<Rightarrow> cluster) \<Rightarrow> bool" where
  "iteration_order iter \<longleftrightarrow> (\<forall>c. mset (iter c) = mset c)"

section \<open>The table\<close>

text \<open>Every entry stands under the key that its node leaves behind, and no key is used twice: then
  no two entries are about the same node, whatever \<open>moved\<close> is.\<close>

definition cluster_wf :: "(string \<Rightarrow> string) \<Rightarrow> cluster \<Rightarrow> bool" where
  "cluster_wf moved c \<longleftrightarrow> distinct (map fst c) \<and> (\<forall>(k, s) \<in> set c. k = moved (node_id (ns_node s)))"

definition members_healthy :: "cluster \<Rightarrow> bool" where
  "members_healthy c \<longleftrightarrow> (\<forall>(k, s) \<in> set c. healthy (ns_node s))"

lemma heartbeat_update:
  "heartbeat moved now node c = AList.update (moved (node_id node)) \<lparr>ns_node = node, last_seen = now\<rparr> c"
  by (simp add: heartbeat_def)

lemma set_AList_update: "set (AList.update k v c) \<subseteq> insert (k, v) (set c)"
  by (induction c) auto

lemma set_heartbeat:
  "set (heartbeat moved now node c) \<subseteq> insert (moved (node_id node), \<lparr>ns_node = node, last_seen = now\<rparr>) (set c)"
  unfolding heartbeat_update by (rule set_AList_update)

lemma heartbeat_distinct: "distinct (map fst c) \<Longrightarrow> distinct (map fst (heartbeat moved now node c))"
  by (simp add: heartbeat_update distinct_update)

lemma heartbeat_wf: "cluster_wf moved c \<Longrightarrow> cluster_wf moved (heartbeat moved now node c)"
  using set_heartbeat [of moved now node c] heartbeat_distinct [of c moved now node] by (auto simp: cluster_wf_def)

lemma heartbeat_lookup:
  "map_of (heartbeat moved now node c) k =
     (if k = moved (node_id node) then Some \<lparr>ns_node = node, last_seen = now\<rparr> else map_of c k)"
  by (simp add: heartbeat_update update_conv')

lemma heartbeat_keys: "fst ` set (heartbeat moved now node c) = insert (moved (node_id node)) (fst ` set c)"
  by (simp add: heartbeat_update dom_update)

lemma wf_entries_unique:
  assumes "cluster_wf moved c" "(k, s) \<in> set c" "(k', s') \<in> set c" "node_id (ns_node s) = node_id (ns_node s')"
  shows "k = k' \<and> s = s'"
proof -
  have "k = moved (node_id (ns_node s))" "k' = moved (node_id (ns_node s'))" using assms(1-3) by (auto simp: cluster_wf_def)
  then have "k = k'" using assms(4) by simp
  moreover from this have "s = s'" using assms(1-3) by (auto simp: cluster_wf_def dest: eq_key_imp_eq_value)
  ultimately show ?thesis by simp
qed

lemma set_iter [simp]: "iteration_order iter \<Longrightarrow> set (iter c) = set c"
  by (metis iteration_order_def set_mset_mset)

lemma set_known_nodes: "iteration_order iter \<Longrightarrow> set (known_nodes iter c) = (\<lambda>(_, s). ns_node s) ` set c"
  by (simp add: known_nodes_def)

lemma card_member_ids:
  assumes "cluster_wf moved c"
  shows "card ((\<lambda>(_, s). node_id (ns_node s)) ` set c) = length c"
proof -
  have "inj_on (\<lambda>(_, s). node_id (ns_node s)) (set c)"
    using wf_entries_unique [OF assms] by (auto intro!: inj_onI)
  moreover have "distinct c" using assms by (simp add: cluster_wf_def distinct_map)
  ultimately show ?thesis by (simp add: card_image distinct_card)
qed

section \<open>Leader choice\<close>

lemma healthy_loop_eq:
  "healthy_loop now timeout c =
     map (\<lambda>(_, s). (ns_node s)\<lparr>healthy := True\<rparr>) (filter (\<lambda>(_, s). now - last_seen s \<le> timeout * 1000000000) c)"
  by (induction now timeout c rule: healthy_loop.induct) (auto simp: Let_def)

definition fresh_nodes :: "int \<Rightarrow> int \<Rightarrow> cluster \<Rightarrow> storage_node set" where
  "fresh_nodes now timeout c = {(ns_node s)\<lparr>healthy := True\<rparr> | k s. (k, s) \<in> set c \<and> now - last_seen s \<le> timeout * 1000000000}"

lemma set_healthy_nodes: "iteration_order iter \<Longrightarrow> set (healthy_nodes iter now timeout c) = fresh_nodes now timeout c"
  by (force simp: healthy_nodes_def healthy_loop_eq fresh_nodes_def)

lemma fresh_nodes_unique:
  assumes "cluster_wf moved c" "m \<in> fresh_nodes now timeout c" "n \<in> fresh_nodes now timeout c" "node_id m = node_id n"
  shows "m = n"
proof -
  obtain k s where s: "m = (ns_node s)\<lparr>healthy := True\<rparr>" "(k, s) \<in> set c" using assms(2) by (auto simp: fresh_nodes_def)
  obtain k' s' where s': "n = (ns_node s')\<lparr>healthy := True\<rparr>" "(k', s') \<in> set c" using assms(3) by (auto simp: fresh_nodes_def)
  have "s = s'" using wf_entries_unique [OF assms(1) s(2) s'(2)] s(1) s'(1) assms(4) by simp
  then show ?thesis using s s' by simp
qed

lemma elect_leader_least:
  assumes "iteration_order iter" "cluster_wf moved c"
  shows "elect_leader iter now timeout c = Value n \<longleftrightarrow>
    n \<in> fresh_nodes now timeout c \<and> (\<forall>m \<in> fresh_nodes now timeout c. node_id n \<le> node_id m)"
proof -
  let ?h = "healthy_nodes iter now timeout c"
  have s: "set (sort_key node_id ?h) = fresh_nodes now timeout c" by (simp add: set_healthy_nodes [OF assms(1)])
  show ?thesis
  proof (cases "sort_key node_id ?h")
    case Nil
    then show ?thesis using s by (simp add: elect_leader_def)
  next
    case (Cons x xs)
    then have x: "x \<in> fresh_nodes now timeout c" using s by auto
    have "sorted (map node_id (x # xs))" using sorted_sort_key [of node_id ?h] Cons by simp
    then have least: "\<forall>m \<in> fresh_nodes now timeout c. node_id x \<le> node_id m" using s Cons by auto
    have "elect_leader iter now timeout c = Value x" by (simp add: elect_leader_def Cons)
    moreover have "n = x" if "n \<in> fresh_nodes now timeout c" "\<forall>m \<in> fresh_nodes now timeout c. node_id n \<le> node_id m"
      using that x least fresh_nodes_unique [OF assms(2)] by (meson order_antisym)
    ultimately show ?thesis using x least by auto
  qed
qed

lemma elect_leader_none:
  assumes "iteration_order iter"
  shows "elect_leader iter now timeout c = Error (Unavailable ''no healthy nodes available for leader election'') \<longleftrightarrow>
    fresh_nodes now timeout c = {}"
proof -
  have "sort_key node_id (healthy_nodes iter now timeout c) = [] \<longleftrightarrow> fresh_nodes now timeout c = {}"
    using set_healthy_nodes [OF assms, of now timeout c] by (metis set_empty set_sort)
  then show ?thesis by (auto simp: elect_leader_def split: list.splits)
qed

section \<open>The ring of the known nodes\<close>

lemma map_of_add_node:
  assumes "ring_ok r"
  shows "map_of (add_node hash64 vn r node) h =
    (if \<exists>i < nat vn. h = hash64 (vnode_label (node_id node) i) then Some node else map_of r h)"
proof -
  have "ring_ok (foldl (\<lambda>r i. map_put (g i) node r) r [0..<k]) \<and>
    map_of (foldl (\<lambda>r i. map_put (g i) node r) r [0..<k]) h = (if \<exists>i < k. h = g i then Some node else map_of r h)" for g k
    by (induction k) (use assms in \<open>auto simp: ring_ok_def sorted_map_put map_of_map_put less_Suc_eq\<close>)
  then show ?thesis by (simp add: add_node_def)
qed

lemma build_ring_snoc: "build_ring hash64 (ns @ [n]) = add_node hash64 128 (build_ring hash64 ns) n"
  by (simp add: build_ring_def)

lemma build_ring_ok: "ring_ok (build_ring hash64 ns)"
proof (induction ns rule: rev_induct)
  case Nil
  then show ?case by (simp add: build_ring_def ring_ok_def)
qed (simp add: build_ring_snoc ring_ok_add_node)

lemma ring_lookup: "ring_ok r \<Longrightarrow> (h, n) \<in> set r \<longleftrightarrow> map_of r h = Some n"
  unfolding ring_ok_def by (metis map_of_eq_Some_iff strict_sorted_iff)

lemma build_ring_nodes: "snd ` set (build_ring hash64 ns) \<subseteq> set ns"
proof (induction ns rule: rev_induct)
  case Nil
  then show ?case by (simp add: build_ring_def)
next
  case (snoc n ns)
  have "m = n \<or> m \<in> set ns" if "(h, m) \<in> set (build_ring hash64 (ns @ [n]))" for h m
  proof -
    have "map_of (build_ring hash64 (ns @ [n])) h = Some m"
      using that ring_lookup [OF build_ring_ok] by blast
    then have "m = n \<or> map_of (build_ring hash64 ns) h = Some m"
      by (auto simp: build_ring_snoc map_of_add_node [OF build_ring_ok] split: if_splits)
    then show ?thesis using snoc.IH ring_lookup [OF build_ring_ok, of h m hash64 ns] by force
  qed
  then show ?case by fastforce
qed

text \<open>No label of one node collides with a label of another.\<close>

definition no_collisions :: "(string \<Rightarrow> u64) \<Rightarrow> string set \<Rightarrow> bool" where
  "no_collisions hash64 ids \<longleftrightarrow> (\<forall>a \<in> ids. \<forall>b \<in> ids. \<forall>i < 128. \<forall>j < 128.
     hash64 (vnode_label a i) = hash64 (vnode_label b j) \<longrightarrow> a = b)"

lemma build_ring_slot:
  assumes "no_collisions hash64 (node_id ` set ns)" "a \<in> node_id ` set ns" "i < 128"
  shows "\<exists>m. map_of (build_ring hash64 ns) (hash64 (vnode_label a i)) = Some m \<and> node_id m = a"
  using assms(1,2)
proof (induction ns rule: rev_induct)
  case (snoc n ns)
  show ?case
  proof (cases "a = node_id n")
    case True
    then show ?thesis using assms(3) by (auto simp: build_ring_snoc map_of_add_node [OF build_ring_ok])
  next
    case False
    then have a: "a \<in> node_id ` set ns" using snoc.prems(2) by auto
    have "no_collisions hash64 (node_id ` set ns)" using snoc.prems(1) by (simp add: no_collisions_def)
    from snoc.IH [OF this a] obtain m where "map_of (build_ring hash64 ns) (hash64 (vnode_label a i)) = Some m" "node_id m = a"
      by blast
    moreover have "\<not> (\<exists>j < nat 128. hash64 (vnode_label a i) = hash64 (vnode_label (node_id n) j))"
      using snoc.prems(1) False a assms(3) by (auto simp: no_collisions_def)
    ultimately show ?thesis by (auto simp: build_ring_snoc map_of_add_node [OF build_ring_ok])
  qed
qed simp

lemma build_ring_ids:
  assumes "no_collisions hash64 (node_id ` set ns)"
  shows "ring_ids (build_ring hash64 ns) = node_id ` set ns"
proof
  show "ring_ids (build_ring hash64 ns) \<subseteq> node_id ` set ns"
    using build_ring_nodes [of hash64 ns] by (auto simp: ring_ids_def)
  show "node_id ` set ns \<subseteq> ring_ids (build_ring hash64 ns)"
  proof
    fix a assume "a \<in> node_id ` set ns"
    from build_ring_slot [OF assms this, of 0] obtain m where
      "map_of (build_ring hash64 ns) (hash64 (vnode_label a 0)) = Some m" "node_id m = a" by auto
    then show "a \<in> ring_ids (build_ring hash64 ns)"
      by (force simp: ring_ids_def dest: map_of_SomeD)
  qed
qed

section \<open>Plans\<close>

lemma plan_ring_healthy:
  assumes "iteration_order iter" "members_healthy c"
  shows "\<forall>p \<in> set (build_ring hash64 (known_nodes iter c)). healthy (snd p)"
  using build_ring_nodes [of hash64 "known_nodes iter c"] assms
  by (fastforce simp: set_known_nodes members_healthy_def)

text \<open>
  The contract of placement that the chunk service relies on: with healthy members a plan is
  always produced, its targets are distinct members, and there are at most as many as
  replicas were asked for.
\<close>

locale planner =
  fixes plan :: "'s \<Rightarrow> string \<Rightarrow> int \<Rightarrow> storage_node list option"
    and members :: "'s \<Rightarrow> storage_node set"
    and usable :: "'s \<Rightarrow> bool"
  assumes plan_total: "usable s \<Longrightarrow> \<exists>ts. plan s key n = Some ts"
    and plan_distinct: "usable s \<Longrightarrow> plan s key n = Some ts \<Longrightarrow> distinct (map node_id ts)"
    and plan_size: "usable s \<Longrightarrow> plan s key n = Some ts \<Longrightarrow> length ts \<le> nat n"
    and plan_members: "usable s \<Longrightarrow> plan s key n = Some ts \<Longrightarrow> set ts \<subseteq> members s"
begin

lemma others_at_most:
  assumes "usable s" "plan s key n = Some ts" "self \<in> node_id ` set ts"
  shows "length (filter (\<lambda>t. node_id t \<noteq> self) ts) + 1 \<le> nat n"
proof -
  obtain t where t: "t \<in> set ts" "node_id t = self" using assms(3) by auto
  then have "length (filter (\<lambda>t. node_id t \<noteq> self) ts) < length ts"
    by (intro length_filter_less) auto
  then show ?thesis using plan_size [OF assms(1,2)] by simp
qed

end

definition plan_targets :: "(string \<Rightarrow> u64) \<Rightarrow> (cluster \<Rightarrow> cluster) \<Rightarrow> cluster \<Rightarrow> string \<Rightarrow> int \<Rightarrow> storage_node list option" where
  "plan_targets hash64 iter c key n = map_option targets (write_plan hash64 iter c key n n)"

lemma write_plan_targets:
  "write_plan hash64 iter c key n q = map_option (\<lambda>ts. \<lparr>targets = ts, quorum = q\<rparr>) (plan_targets hash64 iter c key n)"
  by (simp add: write_plan_def plan_targets_def option.map_comp comp_def)

lemma plan_targets_eq:
  assumes "iteration_order iter" "members_healthy c"
  shows "plan_targets hash64 iter c key n = Some (take (nat n)
    (clockwise_replicas (build_ring hash64 (known_nodes iter c)) (start_pos (hash64 key) (build_ring hash64 (known_nodes iter c)))))"
  by (simp add: plan_targets_def write_plan_def locate_all_healthy [OF plan_ring_healthy [OF assms]])

interpretation placement: planner "\<lambda>(iter, c). plan_targets hash64 iter c" "\<lambda>(iter, c). (\<lambda>(_, s). ns_node s) ` set c"
  "\<lambda>(iter, c). iteration_order iter \<and> members_healthy c" for hash64
proof (unfold_locales, goal_cases)
  case (1 s key n)
  then show ?case by (auto simp: plan_targets_eq)
next
  case (2 s key n ts)
  then show ?case
    by (auto simp: plan_targets_eq take_map [symmetric] clockwise_replicas_distinct)
next
  case (3 s key n ts)
  then show ?case by (auto simp: plan_targets_eq)
next
  case (4 s key n ts)
  obtain iter c where s: "s = (iter, c)" by (cases s)
  let ?r = "build_ring hash64 (known_nodes iter c)"
  have "set ts \<subseteq> snd ` set ?r"
    using 4 clockwise_replicas_subset [of ?r] by (auto simp: s plan_targets_eq dest!: in_set_takeD)
  also have "\<dots> \<subseteq> set (known_nodes iter c)" by (rule build_ring_nodes)
  finally show ?case using 4(1) by (simp add: s set_known_nodes)
qed

lemma plan_targets_nonempty:
  assumes "iteration_order iter" "members_healthy c" "c \<noteq> []" "0 < n"
  shows "\<exists>ts. plan_targets hash64 iter c key n = Some ts \<and> ts \<noteq> []"
proof -
  let ?ns = "known_nodes iter c"
  have "?ns \<noteq> []" using assms(1,3) by (metis image_is_empty list.set(1) set_empty set_known_nodes)
  then obtain ms m where "?ns = ms @ [m]" by (metis append_butlast_last_id)
  then have "map_of (build_ring hash64 ?ns) (hash64 (vnode_label (node_id m) 0)) = Some m"
    using exI [of "\<lambda>i. i < nat 128 \<and> hash64 (vnode_label (node_id m) 0) = hash64 (vnode_label (node_id m) i)" 0]
    by (simp add: build_ring_snoc map_of_add_node [OF build_ring_ok])
  then have "ring_ids (build_ring hash64 ?ns) \<noteq> {}" by (auto simp: ring_ids_def dest: map_of_SomeD)
  then have "card (healthy_ids (build_ring hash64 ?ns)) > 0"
    using all_healthy_ids [OF plan_ring_healthy [OF assms(1,2)]] by (simp add: card_gt_0_iff ring_ids_def)
  then show ?thesis using assms(4)
    by (simp add: plan_targets_eq [OF assms(1,2)]) (metis length_clockwise_replicas length_greater_0_conv)
qed

definition member_ids :: "cluster \<Rightarrow> string set" where
  "member_ids c = (\<lambda>(_, s). node_id (ns_node s)) ` set c"

lemma plan_targets_count:
  assumes "iteration_order iter" "members_healthy c" "cluster_wf moved c" "no_collisions hash64 (member_ids c)"
    "plan_targets hash64 iter c key n = Some ts"
  shows "length ts = min (nat n) (length c)"
proof -
  let ?ns = "known_nodes iter c"
  have ids: "node_id ` set ?ns = member_ids c"
    using assms(1) by (force simp: set_known_nodes member_ids_def)
  have "card (healthy_ids (build_ring hash64 ?ns)) = card (member_ids c)"
    using all_healthy_ids [OF plan_ring_healthy [OF assms(1,2)]] build_ring_ids [of hash64 ?ns] assms(4) ids by simp
  also have "\<dots> = length c" unfolding member_ids_def by (rule card_member_ids [OF assms(3)])
  finally show ?thesis
    using assms(5) by (auto simp: plan_targets_eq [OF assms(1,2)] length_clockwise_replicas)
qed

section \<open>Sequences of heartbeats\<close>

definition after_beats :: "(string \<Rightarrow> string) \<Rightarrow> (int \<times> storage_node) list \<Rightarrow> cluster" where
  "after_beats moved beats = foldl (\<lambda>c (now, node). heartbeat moved now node c) [] beats"

lemma after_beats_snoc: "after_beats moved (beats @ [(now, node)]) = heartbeat moved now node (after_beats moved beats)"
  by (simp add: after_beats_def)

lemma after_beats_wf: "cluster_wf moved (after_beats moved beats)"
proof (induction beats rule: rev_induct)
  case Nil
  then show ?case by (simp add: after_beats_def cluster_wf_def)
next
  case (snoc b beats)
  then show ?case by (cases b) (simp add: after_beats_snoc heartbeat_wf)
qed

lemma heartbeat_single:
  assumes "\<And>k. moved k = []" "fst ` set c \<subseteq> {[]}" "distinct (map fst c)"
  shows "heartbeat moved now node c = [([], \<lparr>ns_node = node, last_seen = now\<rparr>)]"
proof (cases c)
  case (Cons e rest)
  moreover from this have "rest = []" using assms(2,3) by (cases rest) auto
  ultimately show ?thesis using assms(1,2) by (cases e) (simp add: heartbeat_update)
qed (simp add: heartbeat_update assms(1))

lemma after_beats_last:
  assumes "\<And>k. moved k = []"
  shows "after_beats moved (beats @ [(now, node)]) = [([], \<lparr>ns_node = node, last_seen = now\<rparr>)]"
  unfolding after_beats_snoc
  by (rule heartbeat_single [OF assms]) (use after_beats_wf [of moved beats] assms in \<open>auto simp: cluster_wf_def\<close>)

lemma iteration_singleton: "iteration_order iter \<Longrightarrow> iter [x] = [x]"
  unfolding iteration_order_def by (metis mset_single_iff_right mset.simps)

lemma write_plan_single:
  assumes "iteration_order iter" "healthy node"
  shows "write_plan hash64 iter [(k, \<lparr>ns_node = node, last_seen = now\<rparr>)] key n q = Some \<lparr>targets = take (nat n) [node], quorum = q\<rparr>"
proof -
  let ?c = "[(k, \<lparr>ns_node = node, last_seen = now\<rparr>)]"
  have h: "members_healthy ?c" using assms(2) by (simp add: members_healthy_def)
  with assms(1) have u: "case (iter, ?c) of (iter, c) \<Rightarrow> iteration_order iter \<and> members_healthy c" by simp
  obtain ts where ts: "plan_targets hash64 iter ?c key n = Some ts"
    using placement.plan_total [OF u, of hash64 key n] by auto
  have "length ts = min (nat n) (length ?c)"
    by (rule plan_targets_count [OF assms(1) h _ _ ts, where moved = "\<lambda>_. k"])
      (simp_all add: cluster_wf_def no_collisions_def member_ids_def)
  moreover have "set ts \<subseteq> {node}" using placement.plan_members [OF u, of hash64 key n ts] ts by simp
  ultimately have "ts = take (nat n) [node]" by (cases ts; cases "nat n") auto
  then show ?thesis using ts by (simp add: write_plan_targets)
qed

section \<open>Properties\<close>


definition node_a :: storage_node where
  "node_a = \<lparr>node_id = ''a'', address = ''a:1'', healthy = True\<rparr>"

definition node_b :: storage_node where
  "node_b = \<lparr>node_id = ''b'', address = ''b:1'', healthy = True\<rparr>"


text \<open>
  C34: When moving out of a string leaves it empty, the table forgets: after any sequence of
  heartbeats it holds only the node of the last one, whatever nodes were heard before it. That
  node is all that is known, the leader when the heartbeat is recent, and the only target a plan
  can name.
\<close>

theorem heartbeats_collapse:
  fixes now :: int and node :: storage_node and beats :: "(int \<times> storage_node) list"
  assumes "iteration_order iter" and "\<And>k. moved k = []"
  defines "c \<equiv> after_beats moved (beats @ [(now, node)])"
  shows "known_nodes iter c = [node] \<and>
    elect_leader iter t timeout c = (if t - now \<le> timeout * 1000000000 then Value (node\<lparr>healthy := True\<rparr>)
      else Error (Unavailable ''no healthy nodes available for leader election'')) \<and>
    (healthy node \<longrightarrow> write_plan hash64 iter c key n q = Some \<lparr>targets = take (nat n) [node], quorum = q\<rparr>)"
proof (intro conjI impI)
  have c: "c = [([], \<lparr>ns_node = node, last_seen = now\<rparr>)]"
    unfolding c_def by (rule after_beats_last [OF assms(2)])
  have i: "iter c = c" using iteration_singleton [OF assms(1)] by (simp add: c)
  show "known_nodes iter c = [node]" by (simp add: known_nodes_def i) (simp add: c)
  show "elect_leader iter t timeout c = (if t - now \<le> timeout * 1000000000 then Value (node\<lparr>healthy := True\<rparr>)
      else Error (Unavailable ''no healthy nodes available for leader election''))"
    by (simp add: elect_leader_def healthy_nodes_def i) (simp add: c)
  assume "healthy node"
  then show "write_plan hash64 iter c key n q = Some \<lparr>targets = take (nat n) [node], quorum = q\<rparr>"
    unfolding c by (rule write_plan_single [OF assms(1)])
qed

theorem heartbeats_collapse_witness:
  "known_nodes id (after_beats (\<lambda>_. []) ([(0, node_a)] @ [(5, node_b)])) = [node_b] \<and>
   elect_leader id 10 30 (after_beats (\<lambda>_. []) ([(0, node_a)] @ [(5, node_b)])) =
     (if 10 - 5 \<le> (30::int) * 1000000000 then Value (node_b\<lparr>healthy := True\<rparr>)
      else Error (Unavailable ''no healthy nodes available for leader election'')) \<and>
   write_plan (\<lambda>_. 0) id (after_beats (\<lambda>_. []) ([(0, node_a)] @ [(5, node_b)])) ''chunk'' 3 2 =
     Some \<lparr>targets = take (nat 3) [node_b], quorum = 2\<rparr>"
proof -
  have "iteration_order id" "healthy node_b" by (simp_all add: iteration_order_def node_b_def)
  then show ?thesis
    using heartbeats_collapse [of id "\<lambda>_. []" "[(0, node_a)]" 5 node_b 10 30 "\<lambda>_. 0" "''chunk''" 3 2] by blast
qed

text \<open>
  The elected leader is the node with the least identifier among those heard from within
  the timeout, whatever order the table is iterated in; there is a leader exactly when some
  node was heard from in time, and the error is \<^verbatim>\<open>kUnavailable\<close>.
\<close>

theorem elect_leader_least_fresh:
  assumes "iteration_order iter" and "cluster_wf moved c"
  shows "case elect_leader iter now timeout c of
      Value n \<Rightarrow> n \<in> fresh_nodes now timeout c \<and> (\<forall>m \<in> fresh_nodes now timeout c. node_id n \<le> node_id m)
    | Error s \<Rightarrow> code s = kUnavailable \<and> fresh_nodes now timeout c = {}"
proof (cases "elect_leader iter now timeout c")
  case (Value n)
  with elect_leader_least [OF assms, of now timeout n] show ?thesis by simp
next
  case (Error s)
  then have "s = Unavailable ''no healthy nodes available for leader election''"
    by (auto simp: elect_leader_def split: list.splits)
  with Error elect_leader_none [OF assms(1), of now timeout c] show ?thesis by simp
qed

theorem elect_leader_least_fresh_witness:
  "case elect_leader rev 10 30 [(''b'', \<lparr>ns_node = \<lparr>node_id = ''b'', address = ''b:1'', healthy = True\<rparr>, last_seen = 0\<rparr>),
      (''a'', \<lparr>ns_node = \<lparr>node_id = ''a'', address = ''a:1'', healthy = True\<rparr>, last_seen = 5\<rparr>)] of
      Value n \<Rightarrow> n \<in> fresh_nodes 10 30 [(''b'', \<lparr>ns_node = \<lparr>node_id = ''b'', address = ''b:1'', healthy = True\<rparr>, last_seen = 0\<rparr>),
          (''a'', \<lparr>ns_node = \<lparr>node_id = ''a'', address = ''a:1'', healthy = True\<rparr>, last_seen = 5\<rparr>)] \<and>
        (\<forall>m \<in> fresh_nodes 10 30 [(''b'', \<lparr>ns_node = \<lparr>node_id = ''b'', address = ''b:1'', healthy = True\<rparr>, last_seen = 0\<rparr>),
          (''a'', \<lparr>ns_node = \<lparr>node_id = ''a'', address = ''a:1'', healthy = True\<rparr>, last_seen = 5\<rparr>)]. node_id n \<le> node_id m)
    | Error s \<Rightarrow> code s = kUnavailable \<and> fresh_nodes 10 30 [(''b'', \<lparr>ns_node = \<lparr>node_id = ''b'', address = ''b:1'', healthy = True\<rparr>, last_seen = 0\<rparr>),
          (''a'', \<lparr>ns_node = \<lparr>node_id = ''a'', address = ''a:1'', healthy = True\<rparr>, last_seen = 5\<rparr>)] = {}"
  by (rule elect_leader_least_fresh [where moved = id]) (simp_all add: iteration_order_def cluster_wf_def)

end
