(* ===== verification/Chunk_Service.thy ===== *)
theory Chunk_Service
  imports Node_Client Hinted_Handoff Cluster_State "HOL-Library.Sublist"
begin

text \<open>
  \<^verbatim>\<open>src/cluster/distributed_chunk_service.cpp\<close>: storing, reading and removing a chunk across
  its replicas, and replaying the hinted handoff.

  Everything the service meets outside the process is a parameter, \<open>outside\<close>, over a world of
  any type: the network, the answers of the file system, the clock, and the three choices the C++
  library leaves open, its 64-bit string hash, the iteration order of an unordered map and what is
  left of a string whose content was moved out. An
  operation is \<open>None\<close> when its ring walk does not return; otherwise it gives its outcome and the
  service after it, also when it throws.
\<close>

section \<open>The implementation\<close>

record 'w outside =
  o_net :: "'w network"
  o_disk :: "'w \<Rightarrow> put_env \<times> 'w"
  o_remove :: "'w \<Rightarrow> string option \<times> 'w"
  o_clock :: "'w \<Rightarrow> int \<times> 'w"
  o_hash :: "string \<Rightarrow> u64"
  o_iter :: "cluster \<Rightarrow> cluster"
  o_moved :: "string \<Rightarrow> string"

record service_config =
  self :: storage_node
  replication_factor :: int
  write_quorum :: int
  read_quorum :: int
  has_handoff :: bool
  seed_members :: "storage_node list"
  client_token :: string

record 'w service =
  local :: chunk_store
  members :: cluster
  handoff :: queue
  world :: 'w

definition is_self :: "service_config \<Rightarrow> storage_node \<Rightarrow> bool" where
  "is_self cfg node \<longleftrightarrow> node_id node = node_id (self cfg)"

text \<open>The calls of the service's parts, each on its part of the state.\<close>

definition beat :: "'w outside \<Rightarrow> storage_node \<Rightarrow> 'w service \<Rightarrow> 'w service" where
  "beat out node s = (let (now, w) = o_clock out (world s) in s\<lparr>members := heartbeat (o_moved out) now node (members s), world := w\<rparr>)"

definition local_put :: "'w outside \<Rightarrow> bytes \<Rightarrow> 'w service \<Rightarrow> chunk_ref result outcome \<times> 'w service" where
  "local_put out bs s = (let (env, w) = o_disk out (world s); (r, l) = chunk_put env (local s) bs in (r, s\<lparr>local := l, world := w\<rparr>))"

definition local_get :: "string \<Rightarrow> 'w service \<Rightarrow> bytes result outcome \<times> 'w service" where
  "local_get checksum s = (let (r, l) = chunk_get (local s) checksum in (r, s\<lparr>local := l\<rparr>))"

definition local_remove :: "'w outside \<Rightarrow> string \<Rightarrow> 'w service \<Rightarrow> unit result outcome \<times> 'w service" where
  "local_remove out checksum s =
     (let (env, w) = o_remove out (world s); (r, l) = remove_if_unreferenced env (local s) checksum 0
      in (Ret r, s\<lparr>local := l, world := w\<rparr>))"

definition remote_put :: "service_config \<Rightarrow> 'w outside \<Rightarrow> storage_node \<Rightarrow> chunk_ref \<Rightarrow> bytes \<Rightarrow> 'w service \<Rightarrow> unit result outcome \<times> 'w service" where
  "remote_put cfg out node ref bs s = (let (r, w) = put_chunk (o_net out) (client_token cfg) node ref bs (world s) in (r, s\<lparr>world := w\<rparr>))"

definition remote_get :: "service_config \<Rightarrow> 'w outside \<Rightarrow> storage_node \<Rightarrow> string \<Rightarrow> 'w service \<Rightarrow> bytes result outcome \<times> 'w service" where
  "remote_get cfg out node checksum s = (let (r, w) = get_chunk (o_net out) (client_token cfg) node checksum (world s) in (r, s\<lparr>world := w\<rparr>))"

definition remote_delete :: "service_config \<Rightarrow> 'w outside \<Rightarrow> storage_node \<Rightarrow> string \<Rightarrow> 'w service \<Rightarrow> unit result outcome \<times> 'w service" where
  "remote_delete cfg out node checksum s = (let (r, w) = delete_chunk (o_net out) (client_token cfg) node checksum (world s) in (r, s\<lparr>world := w\<rparr>))"

definition add_hint :: "'w outside \<Rightarrow> storage_node \<Rightarrow> chunk_ref \<Rightarrow> 'w service \<Rightarrow> unit result outcome \<times> 'w service" where
  "add_hint out node ref s = (let (env, w) = o_disk out (world s); (r, q) = enqueue env (handoff s) node ref in (r, s\<lparr>handoff := q, world := w\<rparr>))"

definition set_hints :: "'w outside \<Rightarrow> handoff_hint list \<Rightarrow> 'w service \<Rightarrow> unit result outcome \<times> 'w service" where
  "set_hints out hs s = (let (env, w) = o_disk out (world s); (r, q) = replace env (handoff s) hs in (r, s\<lparr>handoff := q, world := w\<rparr>))"

definition refresh_seed_members :: "service_config \<Rightarrow> 'w outside \<Rightarrow> 'w service \<Rightarrow> 'w service" where
  "refresh_seed_members cfg out s = fold (beat out) (seed_members cfg) (beat out (self cfg) s)"

fun put_loop :: "service_config \<Rightarrow> 'w outside \<Rightarrow> chunk_ref \<Rightarrow> bytes \<Rightarrow> storage_node list \<Rightarrow> int \<Rightarrow> 'w service \<Rightarrow> int outcome \<times> 'w service" where
  "put_loop cfg out ref bs [] acks s = (Ret acks, s)"
| "put_loop cfg out ref bs (node # rest) acks s =
     (if is_self cfg node then put_loop cfg out ref bs rest acks s
      else sbind (remote_put cfg out node ref bs s) (\<lambda>r s1. case r of
             Value _ \<Rightarrow> put_loop cfg out ref bs rest (acks + 1) s1
           | Error _ \<Rightarrow>
               if has_handoff cfg then sbind (add_hint out node ref s1) (\<lambda>_ s2. put_loop cfg out ref bs rest acks s2) id
               else put_loop cfg out ref bs rest acks s1) id)"

definition put :: "service_config \<Rightarrow> 'w outside \<Rightarrow> bytes \<Rightarrow> 'w service \<Rightarrow> (chunk_ref result outcome \<times> 'w service) option" where
  "put cfg out bs s0 =
     (case local_put out bs (refresh_seed_members cfg out s0) of
        (Ret (Value ref), s) \<Rightarrow>
          map_option (\<lambda>plan. sbind (put_loop cfg out ref bs (targets plan) 1 s) (\<lambda>acks s'.
              (Ret (if acks < write_quorum cfg then Error (Unavailable ''quorum write failed'') else Value ref), s')) id)
            (write_plan (o_hash out) (o_iter out) (members s) (ref_checksum ref) (replication_factor cfg) (write_quorum cfg))
      | (r, s) \<Rightarrow> Some (r, s))"

fun repair_loop :: "service_config \<Rightarrow> 'w outside \<Rightarrow> chunk_ref \<Rightarrow> bytes \<Rightarrow> storage_node list \<Rightarrow> 'w service \<Rightarrow> unit outcome \<times> 'w service" where
  "repair_loop cfg out ref bs [] s = (Ret (), s)"
| "repair_loop cfg out ref bs (node # rest) s =
     (if is_self cfg node then sbind (local_put out bs s) (\<lambda>_ s'. repair_loop cfg out ref bs rest s') id
      else sbind (remote_put cfg out node ref bs s) (\<lambda>_ s'. repair_loop cfg out ref bs rest s') id)"

definition fetch :: "service_config \<Rightarrow> 'w outside \<Rightarrow> storage_node \<Rightarrow> string \<Rightarrow> 'w service \<Rightarrow> bytes result outcome \<times> 'w service" where
  "fetch cfg out node checksum s = (if is_self cfg node then local_get checksum s else remote_get cfg out node checksum s)"

definition local_fallback :: "service_config \<Rightarrow> string \<Rightarrow> status \<Rightarrow> 'w service \<Rightarrow> bytes result outcome \<times> 'w service" where
  "local_fallback cfg checksum last_error s =
     sbind (local_get checksum s) (\<lambda>r s'. (Ret (case r of
         Value bs \<Rightarrow> if read_quorum cfg \<le> 1 then Value bs
           else Error (if code last_error = kNotFound then Unavailable ''quorum read failed'' else last_error)
       | Error _ \<Rightarrow> Error (if code last_error = kNotFound then Unavailable ''quorum read failed'' else last_error)), s')) id"

fun get_loop :: "service_config \<Rightarrow> 'w outside \<Rightarrow> string \<Rightarrow> storage_node list \<Rightarrow> int \<Rightarrow> status \<Rightarrow> storage_node list \<Rightarrow> 'w service \<Rightarrow>
    bytes result outcome \<times> 'w service" where
  "get_loop cfg out checksum [] responses last_error failed s = local_fallback cfg checksum last_error s"
| "get_loop cfg out checksum (node # rest) responses last_error failed s =
     sbind (fetch cfg out node checksum s) (\<lambda>data s1. case data of
         Value bs \<Rightarrow>
           if responses + 1 \<ge> read_quorum cfg
           then sbind (repair_loop cfg out \<lparr>ref_checksum = checksum, ref_size = of_nat (length bs)\<rparr> bs failed s1)
                  (\<lambda>_ s2. (Ret (Value bs), s2)) id
           else get_loop cfg out checksum rest (responses + 1) last_error failed s1
       | Error e \<Rightarrow> get_loop cfg out checksum rest responses e (failed @ [node]) s1) id"

definition get :: "service_config \<Rightarrow> 'w outside \<Rightarrow> string \<Rightarrow> 'w service \<Rightarrow> (bytes result outcome \<times> 'w service) option" where
  "get cfg out checksum s0 =
     (let s = refresh_seed_members cfg out s0
      in map_option (\<lambda>plan. get_loop cfg out checksum (targets plan) 0 (NotFound ''chunk not found'') [] s)
           (read_plan (o_hash out) (o_iter out) (members s) checksum (replication_factor cfg) (read_quorum cfg)))"

fun remove_loop :: "service_config \<Rightarrow> 'w outside \<Rightarrow> string \<Rightarrow> storage_node list \<Rightarrow> int \<Rightarrow> 'w service \<Rightarrow> int outcome \<times> 'w service" where
  "remove_loop cfg out checksum [] acks s = (Ret acks, s)"
| "remove_loop cfg out checksum (node # rest) acks s =
     sbind (if is_self cfg node then local_remove out checksum s else remote_delete cfg out node checksum s)
       (\<lambda>r s'. remove_loop cfg out checksum rest (if result_ok r then acks + 1 else acks) s') id"

definition remove :: "service_config \<Rightarrow> 'w outside \<Rightarrow> string \<Rightarrow> int \<Rightarrow> 'w service \<Rightarrow> (unit result outcome \<times> 'w service) option" where
  "remove cfg out checksum references s0 =
     (if references > 0 then Some (Ret (Value ()), s0)
      else let s = refresh_seed_members cfg out s0
        in map_option (\<lambda>plan. sbind (remove_loop cfg out checksum (targets plan) 0 s) (\<lambda>acks s'.
               (Ret (if acks < min (write_quorum cfg) (int (length (targets plan))) then Error (Unavailable ''quorum delete failed'') else Value ()), s')) id)
             (write_plan (o_hash out) (o_iter out) (members s) checksum (replication_factor cfg) (write_quorum cfg)))"

fun replay_loop :: "service_config \<Rightarrow> 'w outside \<Rightarrow> handoff_hint list \<Rightarrow> handoff_hint list \<Rightarrow> int \<Rightarrow> 'w service \<Rightarrow>
    (handoff_hint list \<times> int) outcome \<times> 'w service" where
  "replay_loop cfg out [] remaining delivered s = (Ret (remaining, delivered), s)"
| "replay_loop cfg out (h # hs) remaining delivered s =
     sbind (local_get (hint_checksum h) s) (\<lambda>data s1. case data of
         Error _ \<Rightarrow> replay_loop cfg out hs (remaining @ [h]) delivered s1
       | Value bs \<Rightarrow>
           sbind (remote_put cfg out \<lparr>node_id = target_node_id h, address = target_address h, healthy = True\<rparr>
                    \<lparr>ref_checksum = hint_checksum h, ref_size = hint_size h\<rparr> bs s1)
             (\<lambda>sent s2. if result_ok sent then replay_loop cfg out hs remaining (delivered + 1) s2
                         else replay_loop cfg out hs (remaining @ [h]) delivered s2) id) id"

definition replay_hinted_handoff :: "service_config \<Rightarrow> 'w outside \<Rightarrow> 'w service \<Rightarrow> int result outcome \<times> 'w service" where
  "replay_hinted_handoff cfg out s =
     (if \<not> has_handoff cfg then (Ret (Value 0), s)
      else case load (handoff s) of
        Error e \<Rightarrow> (Ret (Error e), s)
      | Value hs \<Rightarrow>
          sbind (replay_loop cfg out hs [] 0 s) (\<lambda>(remaining, delivered) s1.
            sbind (set_hints out remaining s1) (\<lambda>r s2. (Ret (case r of Error e \<Rightarrow> Error e | Value _ \<Rightarrow> Value delivered), s2)) id) id)"

section \<open>Well-formed services\<close>

definition node_ok :: "storage_node \<Rightarrow> bool" where
  "node_ok n \<longleftrightarrow> healthy n \<and> address_ok (address n)"

definition members_ok :: "cluster \<Rightarrow> bool" where
  "members_ok c \<longleftrightarrow> distinct (map fst c) \<and> (\<forall>(k, m) \<in> set c. node_ok (ns_node m))"

definition config_ok :: "service_config \<Rightarrow> 'w outside \<Rightarrow> bool" where
  "config_ok cfg out \<longleftrightarrow> iteration_order (o_iter out) \<and> node_ok (self cfg) \<and> (\<forall>n \<in> set (seed_members cfg). node_ok n)"

definition service_ok :: "'w service \<Rightarrow> bool" where
  "service_ok s \<longleftrightarrow> store_inv (local s) \<and> members_ok (members s)"

text \<open>A file system that never reports an error and loses nothing.\<close>

definition calm_disk :: "'w outside \<Rightarrow> bool" where
  "calm_disk out \<longleftrightarrow> (\<forall>w. fst (o_disk out w) = calm)"

lemma heartbeat_members_ok: "members_ok c \<Longrightarrow> node_ok n \<Longrightarrow> members_ok (heartbeat moved now n c)"
  using set_heartbeat [of moved now n c] heartbeat_distinct [of c moved now n]
  by (auto simp: members_ok_def)

lemma beat_parts [simp]: "local (beat out n s) = local s" "handoff (beat out n s) = handoff s"
  by (simp_all add: beat_def split: prod.splits)

lemma beat_members: "members (beat out n s) = heartbeat (o_moved out) (fst (o_clock out (world s))) n (members s)"
  by (simp add: beat_def split: prod.splits)

lemma refresh_parts [simp]:
  "local (refresh_seed_members cfg out s) = local s" "handoff (refresh_seed_members cfg out s) = handoff s"
proof -
  have "local (fold (beat out) ns s) = local s \<and> handoff (fold (beat out) ns s) = handoff s" for ns s
    by (induction ns arbitrary: s) simp_all
  then show "local (refresh_seed_members cfg out s) = local s" "handoff (refresh_seed_members cfg out s) = handoff s"
    by (simp_all add: refresh_seed_members_def)
qed

lemma refresh_ok: "config_ok cfg out \<Longrightarrow> service_ok s \<Longrightarrow> service_ok (refresh_seed_members cfg out s)"
proof -
  have step: "service_ok (beat out n s)" if "service_ok s" "node_ok n" for n and s :: "'a service"
    using that by (simp add: service_ok_def beat_members heartbeat_members_ok)
  have "service_ok (fold (beat out) ns s)" if "service_ok s" "\<forall>n \<in> set ns. node_ok n" for ns and s :: "'a service"
    using that by (induction ns arbitrary: s) (simp_all add: step)
  then show "config_ok cfg out \<Longrightarrow> service_ok s \<Longrightarrow> service_ok (refresh_seed_members cfg out s)"
    by (simp add: refresh_seed_members_def config_ok_def step)
qed

lemma members_ok_plan:
  assumes "iteration_order iter" "members_ok c"
  shows "\<exists>ts. (\<forall>q. write_plan hash64 iter c key n q = Some \<lparr>targets = ts, quorum = q\<rparr>) \<and>
    plan_targets hash64 iter c key n = Some ts \<and> (\<forall>t \<in> set ts. node_ok t) \<and> distinct (map node_id ts) \<and> length ts \<le> nat n"
proof -
  have "members_healthy c" using assms(2) by (auto simp: members_ok_def members_healthy_def node_ok_def)
  with assms(1) have u: "case (iter, c) of (iter, c) \<Rightarrow> iteration_order iter \<and> members_healthy c" by simp
  obtain ts where ts: "plan_targets hash64 iter c key n = Some ts"
    using placement.plan_total [OF u, of hash64 key n] by auto
  then have "set ts \<subseteq> (\<lambda>(_, s). ns_node s) ` set c" "distinct (map node_id ts)" "length ts \<le> nat n"
    using placement.plan_members [OF u, of hash64 key n ts] placement.plan_distinct [OF u, of hash64 key n ts]
      placement.plan_size [OF u, of hash64 key n ts] by simp_all
  moreover from this(1) have "\<forall>t \<in> set ts. node_ok t" using assms(2) by (auto simp: members_ok_def)
  ultimately show ?thesis using ts by (simp add: write_plan_targets)
qed

section \<open>Storing\<close>

definition acknowledged :: "service_config \<Rightarrow> 'w outside \<Rightarrow> chunk_ref \<Rightarrow> bytes \<Rightarrow> storage_node \<Rightarrow> bool" where
  "acknowledged cfg out ref bs n \<longleftrightarrow> (\<exists>w w'. put_chunk (o_net out) (client_token cfg) n ref bs w = (Ret (Value ()), w'))"

definition others :: "service_config \<Rightarrow> storage_node list \<Rightarrow> storage_node list" where
  "others cfg ts = filter (\<lambda>n. \<not> is_self cfg n) ts"

lemma remote_put_returns:
  assumes "node_ok n"
  shows "\<exists>r w'. remote_put cfg out n ref bs s = (Ret r, s\<lparr>world := w'\<rparr>) \<and> (r = Value () \<longrightarrow> acknowledged cfg out ref bs n)"
proof -
  obtain r w' where "put_chunk (o_net out) (client_token cfg) n ref bs (world s) = (Ret r, w')"
    using client_returns(1) assms by (metis node_ok_def)
  then show ?thesis by (auto simp: remote_put_def acknowledged_def)
qed

lemma add_hint_calm:
  assumes "calm_disk out"
  shows "\<exists>w'. add_hint out n ref s = (Ret (Value ()), s\<lparr>handoff := enqueue_all (handoff s) [(n, ref)], world := w'\<rparr>)"
proof -
  have "fst (o_disk out (world s)) = calm" using assms by (simp add: calm_disk_def)
  then obtain w where w: "o_disk out (world s) = (calm, w)" by (cases "o_disk out (world s)") simp
  have "fst (enqueue calm (handoff s) n ref) = Ret (Value ())" by (simp add: enqueue_def calm_def Let_def)
  then obtain q where "enqueue calm (handoff s) n ref = (Ret (Value ()), q)" by (cases "enqueue calm (handoff s) n ref") simp
  then show ?thesis by (simp add: add_hint_def w enqueue_all_def) blast
qed

lemma enqueue_all_Cons: "enqueue_all q (t # ts) = enqueue_all (enqueue_all q [t]) ts"
  by (simp add: enqueue_all_def)

definition stored :: "service_config \<Rightarrow> 'w outside \<Rightarrow> chunk_ref \<Rightarrow> bytes \<Rightarrow> storage_node list \<Rightarrow> 'w service \<Rightarrow>
    storage_node list \<Rightarrow> storage_node list \<Rightarrow> 'w service \<Rightarrow> bool" where
  "stored cfg out ref bs ts s acked failed s' \<longleftrightarrow>
     mset acked + mset failed = mset (others cfg ts) \<and> (\<forall>n \<in> set acked. acknowledged cfg out ref bs n) \<and>
     handoff s' = (if has_handoff cfg then enqueue_all (handoff s) (map (\<lambda>n. (n, ref)) failed) else handoff s) \<and>
     local s' = local s \<and> members s' = members s"

text \<open>One replica that cannot be reached: it is put on the handoff queue, and the loop goes on.\<close>

lemma put_loop_missed:
  assumes "calm_disk out" "\<not> is_self cfg n" "remote_put cfg out n ref bs s = (Ret (Error e), s\<lparr>world := w'\<rparr>)"
  shows "\<exists>s2. (\<forall>acks. put_loop cfg out ref bs (n # ts) acks s = put_loop cfg out ref bs ts acks s2) \<and>
    (\<forall>acked failed s'. stored cfg out ref bs ts s2 acked failed s' \<longrightarrow> stored cfg out ref bs (n # ts) s acked (n # failed) s')"
proof -
  define s1 where "s1 = s\<lparr>world := w'\<rparr>"
  obtain w2 where h: "add_hint out n ref s1 = (Ret (Value ()), s1\<lparr>handoff := enqueue_all (handoff s1) [(n, ref)], world := w2\<rparr>)"
    using add_hint_calm [OF assms(1)] by blast
  define s2 where "s2 = (if has_handoff cfg then s1\<lparr>handoff := enqueue_all (handoff s1) [(n, ref)], world := w2\<rparr> else s1)"
  have "put_loop cfg out ref bs (n # ts) acks s = put_loop cfg out ref bs ts acks s2" for acks
    using assms(2) h by (simp add: assms(3) s2_def s1_def split: if_splits)
  moreover have "stored cfg out ref bs (n # ts) s acked (n # failed) s'" if "stored cfg out ref bs ts s2 acked failed s'" for acked failed s'
    using that assms(2) enqueue_all_Cons [of "handoff s" "(n, ref)" "map (\<lambda>n. (n, ref)) failed"]
    by (simp add: stored_def others_def s2_def s1_def split: if_splits)
  ultimately show ?thesis by blast
qed

lemma put_loop_stored:
  assumes "calm_disk out" "\<forall>t \<in> set ts. node_ok t"
  shows "\<exists>acked failed s'. put_loop cfg out ref bs ts acks s = (Ret (acks + int (length acked)), s') \<and>
    stored cfg out ref bs ts s acked failed s'"
  using assms(2)
proof (induction ts arbitrary: acks s)
  case Nil
  show ?case by (intro exI [of _ "[]"] exI [of _ s]) (simp add: stored_def others_def enqueue_all_def)
next
  case (Cons n ts)
  have tl: "\<forall>t \<in> set ts. node_ok t" and hd: "node_ok n" using Cons.prems by simp_all
  note IH = Cons.IH [OF tl]
  show ?case
  proof (cases "is_self cfg n")
    case True
    then show ?thesis using IH [of acks s] by (simp add: stored_def others_def)
  next
    case False
    obtain r w' where r: "remote_put cfg out n ref bs s = (Ret r, s\<lparr>world := w'\<rparr>)" "r = Value () \<longrightarrow> acknowledged cfg out ref bs n"
      using remote_put_returns [OF hd, of cfg out ref bs s] by blast
    show ?thesis
    proof (cases r)
      case (Value u)
      obtain acked failed s' where ih: "put_loop cfg out ref bs ts (acks + 1) (s\<lparr>world := w'\<rparr>) = (Ret (acks + 1 + int (length acked)), s')"
        "stored cfg out ref bs ts (s\<lparr>world := w'\<rparr>) acked failed s'"
        using IH by blast
      have "put_loop cfg out ref bs (n # ts) acks s = (Ret (acks + int (length (n # acked))), s')"
        using False ih(1) by (simp add: r(1) Value)
      moreover have "stored cfg out ref bs (n # ts) s (n # acked) failed s'"
        using ih(2) False r(2) Value by (simp add: stored_def others_def)
      ultimately show ?thesis by blast
    next
      case (Error e)
      obtain s2 where s2: "\<And>acks. put_loop cfg out ref bs (n # ts) acks s = put_loop cfg out ref bs ts acks s2"
        "\<And>acked failed s'. stored cfg out ref bs ts s2 acked failed s' \<Longrightarrow> stored cfg out ref bs (n # ts) s acked (n # failed) s'"
        using put_loop_missed [OF assms(1) False r(1) [unfolded Error], of ts] by blast
      show ?thesis unfolding s2(1) using IH [of acks s2] s2(2) by blast
    qed
  qed
qed

lemma local_put_calm:
  assumes "calm_disk out" "store_inv (local s)"
  shows "\<exists>l w. local_put out bs s = (Ret (Value \<lparr>ref_checksum = Sha256_hex bs, ref_size = of_nat (length bs)\<rparr>), s\<lparr>local := l, world := w\<rparr>) \<and>
    l = snd (chunk_put calm (local s) bs) \<and> store_inv l \<and> fst (chunk_get l (Sha256_hex bs)) = Ret (Value bs)"
proof -
  have "fst (o_disk out (world s)) = calm" using assms by (simp add: calm_disk_def)
  then obtain w where w: "o_disk out (world s) = (calm, w)" by (cases "o_disk out (world s)") simp
  obtain l where l: "chunk_put calm (local s) bs = (Ret (Value \<lparr>ref_checksum = Sha256_hex bs, ref_size = of_nat (length bs)\<rparr>), l)"
    using chunk_put_calm [OF assms(2), of bs] by (cases "chunk_put calm (local s) bs") simp
  have inv: "store_inv l" using chunk_put_inv [OF assms(2), of calm bs] l by simp
  have "fst (chunk_get l (Sha256_hex bs)) = Ret (Value bs)"
    using chunk_get_cached [OF inv] chunk_put_cached [OF assms(2) l] by blast
  then show ?thesis using inv by (simp add: local_put_def w l) blast
qed

lemma put_outcome:
  fixes bs :: bytes
  assumes "config_ok cfg out" "service_ok s0" "calm_disk out"
  defines "ref \<equiv> \<lparr>ref_checksum = Sha256_hex bs, ref_size = of_nat (length bs)\<rparr>"
  shows "\<exists>ts acked failed s s'.
    put cfg out bs s0 = Some (Ret (if 1 + int (length acked) < write_quorum cfg then Error (Unavailable ''quorum write failed'') else Value ref), s') \<and>
    plan_targets (o_hash out) (o_iter out) (members (refresh_seed_members cfg out s0)) (Sha256_hex bs) (replication_factor cfg) = Some ts \<and>
    stored cfg out ref bs ts s acked failed s' \<and> service_ok s' \<and> handoff s = handoff s0 \<and>
    members s = members (refresh_seed_members cfg out s0) \<and>
    fst (chunk_get (local s') (Sha256_hex bs)) = Ret (Value bs) \<and> local s' = snd (chunk_put calm (local s0) bs)"
proof -
  define s1 where "s1 = refresh_seed_members cfg out s0"
  have s1: "service_ok s1" "handoff s1 = handoff s0" "local s1 = local s0" using refresh_ok [OF assms(1,2)] by (simp_all add: s1_def)
  obtain l w where l: "local_put out bs s1 = (Ret (Value ref), s1\<lparr>local := l, world := w\<rparr>)" "store_inv l"
    "fst (chunk_get l (Sha256_hex bs)) = Ret (Value bs)" "l = snd (chunk_put calm (local s0) bs)"
    using local_put_calm [OF assms(3), of s1 bs] s1(1,3) unfolding ref_def service_ok_def by metis
  define s where "s = s1\<lparr>local := l, world := w\<rparr>"
  have s: "local s = l" "members s = members s1" "handoff s = handoff s0" using s1(2) by (simp_all add: s_def)
  obtain ts where ts: "\<And>q. write_plan (o_hash out) (o_iter out) (members s1) (Sha256_hex bs) (replication_factor cfg) q = Some \<lparr>targets = ts, quorum = q\<rparr>"
    "plan_targets (o_hash out) (o_iter out) (members s1) (Sha256_hex bs) (replication_factor cfg) = Some ts" "\<forall>t \<in> set ts. node_ok t"
    using members_ok_plan [of "o_iter out" "members s1" "o_hash out" "Sha256_hex bs" "replication_factor cfg"] assms(1) s1(1)
    by (auto simp: config_ok_def service_ok_def)
  obtain acked failed s' where p: "put_loop cfg out ref bs ts 1 s = (Ret (1 + int (length acked)), s')" "stored cfg out ref bs ts s acked failed s'"
    using put_loop_stored [OF assms(3) ts(3), of cfg ref bs 1 s] by blast
  have put: "put cfg out bs s0 =
      Some (Ret (if 1 + int (length acked) < write_quorum cfg then Error (Unavailable ''quorum write failed'') else Value ref), s')"
    unfolding put_def s1_def [symmetric] l(1) s_def [symmetric] using ts(1) p(1) s(2) by (simp add: ref_def)
  have fin: "local s' = l" "members s' = members s1" using p(2) s by (simp_all add: stored_def)
  then have "service_ok s'" using l(2) s1(1) by (simp add: service_ok_def)
  with put ts(2) p(2) s fin l(3,4) show ?thesis unfolding s1_def by metis
qed

section \<open>Reading, removing, replaying\<close>

lemma local_get_inv:
  assumes "store_inv (local s)"
  shows "\<exists>r l. local_get checksum s = (Ret r, s\<lparr>local := l\<rparr>) \<and> store_inv l \<and> fst (chunk_get (local s) checksum) = Ret r \<and>
    cs_files l = cs_files (local s) \<and> (\<forall>b. r = Value b \<longrightarrow> Sha256_hex b = checksum)"
proof -
  obtain r l where g: "chunk_get (local s) checksum = (Ret r, l)" "store_inv l" "cs_files l = cs_files (local s)"
    using chunk_get_cases [OF assms, of checksum] by (auto split: option.splits if_splits)
  moreover have "Sha256_hex b = checksum" if "r = Value b" for b using chunk_get_sound [OF assms, of checksum b] g(1) that by simp
  ultimately show ?thesis by (auto simp: local_get_def)
qed

text \<open>What a read returns: the value of the reply that completes the quorum, or, with a quorum of
  at most one, the verified local chunk.\<close>

definition answered :: "service_config \<Rightarrow> 'w outside \<Rightarrow> string \<Rightarrow> storage_node \<Rightarrow> bytes \<Rightarrow> bool" where
  "answered cfg out checksum n b \<longleftrightarrow>
     (if is_self cfg n then Sha256_hex b = checksum
      else \<exists>w w'. get_chunk (o_net out) (client_token cfg) n checksum w = (Ret (Value b), w'))"

lemma fetch_ok:
  assumes "service_ok s" "node_ok n"
  shows "\<exists>r s'. fetch cfg out n checksum s = (Ret r, s') \<and> service_ok s' \<and> handoff s' = handoff s \<and> members s' = members s \<and> (\<forall>b. r = Value b \<longrightarrow> answered cfg out checksum n b)"
proof (cases "is_self cfg n")
  case True
  obtain r l where "local_get checksum s = (Ret r, s\<lparr>local := l\<rparr>)" "store_inv l" "\<forall>b. r = Value b \<longrightarrow> Sha256_hex b = checksum"
    using local_get_inv [of s checksum] assms(1) by (auto simp: service_ok_def)
  then show ?thesis using True assms(1) by (simp add: fetch_def answered_def service_ok_def)
next
  case False
  obtain r w' where "get_chunk (o_net out) (client_token cfg) n checksum (world s) = (Ret r, w')"
    using client_returns(2) assms(2) by (metis node_ok_def)
  then show ?thesis using False assms(1) by (auto simp: fetch_def remote_get_def answered_def service_ok_def)
qed

lemma repair_loop_ok:
  assumes "calm_disk out" "service_ok s" "\<forall>n \<in> set ns. node_ok n"
  shows "\<exists>s'. repair_loop cfg out ref bs ns s = (Ret (), s') \<and> service_ok s' \<and> handoff s' = handoff s \<and> members s' = members s"
  using assms(2,3)
proof (induction ns arbitrary: s)
  case (Cons n ns)
  have IH: "\<exists>s'. repair_loop cfg out ref bs ns s1 = (Ret (), s') \<and> service_ok s' \<and> handoff s' = handoff s1 \<and> members s' = members s1"
    if "service_ok s1" for s1 using Cons.IH [OF that] Cons.prems(2) by simp
  show ?case
  proof (cases "is_self cfg n")
    case True
    obtain r l w where lp: "local_put out bs s = (Ret r, s\<lparr>local := l, world := w\<rparr>)" "store_inv l"
      using local_put_calm [OF assms(1), of s bs] Cons.prems(1) by (auto simp: service_ok_def)
    then have "service_ok (s\<lparr>local := l, world := w\<rparr>)" using Cons.prems(1) by (simp add: service_ok_def)
    with IH lp(1) True show ?thesis by fastforce
  next
    case False
    obtain r w where rp: "remote_put cfg out n ref bs s = (Ret r, s\<lparr>world := w\<rparr>)"
      using remote_put_returns [of n cfg out ref bs s] Cons.prems(2) by auto
    have "service_ok (s\<lparr>world := w\<rparr>)" using Cons.prems(1) by (simp add: service_ok_def)
    with IH rp False show ?thesis by fastforce
  qed
qed simp

definition quorum_answer :: "service_config \<Rightarrow> 'w outside \<Rightarrow> string \<Rightarrow> storage_node list \<Rightarrow> int \<Rightarrow> bytes \<Rightarrow> bool" where
  "quorum_answer cfg out checksum ts responses b \<longleftrightarrow>
     (\<exists>as. as \<noteq> [] \<and> subseq (map fst as) ts \<and> (\<forall>(n, b') \<in> set as. answered cfg out checksum n b') \<and>
           read_quorum cfg \<le> responses + int (length as) \<and> snd (last as) = b) \<or>
     (read_quorum cfg \<le> 1 \<and> Sha256_hex b = checksum)"

lemma quorum_answer_skip: "quorum_answer cfg out checksum ts responses b \<Longrightarrow> quorum_answer cfg out checksum (n # ts) responses b"
  unfolding quorum_answer_def using list_emb_Cons [of "(=)" _ ts n] by (elim disjE exE conjE) blast+

lemma quorum_answer_more:
  assumes "quorum_answer cfg out checksum ts (responses + 1) b" "answered cfg out checksum n b'"
  shows "quorum_answer cfg out checksum (n # ts) responses b"
  using assms(1) unfolding quorum_answer_def
proof (elim disjE exE conjE)
  fix as :: "(storage_node \<times> bytes) list" assume a: "as \<noteq> []" "subseq (map fst as) ts" "\<forall>(n, b') \<in> set as. answered cfg out checksum n b'"
    "read_quorum cfg \<le> responses + 1 + int (length as)" "snd (last as) = b"
  then show "(\<exists>as. as \<noteq> [] \<and> subseq (map fst as) (n # ts) \<and> (\<forall>(n, b') \<in> set as. answered cfg out checksum n b') \<and>
           read_quorum cfg \<le> responses + int (length as) \<and> snd (last as) = b) \<or> (read_quorum cfg \<le> 1 \<and> Sha256_hex b = checksum)"
    using assms(2) by (intro disjI1 exI [of _ "(n, b') # as"]) auto
qed simp

lemma quorum_answer_now:
  assumes "read_quorum cfg \<le> responses + 1" "answered cfg out checksum n b"
  shows "quorum_answer cfg out checksum (n # ts) responses b"
  unfolding quorum_answer_def using assms by (intro disjI1 exI [of _ "[(n, b)]"]) simp

lemma get_loop_result:
  assumes "calm_disk out" "service_ok s" "\<forall>t \<in> set ts. node_ok t" "\<forall>t \<in> set failed. node_ok t"
  shows "\<exists>r s'. get_loop cfg out checksum ts responses e failed s = (Ret r, s') \<and> service_ok s' \<and> handoff s' = handoff s \<and> members s' = members s \<and>
    (\<forall>b. r = Value b \<longrightarrow> quorum_answer cfg out checksum ts responses b)"
  using assms(2-4)
proof (induction ts arbitrary: responses e failed s)
  case Nil
  obtain r l where l: "local_get checksum s = (Ret r, s\<lparr>local := l\<rparr>)" "store_inv l" "\<forall>b. r = Value b \<longrightarrow> Sha256_hex b = checksum"
    using local_get_inv [of s checksum] Nil(1) by (auto simp: service_ok_def)
  then show ?case using Nil(1) by (auto simp: local_fallback_def service_ok_def quorum_answer_def split: result.splits)
next
  case (Cons n ts)
  obtain r s1 where f: "fetch cfg out n checksum s = (Ret r, s1)" "service_ok s1" "handoff s1 = handoff s \<and> members s1 = members s"
      "\<And>b. r = Value b \<Longrightarrow> answered cfg out checksum n b"
    using fetch_ok [OF Cons.prems(1), of n cfg out checksum] Cons.prems(2) by auto
  have tl: "\<forall>t \<in> set ts. node_ok t" using Cons.prems(2) by simp
  show ?case
  proof (cases r)
    case (Error e')
    have "\<forall>t \<in> set (failed @ [n]). node_ok t" using Cons.prems by simp
    from Cons.IH [OF f(2) tl this, of responses e'] f(1,3) Error show ?thesis using quorum_answer_skip by fastforce
  next
    case (Value b)
    show ?thesis
    proof (cases "responses + 1 \<ge> read_quorum cfg")
      case True
      obtain s2 where "repair_loop cfg out \<lparr>ref_checksum = checksum, ref_size = of_nat (length b)\<rparr> b failed s1 = (Ret (), s2)"
        "service_ok s2" "handoff s2 = handoff s1 \<and> members s2 = members s1"
        using repair_loop_ok [OF assms(1) f(2) Cons.prems(3)] by blast
      then show ?thesis using True f Value quorum_answer_now [OF True f(4) [OF Value]] by simp
    next
      case False
      from Cons.IH [OF f(2) tl Cons.prems(3), of "responses + 1" e] f(1,3) Value False
      show ?thesis using quorum_answer_more [OF _ f(4) [OF Value]] by fastforce
    qed
  qed
qed

lemma get_outcome:
  assumes "config_ok cfg out" "service_ok s0" "calm_disk out"
  shows "\<exists>ts r s'.
    plan_targets (o_hash out) (o_iter out) (members (refresh_seed_members cfg out s0)) checksum (replication_factor cfg) = Some ts \<and>
    distinct (map node_id ts) \<and> get cfg out checksum s0 = Some (Ret r, s') \<and> service_ok s' \<and> handoff s' = handoff s0 \<and> members s' = members (refresh_seed_members cfg out s0) \<and>
    (\<forall>b. r = Value b \<longrightarrow> quorum_answer cfg out checksum ts 0 b)"
proof -
  define s where "s = refresh_seed_members cfg out s0"
  have s: "service_ok s" using refresh_ok [OF assms(1,2)] by (simp add: s_def)
  obtain ts where ts: "\<And>q. write_plan (o_hash out) (o_iter out) (members s) checksum (replication_factor cfg) q = Some \<lparr>targets = ts, quorum = q\<rparr>"
    "plan_targets (o_hash out) (o_iter out) (members s) checksum (replication_factor cfg) = Some ts"
    "\<forall>t \<in> set ts. node_ok t" "distinct (map node_id ts)"
    using members_ok_plan [of "o_iter out" "members s" "o_hash out" checksum "replication_factor cfg"] assms(1) s
    by (auto simp: config_ok_def service_ok_def)
  obtain r s' where g: "get_loop cfg out checksum ts 0 (NotFound ''chunk not found'') [] s = (Ret r, s')" "service_ok s'" "handoff s' = handoff s0 \<and> members s' = members (refresh_seed_members cfg out s0)"
    "\<forall>b. r = Value b \<longrightarrow> quorum_answer cfg out checksum ts 0 b"
    using get_loop_result [OF assms(3) s ts(3), of "[]" cfg checksum 0 "NotFound ''chunk not found''"] by (auto simp: s_def)
  have "get cfg out checksum s0 = Some (Ret r, s')"
    using g(1) ts(1) by (simp add: get_def Let_def s_def [symmetric] read_plan_def)
  with ts(2,4) g(2-4) show ?thesis unfolding s_def [symmetric] by (intro exI [of _ ts] exI [of _ r] exI [of _ s']) auto
qed

lemma remove_loop_remote:
  assumes "\<forall>t \<in> set ts. node_ok t \<and> \<not> is_self cfg t"
  shows "\<exists>r w. remove_loop cfg out checksum ts acks s = (Ret r, s\<lparr>world := w\<rparr>)"
  using assms
proof (induction ts arbitrary: acks s)
  case (Cons n ts)
  obtain r w where "delete_chunk (o_net out) (client_token cfg) n checksum (world s) = (Ret r, w)"
    using client_returns(3) Cons.prems by (metis list.set_intros(1) node_ok_def)
  then have "remove_loop cfg out checksum (n # ts) acks s =
      remove_loop cfg out checksum ts (if result_ok r then acks + 1 else acks) (s\<lparr>world := w\<rparr>)"
    using Cons.prems by (simp add: remote_delete_def)
  with Cons.IH [of "if result_ok r then acks + 1 else acks" "s\<lparr>world := w\<rparr>"] Cons.prems show ?case by simp
next
  case Nil
  show ?case by (intro exI [of _ acks] exI [of _ "world s"]) simp
qed

lemma remove_loop_ok:
  assumes "service_ok s" "\<forall>t \<in> set ts. node_ok t"
  shows "\<exists>r s'. remove_loop cfg out checksum ts acks s = (Ret r, s') \<and> service_ok s' \<and> handoff s' = handoff s \<and> members s' = members s"
  using assms
proof (induction ts arbitrary: acks s)
  case (Cons n ts)
  have "\<exists>r s1. (if is_self cfg n then local_remove out checksum s else remote_delete cfg out n checksum s) = (Ret r, s1) \<and>
      service_ok s1 \<and> handoff s1 = handoff s \<and> members s1 = members s"
  proof (cases "is_self cfg n")
    case True
    then show ?thesis using Cons.prems(1) remove_inv [of "local s"]
      by (auto simp: local_remove_def service_ok_def split: prod.splits) (metis snd_conv)
  next
    case False
    obtain r w where "delete_chunk (o_net out) (client_token cfg) n checksum (world s) = (Ret r, w)"
      using client_returns(3) Cons.prems(2) by (metis list.set_intros(1) node_ok_def)
    then show ?thesis using False Cons.prems(1) by (simp add: remote_delete_def service_ok_def)
  qed
  then obtain r s1 where "(if is_self cfg n then local_remove out checksum s else remote_delete cfg out n checksum s) = (Ret r, s1)"
    "service_ok s1" "handoff s1 = handoff s \<and> members s1 = members s" by blast
  with Cons.IH [of s1 "if result_ok r then acks + 1 else acks"] Cons.prems(2) show ?case by auto
qed simp

lemma remove_outcome:
  assumes "config_ok cfg out" "service_ok s0"
  shows "\<exists>r s'. remove cfg out checksum references s0 = Some (Ret r, s') \<and> service_ok s' \<and> handoff s' = handoff s0 \<and>
    members s' \<in> {members s0, members (refresh_seed_members cfg out s0)}"
proof -
  define s where "s = refresh_seed_members cfg out s0"
  have s: "service_ok s" "handoff s = handoff s0" using refresh_ok [OF assms] by (simp_all add: s_def)
  obtain ts where ts: "\<And>q. write_plan (o_hash out) (o_iter out) (members s) checksum (replication_factor cfg) q = Some \<lparr>targets = ts, quorum = q\<rparr>"
    "\<forall>t \<in> set ts. node_ok t"
    using members_ok_plan [of "o_iter out" "members s" "o_hash out" checksum "replication_factor cfg"] assms(1) s(1)
    by (auto simp: config_ok_def service_ok_def)
  from remove_loop_ok [OF s(1) ts(2), of cfg out checksum 0] s(2) ts(1) show ?thesis
    using assms(2) by (auto simp: remove_def Let_def s_def [symmetric])
qed

definition hint_ref :: "handoff_hint \<Rightarrow> chunk_ref" where
  "hint_ref h = \<lparr>ref_checksum = hint_checksum h, ref_size = hint_size h\<rparr>"

definition hint_node :: "handoff_hint \<Rightarrow> storage_node" where
  "hint_node h = \<lparr>node_id = target_node_id h, address = target_address h, healthy = True\<rparr>"

definition delivered :: "service_config \<Rightarrow> 'w outside \<Rightarrow> handoff_hint \<Rightarrow> bool" where
  "delivered cfg out h \<longleftrightarrow> (\<exists>b. Sha256_hex b = hint_checksum h \<and> acknowledged cfg out (hint_ref h) b (hint_node h))"

definition replayed :: "service_config \<Rightarrow> 'w outside \<Rightarrow> handoff_hint list \<Rightarrow> handoff_hint list \<Rightarrow> int \<Rightarrow> 'w service \<Rightarrow>
    (handoff_hint list \<times> int) outcome \<times> 'w service \<Rightarrow> bool" where
  "replayed cfg out hs rem d s x \<longleftrightarrow> (\<exists>kept sent s'. x = (Ret (rem @ kept, d + int (length sent)), s') \<and>
     mset kept + mset sent = mset hs \<and> (\<forall>h \<in> set sent. delivered cfg out h) \<and>
     service_ok s' \<and> handoff s' = handoff s \<and> members s' = members s \<and> cs_files (local s') = cs_files (local s))"

lemma replayed_kept:
  assumes "replayed cfg out hs (rem @ [h]) d s1 x" "handoff s1 = handoff s \<and> members s1 = members s" "cs_files (local s1) = cs_files (local s)"
  shows "replayed cfg out (h # hs) rem d s x"
proof -
  obtain kept sent s' where "x = (Ret ((rem @ [h]) @ kept, d + int (length sent)), s')"
     "mset kept + mset sent = mset hs" "\<forall>h \<in> set sent. delivered cfg out h"
     "service_ok s'" "handoff s' = handoff s1 \<and> members s' = members s1" "cs_files (local s') = cs_files (local s1)"
    using assms(1) unfolding replayed_def by blast
  then show ?thesis
    unfolding replayed_def using assms(2,3) by (intro exI [of _ "h # kept"] exI [of _ sent] exI [of _ s']) simp
qed

lemma replayed_sent:
  assumes "replayed cfg out hs rem (d + 1) s1 x" "delivered cfg out h" "handoff s1 = handoff s \<and> members s1 = members s" "cs_files (local s1) = cs_files (local s)"
  shows "replayed cfg out (h # hs) rem d s x"
proof -
  obtain kept sent s' where "x = (Ret (rem @ kept, d + 1 + int (length sent)), s')"
     "mset kept + mset sent = mset hs" "\<forall>h \<in> set sent. delivered cfg out h"
     "service_ok s'" "handoff s' = handoff s1 \<and> members s' = members s1" "cs_files (local s') = cs_files (local s1)"
    using assms(1) unfolding replayed_def by blast
  then show ?thesis
    unfolding replayed_def using assms(2-4) by (intro exI [of _ kept] exI [of _ "h # sent"] exI [of _ s']) simp
qed

lemma replay_loop_result:
  assumes "service_ok s" "\<forall>h \<in> set hs. address_ok (target_address h)"
  shows "replayed cfg out hs rem d s (replay_loop cfg out hs rem d s)"
  using assms
proof (induction hs arbitrary: rem d s)
  case Nil
  then show ?case unfolding replayed_def by (intro exI [of _ "[]"] exI [of _ s]) simp
next
  case (Cons h hs)
  have IH: "replayed cfg out hs rem d s (replay_loop cfg out hs rem d s)" if "service_ok s" for rem d and s :: "'a service"
    using Cons.IH [OF that] Cons.prems(2) by simp
  obtain r l where l: "local_get (hint_checksum h) s = (Ret r, s\<lparr>local := l\<rparr>)" "store_inv l" "cs_files l = cs_files (local s)"
    "\<And>b. r = Value b \<Longrightarrow> Sha256_hex b = hint_checksum h"
    using local_get_inv [of s "hint_checksum h"] Cons.prems(1) by (auto simp: service_ok_def)
  define s1 where "s1 = s\<lparr>local := l\<rparr>"
  have s1: "service_ok s1" "handoff s1 = handoff s \<and> members s1 = members s" "cs_files (local s1) = cs_files (local s)"
    using Cons.prems(1) l by (simp_all add: s1_def service_ok_def)
  show ?case
  proof (cases r)
    case (Error e)
    with l(1) replayed_kept [of cfg out hs rem h d s1 _ s, OF IH [OF s1(1)] s1(2,3)] show ?thesis by (simp add: s1_def)
  next
    case (Value b)
    have "node_ok (hint_node h)" using Cons.prems(2) by (simp add: node_ok_def hint_node_def)
    from remote_put_returns [OF this, of cfg out "hint_ref h" b s1] obtain r' w where
      r': "remote_put cfg out (hint_node h) (hint_ref h) b s1 = (Ret r', s1\<lparr>world := w\<rparr>)"
        "r' = Value () \<longrightarrow> acknowledged cfg out (hint_ref h) b (hint_node h)" by blast
    have s2: "service_ok (s1\<lparr>world := w\<rparr>)" using s1(1) by (simp add: service_ok_def)
    have step: "replay_loop cfg out (h # hs) rem d s =
        (if result_ok r' then replay_loop cfg out hs rem (d + 1) (s1\<lparr>world := w\<rparr>)
         else replay_loop cfg out hs (rem @ [h]) d (s1\<lparr>world := w\<rparr>))"
      using l(1) Value r'(1) by (simp add: s1_def [symmetric] hint_node_def hint_ref_def)
    have sent: "delivered cfg out h" if "result_ok r'"
      using that r'(2) l(4) [OF Value] by (cases r') (auto simp: delivered_def)
    show ?thesis unfolding step
      using replayed_sent [of cfg out hs rem d "s1\<lparr>world := w\<rparr>" _ h s, OF IH [OF s2] sent]
        replayed_kept [of cfg out hs rem h d "s1\<lparr>world := w\<rparr>" _ s, OF IH [OF s2]] s1(2,3) by simp
  qed
qed

lemma replay_outcome:
  assumes "service_ok s" "calm_disk out" "has_handoff cfg" "load (handoff s) = Value hs" "\<forall>h \<in> set hs. address_ok (target_address h)"
  shows "\<exists>kept sent s'. replay_hinted_handoff cfg out s = (Ret (Value (int (length sent))), s') \<and> mset kept + mset sent = mset hs \<and>
    handoff s' = Some (queue_text kept) \<and> (\<forall>h \<in> set sent. delivered cfg out h) \<and> service_ok s' \<and> members s' = members s"
proof -
  from replay_loop_result [OF assms(1,5), of cfg out "[]" 0] obtain kept sent s1 where
    l: "replay_loop cfg out hs [] 0 s = (Ret (kept, int (length sent)), s1)" "mset kept + mset sent = mset hs"
      "\<forall>h \<in> set sent. delivered cfg out h" "service_ok s1" "members s1 = members s"
    by (auto simp: replayed_def)
  have "fst (o_disk out (world s1)) = calm" using assms(2) by (simp add: calm_disk_def)
  then obtain w where w: "o_disk out (world s1) = (calm, w)" by (cases "o_disk out (world s1)") simp
  have "replace calm (handoff s1) kept = (Ret (Value ()), Some (queue_text kept))"
    by (simp add: replace_def calm_def queue_text_def)
  then have "replay_hinted_handoff cfg out s = (Ret (Value (int (length sent))), s1\<lparr>handoff := Some (queue_text kept), world := w\<rparr>)"
    using assms(3,4) l(1) by (simp add: replay_hinted_handoff_def set_hints_def w)
  then show ?thesis using l by (intro exI [of _ kept] exI [of _ sent]) (simp add: service_ok_def)
qed

section \<open>Peers that cannot be reached\<close>

definition cut_off :: "'w outside \<Rightarrow> bool" where
  "cut_off out \<longleftrightarrow> (\<forall>host port msg w. fst (o_net out host port msg w) = No_connection)"

lemma cut_off_request: "cut_off out \<Longrightarrow> fst (http_request (o_net out) host port req w) = Error (Unavailable ''connect failed'')"
proof -
  assume "cut_off out"
  then have "fst (o_net out host port (request_text host req) w) = No_connection" by (simp add: cut_off_def)
  then show ?thesis by (cases "o_net out host port (request_text host req) w") (simp add: http_request_def)
qed

lemma cut_off_call:
  assumes "cut_off out"
  shows "fst (call (o_net out) n req w) \<noteq> Ret (Value v)"
proof -
  have "fst (http_request (o_net out) host port req w) \<noteq> Value v" for host port using cut_off_request [OF assms] by simp
  then show ?thesis by (auto simp: call_def split: outcome.splits prod.splits) (metis fst_conv)
qed

lemma sbind_Ret_fst: "fst (sbind m (\<lambda>x s. (Ret (f x), s)) id) = Ret y \<Longrightarrow> \<exists>x. fst m = Ret x \<and> f x = y"
proof (cases m)
  case (Pair o' s)
  then show "fst (sbind m (\<lambda>x s. (Ret (f x), s)) id) = Ret y \<Longrightarrow> ?thesis" by (cases o') auto
qed

lemma cut_off_put: "cut_off out \<Longrightarrow> \<not> acknowledged cfg out ref bs n"
  unfolding acknowledged_def put_chunk_def Let_def
  by (auto dest!: arg_cong [where f = fst] sbind_Ret_fst simp: cut_off_call split: result.splits)

lemma cut_off_get: "cut_off out \<Longrightarrow> \<not> is_self cfg n \<Longrightarrow> \<not> answered cfg out checksum n b"
  unfolding answered_def get_chunk_def
  by (auto dest!: arg_cong [where f = fst] sbind_Ret_fst simp: cut_off_call split: result.splits if_splits)

text \<open>Read repair of nodes other than this one leaves the local store alone.\<close>

lemma repair_loop_remote:
  assumes "\<forall>n \<in> set ns. node_ok n \<and> \<not> is_self cfg n"
  shows "\<exists>w. repair_loop cfg out ref bs ns s = (Ret (), s\<lparr>world := w\<rparr>)"
  using assms
proof (induction ns arbitrary: s)
  case Nil
  show ?case by (intro exI [of _ "world s"]) simp
next
  case (Cons n ns)
  obtain r w where "remote_put cfg out n ref bs s = (Ret r, s\<lparr>world := w\<rparr>)"
    using remote_put_returns [of n cfg out ref bs s] Cons.prems by auto
  with Cons.IH [of "s\<lparr>world := w\<rparr>"] Cons.prems show ?case by simp
qed

lemma isolated_get_loop:
  assumes "cut_off out" "calm_disk out" "read_quorum cfg \<le> 1"
    "service_ok s" "fst (chunk_get (local s) checksum) = Ret (Value bs)" "\<forall>t \<in> set ts. node_ok t"
    "\<forall>t \<in> set failed. node_ok t \<and> \<not> is_self cfg t"
  shows "\<exists>s'. get_loop cfg out checksum ts 0 e failed s = (Ret (Value bs), s') \<and> local s' = snd (chunk_get (local s) checksum) \<and>
    members s' = members s"
  using assms(4-7)
proof (induction ts arbitrary: e failed s)
  case Nil
  obtain l where "chunk_get (local s) checksum = (Ret (Value bs), l)" using Nil(2) by (cases "chunk_get (local s) checksum") simp
  then show ?case using assms(3) by (simp add: local_fallback_def local_get_def)
next
  case (Cons n ts)
  show ?case
  proof (cases "is_self cfg n")
    case True
    obtain l where l: "chunk_get (local s) checksum = (Ret (Value bs), l)" using Cons.prems(2) by (cases "chunk_get (local s) checksum") simp
    obtain w where "repair_loop cfg out \<lparr>ref_checksum = checksum, ref_size = of_nat (length bs)\<rparr> bs failed (s\<lparr>local := l\<rparr>) =
        (Ret (), s\<lparr>local := l, world := w\<rparr>)"
      using repair_loop_remote [OF Cons.prems(4), of out _ bs "s\<lparr>local := l\<rparr>"] by force
    with l True assms(3) show ?thesis by (simp add: fetch_def local_get_def)
  next
    case False
    obtain r w where "get_chunk (o_net out) (client_token cfg) n checksum (world s) = (Ret r, w)"
      using client_returns(2) Cons.prems(3) by (metis list.set_intros(1) node_ok_def)
    moreover have "r \<noteq> Value b" for b
      using cut_off_get [OF assms(1) False, of checksum b] calculation False by (auto simp: answered_def)
    ultimately obtain e' where f: "fetch cfg out n checksum s = (Ret (Error e'), s\<lparr>world := w\<rparr>)"
      using False by (cases r) (auto simp: fetch_def remote_get_def)
    have "\<exists>s'. get_loop cfg out checksum ts 0 e' (failed @ [n]) (s\<lparr>world := w\<rparr>) = (Ret (Value bs), s') \<and>
        local s' = snd (chunk_get (local (s\<lparr>world := w\<rparr>)) checksum) \<and> members s' = members (s\<lparr>world := w\<rparr>)"
      using Cons.prems False by (intro Cons.IH) (auto simp: service_ok_def)
    with f show ?thesis by simp
  qed
qed

lemma isolated_get:
  assumes "config_ok cfg out" "calm_disk out" "cut_off out" "read_quorum cfg \<le> 1" "service_ok s1"
    "fst (chunk_get (local s1) checksum) = Ret (Value bs)"
  shows "\<exists>s2. get cfg out checksum s1 = Some (Ret (Value bs), s2) \<and> local s2 = snd (chunk_get (local s1) checksum) \<and> service_ok s2"
proof -
  define s where "s = refresh_seed_members cfg out s1"
  have s: "service_ok s" "local s = local s1" using refresh_ok [OF assms(1,5)] by (simp_all add: s_def)
  obtain ts where ts: "\<And>q. write_plan (o_hash out) (o_iter out) (members s) checksum (replication_factor cfg) q = Some \<lparr>targets = ts, quorum = q\<rparr>"
    "\<forall>t \<in> set ts. node_ok t"
    using members_ok_plan [of "o_iter out" "members s" "o_hash out" checksum "replication_factor cfg"] assms(1) s(1)
    by (auto simp: config_ok_def service_ok_def)
  obtain s2 where "get_loop cfg out checksum ts 0 (NotFound ''chunk not found'') [] s = (Ret (Value bs), s2)"
    "local s2 = snd (chunk_get (local s1) checksum)" "members s2 = members s"
    using isolated_get_loop [OF assms(3,2,4) s(1) _ ts(2), of checksum bs "[]" "NotFound ''chunk not found''"] s(2) assms(6) by auto
  then show ?thesis using ts(1) s chunk_get_inv [of "local s1" checksum] assms(5)
    by (simp add: get_def Let_def s_def [symmetric] read_plan_def service_ok_def)
qed

text \<open>When all names hash alike, the ring holds only the node added last.\<close>

lemma constant_ring:
  assumes "ns \<noteq> []"
  shows "build_ring (\<lambda>_. 0) ns = [(0, last ns)]"
proof -
  have same: "foldl (\<lambda>r i. map_put 0 n r) [(0, n)] is = [(0, n)]" for n :: storage_node and "is" :: "nat list"
    by (induction "is") simp_all
  have put: "foldl (\<lambda>r i. map_put 0 n r) r is = [(0, n)]" if "is \<noteq> []" "r = [] \<or> (\<exists>m. r = [(0, m)])"
    for n :: storage_node and r :: ring and "is" :: "nat list"
    using that by (cases "is") (auto simp: same)
  have "add_node (\<lambda>_. 0) 128 r n = [(0, n)]" if "r = [] \<or> (\<exists>m. r = [(0, m)])" for r n
    unfolding add_node_def by (rule put [OF _ that]) simp
  with assms show ?thesis by (induction ns rule: rev_nonempty_induct) (simp_all add: build_ring_def)
qed

section \<open>Properties\<close>

definition lonely :: "unit outside" where
  "lonely = \<lparr>o_net = (\<lambda>host port msg w. (No_connection, w)), o_disk = Pair calm, o_remove = Pair None, o_clock = Pair 0,
     o_hash = (\<lambda>k. 0), o_iter = id, o_moved = (\<lambda>k. [])\<rparr>"

definition two_members :: service_config where
  "two_members = \<lparr>self = \<lparr>node_id = ''a'', address = ''a'', healthy = True\<rparr>, replication_factor = 2, write_quorum = 1, read_quorum = 1,
     has_handoff = True, seed_members = [\<lparr>node_id = ''b'', address = ''b'', healthy = True\<rparr>], client_token = ''t''\<rparr>"

definition fresh_service :: "unit service" where
  "fresh_service = \<lparr>local = chunk_store_new ''data'' 0 Map.empty, members = [], handoff = None, world = ()\<rparr>"

lemma sample_service_ok: "config_ok two_members lonely" "service_ok fresh_service" "calm_disk lonely"
  by (simp_all add: config_ok_def two_members_def lonely_def iteration_order_def node_ok_def address_ok_def split_address_def
      rfind_char_def service_ok_def fresh_service_def store_inv_new members_ok_def calm_disk_def)



text \<open>C6: A distributed read comes to an end, and any bytes it returns are the last of the answers of
  as many different planned replicas as the read quorum, or, with a read quorum of at most one,
  local bytes with the requested digest.\<close>

theorem service_get_quorum:
  assumes "config_ok cfg out" "service_ok s0" "calm_disk out"
  shows "\<exists>ts r s'.
    plan_targets (o_hash out) (o_iter out) (members (refresh_seed_members cfg out s0)) checksum (replication_factor cfg) = Some ts \<and>
    distinct (map node_id ts) \<and> get cfg out checksum s0 = Some (Ret r, s') \<and> service_ok s' \<and>
    (\<forall>b. r = Value b \<longrightarrow>
      (\<exists>as. as \<noteq> [] \<and> read_quorum cfg \<le> int (length as) \<and> subseq (map fst as) ts \<and>
            (\<forall>(n, b') \<in> set as. answered cfg out checksum n b') \<and> snd (last as) = b) \<or>
      (read_quorum cfg \<le> 1 \<and> Sha256_hex b = checksum))"
  using get_outcome [OF assms, of checksum] unfolding quorum_answer_def by (elim exE conjE) (intro exI conjI, assumption+, auto)

theorem service_get_quorum_witness:
  "\<exists>r s'. get two_members lonely ''ab'' fresh_service = Some (Ret r, s') \<and> service_ok s'"
  using service_get_quorum [OF sample_service_ok, of "''ab''"] by blast

text \<open>A chunk that was put on a node with a read quorum of at most one can be read back there
  even if no other node can be reached, wherever it is planned to be.\<close>

theorem put_then_get_isolated:
  assumes "config_ok cfg out" "service_ok s0" "calm_disk out" "cut_off out" "read_quorum cfg \<le> 1"
    "put cfg out bs s0 = Some (r, s1)"
  shows "\<exists>s2. get cfg out (Sha256_hex bs) s1 = Some (Ret (Value bs), s2)"
proof -
  have "service_ok s1" "fst (chunk_get (local s1) (Sha256_hex bs)) = Ret (Value bs)"
    using put_outcome [OF assms(1-3), of bs] assms(6) by auto
  from isolated_get [OF assms(1,3-5) this] show ?thesis by blast
qed

lemma cut_off_lonely: "cut_off lonely"
  by (simp add: cut_off_def lonely_def)

theorem put_then_get_isolated_witness:
  "\<exists>r s1 s2. put two_members lonely [7] fresh_service = Some (r, s1) \<and> get two_members lonely (Sha256_hex [7]) s1 = Some (Ret (Value [7]), s2)"
proof -
  obtain r s1 where p: "put two_members lonely [7] fresh_service = Some (r, s1)"
    using put_outcome [OF sample_service_ok, of "[7]"] by blast
  have "read_quorum two_members \<le> 1" by (simp add: two_members_def)
  from put_then_get_isolated [OF sample_service_ok cut_off_lonely this p] p show ?thesis by blast
qed

text \<open>The put counts this node's own copy even when this node is not among the planned
  replicas: with a write quorum of one it succeeds although no planned replica could be reached
  and none has the chunk.\<close>

theorem put_succeeds_off_plan:
  fixes bs :: bytes
  assumes "config_ok cfg out" "service_ok s0" "calm_disk out" "cut_off out" "write_quorum cfg \<le> 1"
    "plan_targets (o_hash out) (o_iter out) (members (refresh_seed_members cfg out s0)) (Sha256_hex bs) (replication_factor cfg) = Some ts"
    "\<forall>t \<in> set ts. node_id t \<noteq> node_id (self cfg)"
  defines "ref \<equiv> \<lparr>ref_checksum = Sha256_hex bs, ref_size = of_nat (length bs)\<rparr>"
  shows "\<exists>s'. put cfg out bs s0 = Some (Ret (Value ref), s') \<and> (\<forall>t \<in> set ts. \<not> acknowledged cfg out ref bs t)"
  using put_outcome [OF assms(1-3), of bs] assms(5) cut_off_put [OF assms(4)] by (auto simp: ref_def)

lemma sample_targets:
  "plan_targets (o_hash lonely) (o_iter lonely) (members (refresh_seed_members two_members lonely fresh_service)) key 2 =
     Some [\<lparr>node_id = ''b'', address = ''b'', healthy = True\<rparr>]"
proof -
  have m: "members (refresh_seed_members two_members lonely fresh_service) =
      heartbeat (\<lambda>k. []) 0 \<lparr>node_id = ''b'', address = ''b'', healthy = True\<rparr>
        (heartbeat (\<lambda>k. []) 0 \<lparr>node_id = ''a'', address = ''a'', healthy = True\<rparr> [])"
    by (simp add: refresh_seed_members_def two_members_def fresh_service_def beat_members lonely_def beat_def)
  show ?thesis
    unfolding m by (simp add: plan_targets_def write_plan_def lonely_def known_nodes_def heartbeat_def constant_ring locate_def lower_bound_def)
      (subst locate_loop.simps, subst locate_loop.simps, simp add: nodes_def)
qed

theorem put_succeeds_off_plan_witness:
  "\<exists>s'. put two_members lonely [7] fresh_service = Some (Ret (Value \<lparr>ref_checksum = Sha256_hex [7], ref_size = 1\<rparr>), s')"
proof -
  have c: "write_quorum two_members \<le> 1" "replication_factor two_members = 2" "node_id (self two_members) = ''a''"
    by (simp_all add: two_members_def)
  from put_succeeds_off_plan [OF sample_service_ok cut_off_lonely c(1) sample_targets [of "Sha256_hex [7]", folded c(2)]] c(3)
  show ?thesis by auto
qed

text \<open>C38: A chunk read from another node is not verified: when the first planned replica is another
  node and answers with any bytes, a read with a quorum of one returns them, whatever digest was
  asked for.\<close>

theorem remote_read_unverified:
  assumes "config_ok cfg out" "service_ok s0" "read_quorum cfg \<le> 1"
    "plan_targets (o_hash out) (o_iter out) (members (refresh_seed_members cfg out s0)) checksum (replication_factor cfg) = Some (t # ts)"
    "node_id t \<noteq> node_id (self cfg)" "split_address (address t) = Ret (host, port)"
    "\<And>msg w. o_net out host port msg w = (Reply (serialize \<lparr>status = 200, content_type = ''application/octet-stream'', resp_body = b\<rparr>), w)"
  shows "\<exists>s'. get cfg out checksum s0 = Some (Ret (Value b), s')"
proof -
  define s where "s = refresh_seed_members cfg out s0"
  have "parse_response (serialize \<lparr>status = 200, content_type = ''application/octet-stream'', resp_body = b\<rparr>) =
      Value \<lparr>status = 200, content_type = ''application/json'', resp_body = b\<rparr>"
    by (subst parse_response_serialize) (simp_all add: newline_def)
  then have "get_chunk (o_net out) (client_token cfg) t checksum (world s) = (Ret (Value b), world s)"
    using assms(6,7) by (simp add: get_chunk_def call_def http_request_def)
  then have "fetch cfg out t checksum s = (Ret (Value b), s)" using assms(5) by (simp add: fetch_def is_self_def remote_get_def)
  then show ?thesis
    using assms(3,4) by (simp add: get_def Let_def s_def [symmetric] read_plan_def write_plan_targets)
qed

theorem remote_read_unverified_witness:
  "\<exists>s'. get two_members (lonely\<lparr>o_net := \<lambda>host port msg w. (Reply (serialize \<lparr>status = 200, content_type = ''application/octet-stream'', resp_body = [6]\<rparr>), w)\<rparr>)
      ''not-a-digest'' fresh_service = Some (Ret (Value [6]), s')"
proof (rule remote_read_unverified [where host = "''b''" and port = 8080 and t = "\<lparr>node_id = ''b'', address = ''b'', healthy = True\<rparr>" and ts = "[]"])
  let ?o = "lonely\<lparr>o_net := \<lambda>host port msg w. (Reply (serialize \<lparr>status = 200, content_type = ''application/octet-stream'', resp_body = [6]\<rparr>), w)\<rparr>"
  show "config_ok two_members ?o" "service_ok fresh_service" using sample_service_ok by (simp_all add: config_ok_def)
  have "refresh_seed_members two_members ?o fresh_service = refresh_seed_members two_members lonely fresh_service"
    by (simp add: refresh_seed_members_def beat_def two_members_def)
  then show "plan_targets (o_hash ?o) (o_iter ?o) (members (refresh_seed_members two_members ?o fresh_service)) ''not-a-digest'' (replication_factor two_members) =
      Some [\<lparr>node_id = ''b'', address = ''b'', healthy = True\<rparr>]"
    using sample_targets [of "''not-a-digest''"] by (simp add: two_members_def)
qed (simp_all add: two_members_def split_address_def rfind_char_def)

text \<open>Removing an unreferenced chunk through a node that is not among its planned replicas leaves
  that node's own copy untouched, although every put through the node stores one.\<close>

theorem remove_keeps_local_copy:
  assumes "config_ok cfg out" "service_ok s0"
    "plan_targets (o_hash out) (o_iter out) (members (refresh_seed_members cfg out s0)) checksum (replication_factor cfg) = Some ts"
    "\<forall>t \<in> set ts. node_id t \<noteq> node_id (self cfg)"
  shows "\<exists>r s'. remove cfg out checksum 0 s0 = Some (Ret r, s') \<and> local s' = local s0"
proof -
  define s where "s = refresh_seed_members cfg out s0"
  have s: "service_ok s" "local s = local s0" using refresh_ok [OF assms(1,2)] by (simp_all add: s_def)
  have "\<forall>t \<in> set ts. node_ok t"
    using members_ok_plan [of "o_iter out" "members s" "o_hash out" checksum "replication_factor cfg"] assms(1,3) s(1)
    by (auto simp: config_ok_def service_ok_def s_def)
  then have "\<forall>t \<in> set ts. node_ok t \<and> \<not> is_self cfg t" using assms(4) by (simp add: is_self_def)
  from remove_loop_remote [OF this, of out checksum 0 s] obtain acks w where
    "remove_loop cfg out checksum ts 0 s = (Ret acks, s\<lparr>world := w\<rparr>)" by blast
  then show ?thesis using assms(3) s(2) by (simp add: remove_def Let_def s_def [symmetric] write_plan_targets)
qed

theorem remove_keeps_local_copy_witness:
  "\<exists>r s'. remove two_members lonely ''ab'' 0 fresh_service = Some (Ret r, s') \<and> local s' = local fresh_service"
proof -
  have c: "replication_factor two_members = 2" "node_id (self two_members) = ''a''" by (simp_all add: two_members_def)
  show ?thesis
    using remove_keeps_local_copy [OF sample_service_ok(1,2) sample_targets [of "''ab''", folded c(1)]] c(2) by simp
qed



end
