(* ===== verification/Metadata_Store.thy ===== *)
theory Metadata_Store
  imports Chunk_Store "HOL-Library.List_Lexorder" "HOL-Library.Char_ord" "HOL-Library.Multiset"
begin

text \<open>
  \<^verbatim>\<open>src/metadata/metadata_store.cpp\<close>: object records and their chunk lists in two SQLite
  tables. SQLite is a parameter (\<open>sqlite\<close>): what \<^verbatim>\<open>sqlite3_open\<close>, \<^verbatim>\<open>sqlite3_exec\<close>, a stepped
  statement and \<^verbatim>\<open>sqlite3_changes\<close> answer, and what becomes of the database behind the handle.
  The documented meaning of the statements is the hypothesis \<open>sqlite_laws\<close>; statements may fail
  at any time, and a failing statement may roll its transaction back.
\<close>

section \<open>The interface of SQLite\<close>

datatype bind = Bind_text string | Bind_int int | Bind_int64 int

text \<open>A row, by what the column accessors answer: text (\<open>None\<close> is the null pointer) and 64-bit integers.\<close>

record row =
  text_at :: "nat \<Rightarrow> string option"
  int_at :: "nat \<Rightarrow> int"

text \<open>\<open>sq_exec\<close> fails with the message it allocated, if it could; \<open>sq_step\<close> prepares, binds and
  steps a statement once and answers \<open>None\<close> for \<^verbatim>\<open>SQLITE_DONE\<close>, else the error message;
  \<open>sq_rows\<close> steps it for as long as there is a row, and tells whether the last answer was
  \<^verbatim>\<open>SQLITE_DONE\<close>, which the code never looks at.\<close>

datatype exec_answer = Exec_ok | Exec_failed "string option"

record 'db sqlite =
  sq_open :: "string \<Rightarrow> 'db \<Rightarrow> string option \<times> 'db"
  sq_exec :: "string \<Rightarrow> 'db \<Rightarrow> exec_answer \<times> 'db"
  sq_step :: "string \<Rightarrow> bind list \<Rightarrow> 'db \<Rightarrow> string option \<times> 'db"
  sq_rows :: "string \<Rightarrow> bind list \<Rightarrow> 'db \<Rightarrow> row list \<times> bool \<times> 'db"
  sq_changes :: "'db \<Rightarrow> int"

section \<open>The implementation\<close>

record object_metadata =
  md_bucket :: string
  md_key :: string
  md_size :: u64
  md_checksum :: string
  md_chunks :: "chunk_ref list"

text \<open>A \<^verbatim>\<open>c_str()\<close> read as a C string ends at the first NUL.\<close>

definition c_str :: "string \<Rightarrow> string" where
  "c_str s = takeWhile (\<lambda>c. c \<noteq> CHR 0x00) s"

definition sql_schema :: string where
  "sql_schema =
     ''PRAGMA journal_mode=WAL;'' @
     ''CREATE TABLE IF NOT EXISTS objects(bucket TEXT NOT NULL,key TEXT NOT NULL,size INTEGER NOT NULL,checksum TEXT NOT NULL,created_at INTEGER DEFAULT (unixepoch()),PRIMARY KEY(bucket,key));'' @
     ''CREATE TABLE IF NOT EXISTS chunks(bucket TEXT NOT NULL,key TEXT NOT NULL,position INTEGER NOT NULL,checksum TEXT NOT NULL,size INTEGER NOT NULL,PRIMARY KEY(bucket,key,position));'' @
     ''CREATE INDEX IF NOT EXISTS idx_chunks_checksum ON chunks(checksum);'' @
     ''CREATE INDEX IF NOT EXISTS idx_objects_bucket ON objects(bucket);''"

definition sql_insert_object :: string where
  "sql_insert_object = ''INSERT OR REPLACE INTO objects(bucket,key,size,checksum) VALUES(?,?,?,?)''"

definition sql_delete_chunks :: string where
  "sql_delete_chunks = ''DELETE FROM chunks WHERE bucket=? AND key=?''"

definition sql_insert_chunk :: string where
  "sql_insert_chunk = ''INSERT INTO chunks(bucket,key,position,checksum,size) VALUES(?,?,?,?,?)''"

definition sql_select_object :: string where
  "sql_select_object = ''SELECT size,checksum FROM objects WHERE bucket=? AND key=?''"

definition sql_select_chunks :: string where
  "sql_select_chunks = ''SELECT checksum,size FROM chunks WHERE bucket=? AND key=? ORDER BY position''"

definition sql_delete_object :: string where
  "sql_delete_object = ''DELETE FROM objects WHERE bucket=? AND key=?''"

definition sql_count_chunks :: string where
  "sql_count_chunks = ''SELECT COUNT(*) FROM chunks WHERE checksum=?''"

definition sql_list_objects :: string where
  "sql_list_objects = ''SELECT key,size,checksum FROM objects WHERE bucket=? ORDER BY key''"

definition sql_exec :: "'db sqlite \<Rightarrow> string \<Rightarrow> 'db \<Rightarrow> unit result \<times> 'db" where
  "sql_exec sq sql db =
     (case sq_exec sq (c_str sql) db of
        (Exec_ok, db') \<Rightarrow> (Value (), db')
      | (Exec_failed err, db') \<Rightarrow> (Error (Internal (case err of Some m \<Rightarrow> m | None \<Rightarrow> ''sqlite error'')), db'))"

definition metadata_open :: "'db sqlite \<Rightarrow> bool \<Rightarrow> string \<Rightarrow> 'db \<Rightarrow> unit result outcome \<times> 'db" where
  "metadata_open sq can_mkdir db_path db =
     (if \<not> can_mkdir then (Throw filesystem_error, db)
      else case sq_open sq (c_str db_path) db of
             (Some msg, db') \<Rightarrow> (Ret (Error (Internal msg)), db')
           | (None, db') \<Rightarrow> apfst Ret (sql_exec sq sql_schema db'))"

text \<open>The loop over the chunks; \<^verbatim>\<open>pos\<close> is an \<^verbatim>\<open>int\<close>, its increment past the maximum is undefined.
  The answer is the error message of the failing step, if any.\<close>

fun insert_chunks :: "'db sqlite \<Rightarrow> string \<Rightarrow> string \<Rightarrow> int \<Rightarrow> chunk_ref list \<Rightarrow> 'db \<Rightarrow> string option outcome \<times> 'db" where
  "insert_chunks sq b k pos [] db = (Ret None, db)"
| "insert_chunks sq b k pos (c # cs) db =
     (if pos = 2 ^ 31 - 1 then (Undefined, db)
      else case sq_step sq sql_insert_chunk
                  [Bind_text (c_str b), Bind_text (c_str k), Bind_int pos, Bind_text (c_str (ref_checksum c)), Bind_int64 (sint (ref_size c))] db of
             (Some msg, db') \<Rightarrow> (Ret (Some msg), db')
           | (None, db') \<Rightarrow> insert_chunks sq b k (pos + 1) cs db')"

definition put_object :: "'db sqlite \<Rightarrow> object_metadata \<Rightarrow> 'db \<Rightarrow> unit result outcome \<times> 'db" where
  "put_object sq m db =
     (case sql_exec sq ''BEGIN IMMEDIATE;'' db of
        (Error s, db1) \<Rightarrow> (Ret (Error s), db1)
      | (Value _, db1) \<Rightarrow>
          (case sq_step sq sql_insert_object
                  [Bind_text (c_str (md_bucket m)), Bind_text (c_str (md_key m)), Bind_int64 (sint (md_size m)), Bind_text (c_str (md_checksum m))] db1 of
             (Some msg, db2) \<Rightarrow> (Ret (Error (Internal msg)), snd (sql_exec sq ''ROLLBACK;'' db2))
           | (None, db2) \<Rightarrow>
               (let db3 = snd (sq_step sq sql_delete_chunks [Bind_text (c_str (md_bucket m)), Bind_text (c_str (md_key m))] db2)
                in case insert_chunks sq (md_bucket m) (md_key m) 0 (md_chunks m) db3 of
                     (Ret (Some msg), db4) \<Rightarrow> (Ret (Error (Internal msg)), snd (sql_exec sq ''ROLLBACK;'' db4))
                   | (Ret None, db4) \<Rightarrow> apfst Ret (sql_exec sq ''COMMIT;'' db4)
                   | (Throw e, db4) \<Rightarrow> (Throw e, db4)
                   | (Undefined, db4) \<Rightarrow> (Undefined, db4))))"

definition chunk_of_row :: "row \<Rightarrow> chunk_ref outcome" where
  "chunk_of_row r = (case text_at r 0 of None \<Rightarrow> Undefined | Some c \<Rightarrow> Ret \<lparr>ref_checksum = c, ref_size = word_of_int (int_at r 1)\<rparr>)"

definition get_object :: "'db sqlite \<Rightarrow> string \<Rightarrow> string \<Rightarrow> 'db \<Rightarrow> object_metadata result outcome \<times> 'db" where
  "get_object sq b k db =
     (case sq_rows sq sql_select_object [Bind_text (c_str b), Bind_text (c_str k)] db of
        ([], _, db1) \<Rightarrow> (Ret (Error (NotFound ''object not found'')), db1)
      | (r # _, _, db1) \<Rightarrow>
          (case text_at r 1 of
             None \<Rightarrow> (Undefined, db1)
           | Some c \<Rightarrow>
               (case sq_rows sq sql_select_chunks [Bind_text (c_str b), Bind_text (c_str k)] db1 of
                  (rows, _, db2) \<Rightarrow>
                    (obind (omap chunk_of_row rows) (\<lambda>cs. Ret (Value \<lparr>md_bucket = b, md_key = k, md_size = word_of_int (int_at r 0),
                       md_checksum = c, md_chunks = cs\<rparr>)), db2))))"

definition delete_object :: "'db sqlite \<Rightarrow> string \<Rightarrow> string \<Rightarrow> 'db \<Rightarrow> unit result \<times> 'db" where
  "delete_object sq b k db =
     (let db1 = snd (sq_step sq sql_delete_chunks [Bind_text (c_str b), Bind_text (c_str k)] db);
          db2 = snd (sq_step sq sql_delete_object [Bind_text (c_str b), Bind_text (c_str k)] db1)
      in if sq_changes sq db2 = 0 then (Error (NotFound ''object not found''), db2) else (Value (), db2))"

text \<open>\<^verbatim>\<open>sqlite3_column_int\<close> is the low half of the 64-bit value, and 0 without a row.\<close>

definition chunk_ref_count :: "'db sqlite \<Rightarrow> string \<Rightarrow> 'db \<Rightarrow> int result \<times> 'db" where
  "chunk_ref_count sq checksum db =
     (case sq_rows sq sql_count_chunks [Bind_text (c_str checksum)] db of
        ([], _, db') \<Rightarrow> (Value 0, db')
      | (r # _, _, db') \<Rightarrow> (Value (sint (word_of_int (int_at r 0) :: 32 word)), db'))"

definition object_of_row :: "string \<Rightarrow> row \<Rightarrow> object_metadata outcome" where
  "object_of_row b r =
     (case (text_at r 0, text_at r 2) of
        (Some k, Some c) \<Rightarrow> Ret \<lparr>md_bucket = b, md_key = k, md_size = word_of_int (int_at r 1), md_checksum = c, md_chunks = []\<rparr>
      | _ \<Rightarrow> Undefined)"

definition list_objects :: "'db sqlite \<Rightarrow> string \<Rightarrow> 'db \<Rightarrow> object_metadata list result outcome \<times> 'db" where
  "list_objects sq b db =
     (case sq_rows sq sql_list_objects [Bind_text (c_str b)] db of
        (rows, _, db') \<Rightarrow> (obind (omap (object_of_row b) rows) (\<lambda>os. Ret (Value os)), db'))"

section \<open>The tables and the meaning of the statements\<close>

text \<open>The two tables, each in the order of its row identifiers, without the column \<^verbatim>\<open>created_at\<close>
  that nothing reads.\<close>

record tables =
  t_objects :: "((string \<times> string) \<times> int \<times> string) list"
  t_chunks :: "((string \<times> string) \<times> int \<times> string \<times> int) list"

definition do_insert_object :: "string \<Rightarrow> string \<Rightarrow> int \<Rightarrow> string \<Rightarrow> tables \<Rightarrow> tables" where
  "do_insert_object b k n c t = t\<lparr>t_objects := filter (\<lambda>r. fst r \<noteq> (b, k)) (t_objects t) @ [((b, k), n, c)]\<rparr>"

definition do_delete_object :: "string \<Rightarrow> string \<Rightarrow> tables \<Rightarrow> tables" where
  "do_delete_object b k t = t\<lparr>t_objects := filter (\<lambda>r. fst r \<noteq> (b, k)) (t_objects t)\<rparr>"

definition do_delete_chunks :: "string \<Rightarrow> string \<Rightarrow> tables \<Rightarrow> tables" where
  "do_delete_chunks b k t = t\<lparr>t_chunks := filter (\<lambda>r. fst r \<noteq> (b, k)) (t_chunks t)\<rparr>"

definition do_insert_chunk :: "string \<Rightarrow> string \<Rightarrow> int \<Rightarrow> string \<Rightarrow> int \<Rightarrow> tables \<Rightarrow> tables" where
  "do_insert_chunk b k pos c n t = t\<lparr>t_chunks := t_chunks t @ [((b, k), pos, c, n)]\<rparr>"

definition sel_object :: "string \<Rightarrow> string \<Rightarrow> tables \<Rightarrow> (int \<times> string) list" where
  "sel_object b k t = map snd (filter (\<lambda>r. fst r = (b, k)) (t_objects t))"

definition sel_chunks :: "string \<Rightarrow> string \<Rightarrow> tables \<Rightarrow> (string \<times> int) list" where
  "sel_chunks b k t = map snd (sort_key fst (map snd (filter (\<lambda>r. fst r = (b, k)) (t_chunks t))))"

definition sel_count :: "string \<Rightarrow> tables \<Rightarrow> int" where
  "sel_count c t = int (length (filter (\<lambda>(_, _, c', _). c' = c) (t_chunks t)))"

definition sel_list :: "string \<Rightarrow> tables \<Rightarrow> (string \<times> int \<times> string) list" where
  "sel_list b t = sort_key fst (map (\<lambda>((_, k), n, c). (k, n, c)) (filter (\<lambda>r. fst (fst r) = b) (t_objects t)))"

text \<open>A statement that fails changes nothing, or rolls back the transaction it is part of.
  \<open>view\<close> is what the connection sees, \<open>tx\<close> the tables at the start of the open transaction.\<close>

definition sql_failed :: "('db \<Rightarrow> tables) \<Rightarrow> ('db \<Rightarrow> tables option) \<Rightarrow> 'db \<Rightarrow> 'db \<Rightarrow> bool" where
  "sql_failed view tx db db' \<longleftrightarrow> view db' = view db \<and> tx db' = tx db \<or> (\<exists>t. tx db = Some t \<and> view db' = t \<and> tx db' = None)"

definition step_law :: "'db sqlite \<Rightarrow> ('db \<Rightarrow> tables) \<Rightarrow> ('db \<Rightarrow> tables option) \<Rightarrow> string \<Rightarrow> bind list \<Rightarrow> (tables \<Rightarrow> tables) \<Rightarrow> bool" where
  "step_law sq view tx sql binds f \<longleftrightarrow>
     (\<forall>db. case sq_step sq sql binds db of
             (None, db') \<Rightarrow> view db' = f (view db) \<and> tx db' = tx db
           | (Some _, db') \<Rightarrow> sql_failed view tx db db')"

text \<open>A query delivers the rows in order, all of them when it completes.\<close>

definition rows_law :: "'db sqlite \<Rightarrow> ('db \<Rightarrow> tables) \<Rightarrow> ('db \<Rightarrow> tables option) \<Rightarrow> string \<Rightarrow> bind list \<Rightarrow> (row \<Rightarrow> 'r) \<Rightarrow> (tables \<Rightarrow> 'r list) \<Rightarrow> bool" where
  "rows_law sq view tx sql binds column sel \<longleftrightarrow>
     (\<forall>db. case sq_rows sq sql binds db of
             (rows, True, db') \<Rightarrow> map column rows = sel (view db) \<and> view db' = view db \<and> tx db' = tx db
           | (rows, False, db') \<Rightarrow> (\<exists>more. map column rows @ more = sel (view db)) \<and> sql_failed view tx db db')"

definition transaction_laws :: "'db sqlite \<Rightarrow> ('db \<Rightarrow> tables) \<Rightarrow> ('db \<Rightarrow> tables option) \<Rightarrow> bool" where
  "transaction_laws sq view tx \<longleftrightarrow>
     (\<forall>db. (case sq_exec sq ''BEGIN IMMEDIATE;'' db of
              (Exec_ok, db') \<Rightarrow> tx db = None \<and> tx db' = Some (view db) \<and> view db' = view db
            | (Exec_failed _, db') \<Rightarrow> view db' = view db \<and> tx db' = tx db) \<and>
           (case sq_exec sq ''COMMIT;'' db of
              (Exec_ok, db') \<Rightarrow> tx db \<noteq> None \<and> tx db' = None \<and> view db' = view db
            | (Exec_failed _, db') \<Rightarrow> sql_failed view tx db db') \<and>
           (case sq_exec sq ''ROLLBACK;'' db of
              (_, db') \<Rightarrow> tx db' = None \<and> view db' = (case tx db of None \<Rightarrow> view db | Some t \<Rightarrow> t)))"

text \<open>The statements, for the texts that the code can bind.\<close>

definition statement_laws :: "'db sqlite \<Rightarrow> ('db \<Rightarrow> tables) \<Rightarrow> ('db \<Rightarrow> tables option) \<Rightarrow> bool" where
  "statement_laws sq view tx \<longleftrightarrow>
     (\<forall>b k n c. step_law sq view tx sql_insert_object [Bind_text (c_str b), Bind_text (c_str k), Bind_int64 n, Bind_text (c_str c)]
        (do_insert_object (c_str b) (c_str k) n (c_str c))) \<and>
     (\<forall>b k. step_law sq view tx sql_delete_chunks [Bind_text (c_str b), Bind_text (c_str k)] (do_delete_chunks (c_str b) (c_str k))) \<and>
     (\<forall>b k. step_law sq view tx sql_delete_object [Bind_text (c_str b), Bind_text (c_str k)] (do_delete_object (c_str b) (c_str k))) \<and>
     (\<forall>b k p c n. step_law sq view tx sql_insert_chunk [Bind_text (c_str b), Bind_text (c_str k), Bind_int p, Bind_text (c_str c), Bind_int64 n]
        (do_insert_chunk (c_str b) (c_str k) p (c_str c) n)) \<and>
     (\<forall>b k db db'. sq_step sq sql_delete_object [Bind_text (c_str b), Bind_text (c_str k)] db = (None, db') \<longrightarrow>
        sq_changes sq db' = int (length (sel_object (c_str b) (c_str k) (view db))))"

definition query_laws :: "'db sqlite \<Rightarrow> ('db \<Rightarrow> tables) \<Rightarrow> ('db \<Rightarrow> tables option) \<Rightarrow> bool" where
  "query_laws sq view tx \<longleftrightarrow>
     (\<forall>b k. rows_law sq view tx sql_select_object [Bind_text (c_str b), Bind_text (c_str k)] (\<lambda>r. (int_at r 0, text_at r 1))
        (\<lambda>t. map (apsnd Some) (sel_object (c_str b) (c_str k) t))) \<and>
     (\<forall>b k. rows_law sq view tx sql_select_chunks [Bind_text (c_str b), Bind_text (c_str k)] (\<lambda>r. (text_at r 0, int_at r 1))
        (\<lambda>t. map (apfst Some) (sel_chunks (c_str b) (c_str k) t))) \<and>
     (\<forall>c. rows_law sq view tx sql_count_chunks [Bind_text (c_str c)] (\<lambda>r. int_at r 0) (\<lambda>t. [sel_count (c_str c) t])) \<and>
     (\<forall>b. rows_law sq view tx sql_list_objects [Bind_text (c_str b)] (\<lambda>r. (text_at r 0, int_at r 1, text_at r 2))
        (\<lambda>t. map (\<lambda>(k, n, c). (Some k, n, Some c)) (sel_list (c_str b) t)))"

definition sqlite_laws :: "'db sqlite \<Rightarrow> ('db \<Rightarrow> tables) \<Rightarrow> ('db \<Rightarrow> tables option) \<Rightarrow> bool" where
  "sqlite_laws sq view tx \<longleftrightarrow> transaction_laws sq view tx \<and> statement_laws sq view tx \<and> query_laws sq view tx"

text \<open>Hypotheses on single calls: the statements that the code does not check complete.\<close>

definition deletes_complete :: "'db sqlite \<Rightarrow> bool" where
  "deletes_complete sq \<longleftrightarrow>
     (\<forall>b k db. fst (sq_step sq sql_delete_chunks [Bind_text b, Bind_text k] db) = None \<and>
        fst (sq_step sq sql_delete_object [Bind_text b, Bind_text k] db) = None)"

definition reads_complete :: "'db sqlite \<Rightarrow> bool" where
  "reads_complete sq \<longleftrightarrow> (\<forall>sql binds db. fst (snd (sq_rows sq sql binds db)))"

section \<open>The abstract store\<close>

text \<open>What the tables represent: each object with its size, checksum and chunk list.\<close>

type_synonym object_map = "string \<times> string \<rightharpoonup> u64 \<times> string \<times> chunk_ref list"

definition ref_of :: "string \<times> int \<Rightarrow> chunk_ref" where
  "ref_of x = \<lparr>ref_checksum = fst x, ref_size = word_of_int (snd x)\<rparr>"

definition object_map :: "tables \<Rightarrow> object_map" where
  "object_map t = (\<lambda>(b, k). case sel_object b k t of
      [] \<Rightarrow> None
    | (n, c) # _ \<Rightarrow> Some (word_of_int n, c, map ref_of (sel_chunks b k t)))"

lemma sel_object_insert [simp]:
  "sel_object b' k' (do_insert_object b k n c t) = (if (b', k') = (b, k) then [(n, c)] else sel_object b' k' t)"
  by (auto simp: sel_object_def do_insert_object_def filter_empty_conv intro!: arg_cong [of _ _ "map snd"] filter_cong)

lemma sel_object_delete [simp]:
  "sel_object b' k' (do_delete_object b k t) = (if (b', k') = (b, k) then [] else sel_object b' k' t)"
  by (auto simp: sel_object_def do_delete_object_def filter_empty_conv intro!: arg_cong [of _ _ "map snd"] filter_cong)

lemma sel_object_chunks [simp]:
  "sel_object b' k' (do_delete_chunks b k t) = sel_object b' k' t"
  "sel_object b' k' (do_insert_chunk b k p c n t) = sel_object b' k' t"
  by (simp_all add: sel_object_def do_delete_chunks_def do_insert_chunk_def)

lemma sel_chunks_objects [simp]:
  "sel_chunks b' k' (do_insert_object b k n c t) = sel_chunks b' k' t"
  "sel_chunks b' k' (do_delete_object b k t) = sel_chunks b' k' t"
  by (simp_all add: sel_chunks_def do_insert_object_def do_delete_object_def)

lemma sel_chunks_delete [simp]:
  "sel_chunks b' k' (do_delete_chunks b k t) = (if (b', k') = (b, k) then [] else sel_chunks b' k' t)"
  by (auto simp: sel_chunks_def do_delete_chunks_def filter_empty_conv intro!: arg_cong [of _ _ "\<lambda>x. map snd (sort_key fst (map snd x))"] filter_cong)

text \<open>The rows that the loop of \<open>put_object\<close> adds.\<close>

fun put_chunks :: "string \<Rightarrow> string \<Rightarrow> int \<Rightarrow> chunk_ref list \<Rightarrow> tables \<Rightarrow> tables" where
  "put_chunks b k pos [] t = t"
| "put_chunks b k pos (c # cs) t = put_chunks b k (pos + 1) cs (do_insert_chunk b k pos (c_str (ref_checksum c)) (sint (ref_size c)) t)"

definition stored_ref :: "chunk_ref \<Rightarrow> chunk_ref" where
  "stored_ref c = c\<lparr>ref_checksum := c_str (ref_checksum c)\<rparr>"

definition chunk_rows :: "int \<Rightarrow> chunk_ref list \<Rightarrow> (int \<times> string \<times> int) list" where
  "chunk_rows pos cs = zip (map (\<lambda>i. pos + int i) [0..<length cs]) (map (\<lambda>c. (c_str (ref_checksum c), sint (ref_size c))) cs)"

lemma chunk_rows_Cons: "chunk_rows pos (c # cs) = (pos, c_str (ref_checksum c), sint (ref_size c)) # chunk_rows (pos + 1) cs"
proof -
  have "map (\<lambda>i. pos + int i) [0..<Suc (length cs)] = pos # map (\<lambda>i. pos + 1 + int i) [0..<length cs]"
    unfolding map_upt_Suc by simp
  then show ?thesis by (simp only: chunk_rows_def length_Cons list.map zip_Cons_Cons)
qed

lemma t_chunks_put: "t_chunks (put_chunks b k pos cs t) = t_chunks t @ map (Pair (b, k)) (chunk_rows pos cs)"
proof (induction cs arbitrary: pos t)
  case Nil
  then show ?case by (simp add: chunk_rows_def)
next
  case (Cons c cs)
  then show ?case by (simp add: chunk_rows_Cons do_insert_chunk_def)
qed

lemma sel_object_put_chunks [simp]: "sel_object b' k' (put_chunks b k pos cs t) = sel_object b' k' t"
  by (induction cs arbitrary: pos t) simp_all

lemma chunk_rows_sorted: "sorted (map fst (chunk_rows pos cs))"
  by (simp add: chunk_rows_def sorted_iff_nth_mono)

lemma chunk_rows_refs: "map ref_of (map snd (chunk_rows pos cs)) = map stored_ref cs"
  by (induction cs arbitrary: pos) (auto simp: chunk_rows_Cons ref_of_def stored_ref_def chunk_rows_def [of _ "[]"])

lemma sel_chunks_put:
  assumes "sel_chunks b k t = []"
  shows "map ref_of (sel_chunks b' k' (put_chunks b k pos cs t)) =
    (if (b', k') = (b, k) then map stored_ref cs else map ref_of (sel_chunks b' k' t))"
proof (cases "(b', k') = (b, k)")
  case True
  have f: "filter (\<lambda>r. fst r = (b, k)) (t_chunks t) = []"
    using assms by (metis (no_types, lifting) length_0_conv length_map length_sort sel_chunks_def)
  have "sel_chunks b k (put_chunks b k pos cs t) = map snd (chunk_rows pos cs)"
    using f chunk_rows_sorted [of pos cs] by (simp add: sel_chunks_def t_chunks_put comp_def sorted_sort_id sort_key_id_if_sorted)
  with True show ?thesis using chunk_rows_refs by simp
next
  case False
  then show ?thesis by (auto simp: sel_chunks_def t_chunks_put)
qed

text \<open>The tables after a complete \<open>put_object\<close>, and what they represent.\<close>

definition put_tables :: "object_metadata \<Rightarrow> tables \<Rightarrow> tables" where
  "put_tables m t = put_chunks (c_str (md_bucket m)) (c_str (md_key m)) 0 (md_chunks m)
     (do_delete_chunks (c_str (md_bucket m)) (c_str (md_key m))
       (do_insert_object (c_str (md_bucket m)) (c_str (md_key m)) (sint (md_size m)) (c_str (md_checksum m)) t))"

lemma object_map_put:
  "object_map (put_tables m t) =
     (object_map t)((c_str (md_bucket m), c_str (md_key m)) \<mapsto> (md_size m, c_str (md_checksum m), map stored_ref (md_chunks m)))"
  by (rule ext) (auto simp: object_map_def put_tables_def sel_chunks_put split: list.splits if_splits)

lemma object_map_delete:
  "object_map (do_delete_object b k (do_delete_chunks b k t)) = (object_map t)((b, k) := None)"
  by (rule ext) (auto simp: object_map_def split: list.splits if_splits)

section \<open>The operations under the laws\<close>

lemma step_done: "step_law sq view tx sql binds f \<Longrightarrow> sq_step sq sql binds db = (None, db') \<Longrightarrow> view db' = f (view db) \<and> tx db' = tx db"
  unfolding step_law_def by (drule spec [of _ db]) simp

lemma step_failed: "step_law sq view tx sql binds f \<Longrightarrow> sq_step sq sql binds db = (Some m, db') \<Longrightarrow> sql_failed view tx db db'"
  unfolding step_law_def by (drule spec [of _ db]) simp

lemma rows_done:
  "rows_law sq view tx sql binds column sel \<Longrightarrow> sq_rows sq sql binds db = (rows, True, db') \<Longrightarrow>
     map column rows = sel (view db) \<and> view db' = view db \<and> tx db' = tx db"
  unfolding rows_law_def by (drule spec [of _ db]) simp

lemma statement_lawsD:
  assumes "statement_laws sq view tx"
  shows "step_law sq view tx sql_insert_object [Bind_text (c_str b), Bind_text (c_str k), Bind_int64 n, Bind_text (c_str c)]
      (do_insert_object (c_str b) (c_str k) n (c_str c))"
    and "step_law sq view tx sql_delete_chunks [Bind_text (c_str b), Bind_text (c_str k)] (do_delete_chunks (c_str b) (c_str k))"
    and "step_law sq view tx sql_delete_object [Bind_text (c_str b), Bind_text (c_str k)] (do_delete_object (c_str b) (c_str k))"
    and "step_law sq view tx sql_insert_chunk [Bind_text (c_str b), Bind_text (c_str k), Bind_int p, Bind_text (c_str c), Bind_int64 n]
      (do_insert_chunk (c_str b) (c_str k) p (c_str c) n)"
  using assms by (simp_all add: statement_laws_def)

lemma query_lawsD:
  assumes "sqlite_laws sq view tx"
  shows "rows_law sq view tx sql_select_object [Bind_text (c_str b), Bind_text (c_str k)] (\<lambda>r. (int_at r 0, text_at r 1))
      (\<lambda>t. map (apsnd Some) (sel_object (c_str b) (c_str k) t))"
    and "rows_law sq view tx sql_select_chunks [Bind_text (c_str b), Bind_text (c_str k)] (\<lambda>r. (text_at r 0, int_at r 1))
      (\<lambda>t. map (apfst Some) (sel_chunks (c_str b) (c_str k) t))"
    and "rows_law sq view tx sql_count_chunks [Bind_text (c_str c)] (\<lambda>r. int_at r 0) (\<lambda>t. [sel_count (c_str c) t])"
    and "rows_law sq view tx sql_list_objects [Bind_text (c_str b)] (\<lambda>r. (text_at r 0, int_at r 1, text_at r 2))
      (\<lambda>t. map (\<lambda>(k, n, c). (Some k, n, Some c)) (sel_list (c_str b) t))"
  using assms unfolding sqlite_laws_def query_laws_def by blast+

lemma c_str_literal [simp]: "CHR 0x00 \<notin> set s \<Longrightarrow> c_str s = s"
  by (auto simp: c_str_def takeWhile_eq_all_conv)

lemma sql_exec_begin:
  assumes "transaction_laws sq view tx" "sql_exec sq ''BEGIN IMMEDIATE;'' db = (r, db')"
  shows "view db' = view db \<and> (case r of Value _ \<Rightarrow> tx db = None \<and> tx db' = Some (view db) | Error _ \<Rightarrow> tx db' = tx db)"
proof -
  have "case sq_exec sq ''BEGIN IMMEDIATE;'' db of
      (Exec_ok, db') \<Rightarrow> tx db = None \<and> tx db' = Some (view db) \<and> view db' = view db
    | (Exec_failed _, db') \<Rightarrow> view db' = view db \<and> tx db' = tx db"
    using assms(1) by (simp add: transaction_laws_def)
  then show ?thesis using assms(2) by (auto simp: sql_exec_def split: prod.splits exec_answer.splits)
qed

lemma sql_exec_commit:
  assumes "transaction_laws sq view tx" "sql_exec sq ''COMMIT;'' db = (r, db')"
  shows "case r of Value _ \<Rightarrow> tx db' = None \<and> view db' = view db | Error _ \<Rightarrow> sql_failed view tx db db'"
proof -
  have "case sq_exec sq ''COMMIT;'' db of
      (Exec_ok, db') \<Rightarrow> tx db \<noteq> None \<and> tx db' = None \<and> view db' = view db
    | (Exec_failed _, db') \<Rightarrow> sql_failed view tx db db'"
    using assms(1) by (simp add: transaction_laws_def)
  then show ?thesis using assms(2) by (auto simp: sql_exec_def split: prod.splits exec_answer.splits)
qed

lemma sql_exec_rollback:
  assumes "transaction_laws sq view tx"
  shows "tx (snd (sql_exec sq ''ROLLBACK;'' db)) = None \<and>
    view (snd (sql_exec sq ''ROLLBACK;'' db)) = (case tx db of None \<Rightarrow> view db | Some t \<Rightarrow> t)"
proof -
  have "case sq_exec sq ''ROLLBACK;'' db of (_, db') \<Rightarrow> tx db' = None \<and> view db' = (case tx db of None \<Rightarrow> view db | Some t \<Rightarrow> t)"
    using assms by (simp add: transaction_laws_def)
  then show ?thesis by (auto simp: sql_exec_def split: prod.splits exec_answer.splits)
qed

text \<open>After a failing statement of a transaction, rolling back restores the tables of its start.\<close>

definition tx_at :: "('db \<Rightarrow> tables) \<Rightarrow> ('db \<Rightarrow> tables option) \<Rightarrow> tables \<Rightarrow> 'db \<Rightarrow> bool" where
  "tx_at view tx t db \<longleftrightarrow> tx db = Some t \<or> view db = t \<and> tx db = None"

lemma sql_failed_tx: "tx db = Some t \<Longrightarrow> sql_failed view tx db db' \<Longrightarrow> tx_at view tx t db'"
  by (auto simp: sql_failed_def tx_at_def)

lemma rollback_restores:
  "transaction_laws sq view tx \<Longrightarrow> tx_at view tx t db \<Longrightarrow>
     view (snd (sql_exec sq ''ROLLBACK;'' db)) = t \<and> tx (snd (sql_exec sq ''ROLLBACK;'' db)) = None"
  using sql_exec_rollback [of sq view tx db] by (auto simp: tx_at_def)

lemma insert_chunks_returns:
  "pos + int (length cs) \<le> 2 ^ 31 - 1 \<Longrightarrow> \<exists>r db'. insert_chunks sq b k pos cs db = (Ret r, db')"
  by (induction cs arbitrary: pos db) (auto split: prod.split option.split)

lemma insert_chunks_tables:
  assumes "statement_laws sq view tx"
  shows "insert_chunks sq b k pos cs db = (Ret None, db') \<Longrightarrow>
    view db' = put_chunks (c_str b) (c_str k) pos cs (view db) \<and> tx db' = tx db"
proof (induction cs arbitrary: pos db)
  case (Cons c cs)
  then obtain db1 where s: "sq_step sq sql_insert_chunk
      [Bind_text (c_str b), Bind_text (c_str k), Bind_int pos, Bind_text (c_str (ref_checksum c)), Bind_int64 (sint (ref_size c))] db = (None, db1)"
    and r: "insert_chunks sq b k (pos + 1) cs db1 = (Ret None, db')"
    by (auto split: if_splits prod.splits option.splits)
  from statement_lawsD(4) [OF assms] s have "view db1 = do_insert_chunk (c_str b) (c_str k) pos (c_str (ref_checksum c)) (sint (ref_size c)) (view db) \<and> tx db1 = tx db"
    by (rule step_done)
  then show ?case using Cons.IH [OF r] by simp
qed simp

lemma insert_chunks_failed:
  assumes "statement_laws sq view tx"
  shows "insert_chunks sq b k pos cs db = (Ret (Some msg), db') \<Longrightarrow> tx db = Some t \<Longrightarrow> tx_at view tx t db'"
proof (induction cs arbitrary: pos db)
  case (Cons c cs)
  let ?run = "sq_step sq sql_insert_chunk
      [Bind_text (c_str b), Bind_text (c_str k), Bind_int pos, Bind_text (c_str (ref_checksum c)), Bind_int64 (sint (ref_size c))] db"
  note law = statement_lawsD(4) [OF assms, of b k pos "ref_checksum c" "sint (ref_size c)"]
  obtain m db1 where run: "?run = (m, db1)" by (cases ?run)
  show ?case
  proof (cases m)
    case None
    then have "insert_chunks sq b k (pos + 1) cs db1 = (Ret (Some msg), db')" using Cons.prems(1) run by (auto split: if_splits)
    moreover have "tx db1 = Some t" using step_done [OF law] run None Cons.prems(2) by simp
    ultimately show ?thesis by (rule Cons.IH)
  next
    case (Some e)
    then have "db1 = db'" using Cons.prems(1) run by (auto split: if_splits)
    moreover have "sql_failed view tx db db1" using law run unfolding Some by (rule step_failed)
    ultimately show ?thesis using sql_failed_tx [of tx, OF Cons.prems(2)] by simp
  qed
qed simp

text \<open>The statements between \<^verbatim>\<open>BEGIN\<close> and \<^verbatim>\<open>COMMIT\<close>: the tables are written, or the transaction is still the
  one that was begun or has been rolled back.\<close>

lemma put_object_statements:
  assumes laws: "sqlite_laws sq view tx" "deletes_complete sq" and "tx db1 = Some t" "view db1 = t" "length (md_chunks m) \<le> 2 ^ 31 - 1"
    and i: "sq_step sq sql_insert_object [Bind_text (c_str (md_bucket m)), Bind_text (c_str (md_key m)), Bind_int64 (sint (md_size m)), Bind_text (c_str (md_checksum m))] db1 = (m2, db2)"
    and d: "sq_step sq sql_delete_chunks [Bind_text (c_str (md_bucket m)), Bind_text (c_str (md_key m))] db2 = (m3, db3)"
    and c: "insert_chunks sq (md_bucket m) (md_key m) 0 (md_chunks m) db3 = (Ret m4, db4)"
  shows "(m2 \<noteq> None \<longrightarrow> tx_at view tx t db2) \<and> (m2 = None \<longrightarrow> m4 \<noteq> None \<longrightarrow> tx_at view tx t db4) \<and>
    (m2 = None \<longrightarrow> m4 = None \<longrightarrow> view db4 = put_tables m t \<and> tx db4 = Some t)"
proof -
  let ?b = "md_bucket m" and ?k = "md_key m"
  have sl: "statement_laws sq view tx" using laws(1) by (simp add: sqlite_laws_def)
  note il = statement_lawsD(1) [OF sl, of ?b ?k "sint (md_size m)" "md_checksum m"] and dl = statement_lawsD(2) [OF sl, of ?b ?k]
  have m3: "m3 = None" using laws(2) d unfolding deletes_complete_def by (metis fst_conv)
  show ?thesis
  proof (cases m2)
    case (Some msg)
    then show ?thesis using i step_failed [OF il] sql_failed_tx [of tx, OF assms(3)] assms(4) by simp
  next
    case None
    then have t2: "view db2 = do_insert_object (c_str ?b) (c_str ?k) (sint (md_size m)) (c_str (md_checksum m)) t" "tx db2 = Some t"
      using i step_done [OF il] assms(3,4) by simp_all
    have t3: "view db3 = do_delete_chunks (c_str ?b) (c_str ?k) (view db2)" "tx db3 = Some t" using d m3 step_done [OF dl] t2 by simp_all
    have "m4 \<noteq> None \<Longrightarrow> tx_at view tx t db4" using c insert_chunks_failed [OF sl] t3(2) by blast
    moreover have "view db4 = put_tables m t" "tx db4 = Some t" if "m4 = None"
      using that c insert_chunks_tables [OF sl] t2 t3 by (auto simp: put_tables_def)
    ultimately show ?thesis using None by blast
  qed
qed

lemma put_object_cases:
  assumes laws: "sqlite_laws sq view tx" "deletes_complete sq" and "tx db = None" "length (md_chunks m) \<le> 2 ^ 31 - 1"
  shows "\<exists>r db'. put_object sq m db = (Ret r, db') \<and>
    (case r of Value _ \<Rightarrow> tx db' = None \<and> view db' = put_tables m (view db)
     | Error _ \<Rightarrow> view db' = view db \<and> tx db' = None \<or> tx db' = Some (view db) \<and> view db' = put_tables m (view db))"
proof -
  let ?b = "md_bucket m" and ?k = "md_key m"
  have tl: "transaction_laws sq view tx" using laws(1) by (simp add: sqlite_laws_def)
  obtain r1 db1 where b: "sql_exec sq ''BEGIN IMMEDIATE;'' db = (r1, db1)" by fastforce
  obtain m2 db2 where i: "sq_step sq sql_insert_object
      [Bind_text (c_str ?b), Bind_text (c_str ?k), Bind_int64 (sint (md_size m)), Bind_text (c_str (md_checksum m))] db1 = (m2, db2)" by fastforce
  obtain m3 db3 where d: "sq_step sq sql_delete_chunks [Bind_text (c_str ?b), Bind_text (c_str ?k)] db2 = (m3, db3)" by fastforce
  obtain m4 db4 where c: "insert_chunks sq ?b ?k 0 (md_chunks m) db3 = (Ret m4, db4)"
    using insert_chunks_returns [of 0 "md_chunks m" sq ?b ?k db3] assms(4) by auto
  obtain r5 db5 where e: "sql_exec sq ''COMMIT;'' db4 = (r5, db5)" by fastforce
  note started = sql_exec_begin [OF tl b] and run = b i d c e
  show ?thesis
  proof (cases r1)
    case (Error s)
    then show ?thesis using started assms(3) b by (simp add: put_object_def)
  next
    case r1: (Value u)
    then have t1: "tx db1 = Some (view db)" "view db1 = view db" using started by simp_all
    note s = put_object_statements [OF laws t1 assms(4) i d c]
    consider msg where "m2 = Some msg" | msg where "m2 = None" "m4 = Some msg" | "m2 = None" "m4 = None" by (cases m2; cases m4) auto
    then show ?thesis
    proof cases
      case 3
      then show ?thesis using sql_exec_commit [OF tl e] run r1 s by (auto simp: put_object_def Let_def sql_failed_def split: result.splits)
    qed (use run r1 s rollback_restores [OF tl] in \<open>simp_all add: put_object_def Let_def\<close>)
  qed
qed

lemma omap_chunk_rows:
  "map (\<lambda>r. (text_at r 0, int_at r 1)) rows = map (apfst Some) xs \<Longrightarrow> omap chunk_of_row rows = Ret (map ref_of xs)"
proof (induction rows arbitrary: xs)
  case (Cons r rows)
  then show ?case by (cases xs) (auto simp: chunk_of_row_def ref_of_def apfst_def map_prod_def split: prod.splits)
qed simp

lemma query_complete: "reads_complete sq \<Longrightarrow> \<exists>rows db'. sq_rows sq sql binds db = (rows, True, db')"
  unfolding reads_complete_def by (metis prod.collapse)

definition metadata_of :: "string \<Rightarrow> string \<Rightarrow> u64 \<times> string \<times> chunk_ref list \<Rightarrow> object_metadata" where
  "metadata_of b k x = \<lparr>md_bucket = b, md_key = k, md_size = fst x, md_checksum = fst (snd x), md_chunks = snd (snd x)\<rparr>"

lemma get_object_reads:
  assumes "sqlite_laws sq view tx" "reads_complete sq"
  shows "\<exists>db'. get_object sq b k db =
      (Ret (case object_map (view db) (c_str b, c_str k) of None \<Rightarrow> Error (NotFound ''object not found'') | Some x \<Rightarrow> Value (metadata_of b k x)), db') \<and>
    view db' = view db \<and> tx db' = tx db"
proof -
  let ?binds = "[Bind_text (c_str b), Bind_text (c_str k)]"
  obtain rows db1 where r: "sq_rows sq sql_select_object ?binds db = (rows, True, db1)" using query_complete [OF assms(2)] by blast
  obtain rows2 db2 where r2: "sq_rows sq sql_select_chunks ?binds db1 = (rows2, True, db2)" using query_complete [OF assms(2)] by blast
  have o1: "map (\<lambda>r. (int_at r 0, text_at r 1)) rows = map (apsnd Some) (sel_object (c_str b) (c_str k) (view db))" "view db1 = view db" "tx db1 = tx db"
    using rows_done [OF query_lawsD(1) [OF assms(1)] r] by blast+
  have o2: "map (\<lambda>r. (text_at r 0, int_at r 1)) rows2 = map (apfst Some) (sel_chunks (c_str b) (c_str k) (view db))" "view db2 = view db" "tx db2 = tx db"
    using rows_done [OF query_lawsD(2) [OF assms(1)] r2] o1(2,3) by simp_all
  show ?thesis
  proof (cases rows)
    case Nil
    then show ?thesis using r o1 by (simp add: get_object_def object_map_def)
  next
    case (Cons x xs)
    then obtain n c rest where "sel_object (c_str b) (c_str k) (view db) = (n, c) # rest" "int_at x 0 = n" "text_at x 1 = Some c"
      using o1(1) by (cases "sel_object (c_str b) (c_str k) (view db)") auto
    then show ?thesis using r r2 o2 Cons omap_chunk_rows [OF o2(1)]
      by (simp add: get_object_def object_map_def metadata_of_def)
  qed
qed

lemma delete_object_removes:
  assumes "sqlite_laws sq view tx" "deletes_complete sq"
  shows "\<exists>db'. delete_object sq b k db =
      ((if object_map (view db) (c_str b, c_str k) = None then Error (NotFound ''object not found'') else Value ()), db') \<and>
    object_map (view db') = (object_map (view db))((c_str b, c_str k) := None) \<and> tx db' = tx db \<and>
    t_chunks (view db') = filter (\<lambda>r. fst r \<noteq> (c_str b, c_str k)) (t_chunks (view db))"
proof -
  let ?binds = "[Bind_text (c_str b), Bind_text (c_str k)]"
  obtain db1 where d1: "sq_step sq sql_delete_chunks ?binds db = (None, db1)" using assms(2) unfolding deletes_complete_def by (metis prod.collapse)
  obtain db2 where d2: "sq_step sq sql_delete_object ?binds db1 = (None, db2)" using assms(2) unfolding deletes_complete_def by (metis prod.collapse)
  have s: "statement_laws sq view tx" using assms(1) by (simp add: sqlite_laws_def)
  have v1: "view db1 = do_delete_chunks (c_str b) (c_str k) (view db)" "tx db1 = tx db"
    using step_done [OF statement_lawsD(2) [OF s] d1] by blast+
  have v2: "view db2 = do_delete_object (c_str b) (c_str k) (view db1)" "tx db2 = tx db1"
    using step_done [OF statement_lawsD(3) [OF s] d2] by blast+
  have "sq_changes sq db2 = int (length (sel_object (c_str b) (c_str k) (view db1)))"
    using s d2 by (auto simp: statement_laws_def)
  then have "sq_changes sq db2 = 0 \<longleftrightarrow> object_map (view db) (c_str b, c_str k) = None"
    by (auto simp: v1 object_map_def split: list.splits)
  moreover have "object_map (view db2) = (object_map (view db))((c_str b, c_str k) := None)"
    by (simp add: v1 v2 object_map_delete)
  ultimately show ?thesis using d1 d2 v1 v2 by (simp add: delete_object_def do_delete_object_def do_delete_chunks_def)
qed

lemma sel_count_filter:
  assumes "t_chunks t' = filter P (t_chunks t)"
  shows "sel_count c t' \<le> sel_count c t"
proof -
  have "length (filter Q (filter P xs)) \<le> length (filter Q xs)" for Q P and xs :: "'a list" by (induction xs) auto
  then show ?thesis by (simp add: sel_count_def assms)
qed

text \<open>A chunk that some object refers to is counted.\<close>

lemma sel_count_referenced:
  assumes "object_map t (b, k) = Some (n, c, refs)" "r \<in> set refs"
  shows "0 < sel_count (ref_checksum r) t"
proof -
  from assms obtain x where x: "x \<in> set (sel_chunks b k t)" "r = ref_of x" by (auto simp: object_map_def split: list.splits)
  then obtain p where "((b, k), p, x) \<in> set (t_chunks t)" by (auto simp: sel_chunks_def)
  then have "((b, k), p, x) \<in> set (filter (\<lambda>(_, _, c', _). c' = ref_checksum r) (t_chunks t))" by (auto simp: x(2) ref_of_def)
  then have "filter (\<lambda>(_, _, c', _). c' = ref_checksum r) (t_chunks t) \<noteq> []" by force
  then show ?thesis by (simp add: sel_count_def)
qed

lemma put_object_in_transaction:
  assumes "sqlite_laws sq view tx" "tx db \<noteq> None"
  shows "\<exists>e db'. put_object sq m db = (Ret (Error e), db') \<and> view db' = view db \<and> tx db' = tx db"
proof -
  obtain r db1 where b: "sql_exec sq ''BEGIN IMMEDIATE;'' db = (r, db1)" by fastforce
  have "transaction_laws sq view tx" using assms(1) by (simp add: sqlite_laws_def)
  from sql_exec_begin [OF this b] assms(2) show ?thesis using b by (cases r) (auto simp: put_object_def)
qed

lemma chunk_ref_count_counts:
  assumes "sqlite_laws sq view tx" "reads_complete sq" "sel_count (c_str c) (view db) < 2 ^ 31"
  shows "\<exists>db'. chunk_ref_count sq c db = (Value (sel_count (c_str c) (view db)), db') \<and> view db' = view db \<and> tx db' = tx db"
proof -
  obtain rows db1 where r: "sq_rows sq sql_count_chunks [Bind_text (c_str c)] db = (rows, True, db1)" using query_complete [OF assms(2)] by blast
  have o: "map (\<lambda>r. int_at r 0) rows = [sel_count (c_str c) (view db)]" "view db1 = view db" "tx db1 = tx db"
    using rows_done [OF query_lawsD(3) [OF assms(1)] r] by blast+
  then obtain x where x: "rows = [x]" "int_at x 0 = sel_count (c_str c) (view db)" by (cases rows) auto
  have "0 \<le> sel_count (c_str c) (view db)" by (simp add: sel_count_def)
  then have "sint (word_of_int (sel_count (c_str c) (view db)) :: 32 word) = sel_count (c_str c) (view db)"
    using assms(3) by (simp add: signed_of_int signed_take_bit_int_eq_self)
  with r o x show ?thesis by (simp add: chunk_ref_count_def)
qed

lemma omap_object_rows:
  "map (\<lambda>r. (text_at r 0, int_at r 1, text_at r 2)) rows = map (\<lambda>(k, n, c). (Some k, n, Some c)) xs \<Longrightarrow>
     omap (object_of_row b) rows = Ret (map (\<lambda>(k, n, c). metadata_of b k (word_of_int n, c, [])) xs)"
proof (induction rows arbitrary: xs)
  case (Cons r rows)
  then show ?case by (cases xs) (auto simp: object_of_row_def metadata_of_def split: prod.splits)
qed simp

lemma list_objects_lists:
  assumes "sqlite_laws sq view tx" "reads_complete sq"
  shows "\<exists>db'. list_objects sq b db =
      (Ret (Value (map (\<lambda>(k, n, c). metadata_of b k (word_of_int n, c, [])) (sel_list (c_str b) (view db)))), db') \<and> view db' = view db \<and> tx db' = tx db"
proof -
  obtain rows db1 where r: "sq_rows sq sql_list_objects [Bind_text (c_str b)] db = (rows, True, db1)" using query_complete [OF assms(2)] by blast
  note o = rows_done [OF query_lawsD(4) [OF assms(1)] r]
  from o have "omap (object_of_row b) rows = Ret (map (\<lambda>(k, n, c). metadata_of b k (word_of_int n, c, [])) (sel_list (c_str b) (view db)))"
    by (intro omap_object_rows) blast
  with r o show ?thesis by (simp add: list_objects_def)
qed

section \<open>A database that obeys the laws\<close>

text \<open>The tables, the open transaction and the count of changed rows, with the meaning of the
  statements computed: an instance of the parameter.\<close>

type_synonym table_db = "tables \<times> tables option \<times> int"

definition table_exec :: "string \<Rightarrow> table_db \<Rightarrow> exec_answer \<times> table_db" where
  "table_exec sql db = (case db of (t, tx, n) \<Rightarrow>
     if sql = ''BEGIN IMMEDIATE;'' then (if tx = None then (Exec_ok, t, Some t, n) else (Exec_failed None, t, tx, n))
     else if sql = ''COMMIT;'' then (if tx = None then (Exec_failed None, t, tx, n) else (Exec_ok, t, None, n))
     else if sql = ''ROLLBACK;'' then (case tx of None \<Rightarrow> (Exec_failed None, t, tx, n) | Some t0 \<Rightarrow> (Exec_ok, t0, None, n))
     else (Exec_ok, t, tx, n))"

definition table_step :: "string \<Rightarrow> bind list \<Rightarrow> table_db \<Rightarrow> string option \<times> table_db" where
  "table_step sql binds db = (case db of (t, tx, n) \<Rightarrow>
     (case binds of
        [Bind_text b, Bind_text k, Bind_int64 s, Bind_text c] \<Rightarrow> (None, do_insert_object b k s c t, tx, 1)
      | [Bind_text b, Bind_text k, Bind_int p, Bind_text c, Bind_int64 s] \<Rightarrow>
          (if \<exists>r \<in> set (t_chunks t). fst r = (b, k) \<and> fst (snd r) = p then (Some ''UNIQUE constraint failed'', db)
           else (None, do_insert_chunk b k p c s t, tx, 1))
      | [Bind_text b, Bind_text k] \<Rightarrow>
          (if sql = sql_delete_chunks then (None, do_delete_chunks b k t, tx, int (length (filter (\<lambda>r. fst r = (b, k)) (t_chunks t))))
           else (None, do_delete_object b k t, tx, int (length (sel_object b k t))))
      | _ \<Rightarrow> (Some ''misuse'', db)))"

definition table_rows :: "string \<Rightarrow> bind list \<Rightarrow> table_db \<Rightarrow> row list \<times> bool \<times> table_db" where
  "table_rows sql binds db = (case db of (t, _) \<Rightarrow>
     (case binds of
        [Bind_text b, Bind_text k] \<Rightarrow>
          (if sql = sql_select_object then map (\<lambda>(n, c). \<lparr>text_at = (\<lambda>_. Some c), int_at = (\<lambda>_. n)\<rparr>) (sel_object b k t)
           else map (\<lambda>(c, n). \<lparr>text_at = (\<lambda>_. Some c), int_at = (\<lambda>_. n)\<rparr>) (sel_chunks b k t))
      | [Bind_text x] \<Rightarrow>
          (if sql = sql_count_chunks then [\<lparr>text_at = (\<lambda>_. None), int_at = (\<lambda>_. sel_count x t)\<rparr>]
           else map (\<lambda>(k, n, c). \<lparr>text_at = (\<lambda>i. Some (if i = 0 then k else c)), int_at = (\<lambda>_. n)\<rparr>) (sel_list x t))
      | _ \<Rightarrow> []), True, db)"

definition table_sqlite :: "table_db sqlite" where
  "table_sqlite = \<lparr>sq_open = (\<lambda>_ db. (None, db)), sq_exec = table_exec, sq_step = table_step, sq_rows = table_rows,
     sq_changes = (\<lambda>db. snd (snd db))\<rparr>"

definition table_view :: "table_db \<Rightarrow> tables" where "table_view = fst"
definition table_tx :: "table_db \<Rightarrow> tables option" where "table_tx db = fst (snd db)"

lemmas table_defs = table_sqlite_def table_exec_def table_step_def table_rows_def table_view_def table_tx_def

lemma sql_distinct [simp]: "sql_delete_object \<noteq> sql_delete_chunks" "sql_select_chunks \<noteq> sql_select_object" "sql_list_objects \<noteq> sql_count_chunks"
  by (simp_all add: sql_delete_object_def sql_delete_chunks_def sql_select_chunks_def sql_select_object_def sql_list_objects_def sql_count_chunks_def)

lemma table_sqlite_laws: "sqlite_laws table_sqlite table_view table_tx"
proof -
  have "transaction_laws table_sqlite table_view table_tx"
    by (auto simp: transaction_laws_def table_defs sql_failed_def split: option.splits)
  moreover have "statement_laws table_sqlite table_view table_tx"
    by (auto simp: statement_laws_def step_law_def table_defs sql_failed_def)
  moreover have "query_laws table_sqlite table_view table_tx"
    by (simp add: query_laws_def rows_law_def table_defs comp_def case_prod_unfold apsnd_def apfst_def map_prod_def)
  ultimately show ?thesis by (simp add: sqlite_laws_def)
qed

lemma table_sqlite_completes: "deletes_complete table_sqlite" "reads_complete table_sqlite"
  by (auto simp: deletes_complete_def reads_complete_def table_defs split: list.splits bind.splits)

section \<open>The store as a map of objects\<close>

datatype md_op = Op_put object_metadata | Op_get string string | Op_delete string string
datatype md_answer = Done "unit result" | Found "object_metadata result"

fun md_step :: "'db sqlite \<Rightarrow> md_op \<Rightarrow> 'db \<Rightarrow> md_answer outcome \<times> 'db" where
  "md_step sq (Op_put m) db = (case put_object sq m db of (r, db') \<Rightarrow> (obind r (Ret \<circ> Done), db'))"
| "md_step sq (Op_get b k) db = (case get_object sq b k db of (r, db') \<Rightarrow> (obind r (Ret \<circ> Found), db'))"
| "md_step sq (Op_delete b k) db = (case delete_object sq b k db of (r, db') \<Rightarrow> (Ret (Done r), db'))"

fun md_run :: "'db sqlite \<Rightarrow> md_op list \<Rightarrow> 'db \<Rightarrow> md_answer outcome list \<times> 'db" where
  "md_run sq [] db = ([], db)"
| "md_run sq (op # ops) db = (case md_step sq op db of (r, db') \<Rightarrow> apfst (Cons r) (md_run sq ops db'))"

text \<open>The contract. A put that reports an error was not made, or was made without the caller
  knowing; everything else is as on a map.\<close>

definition put_in_map :: "object_metadata \<Rightarrow> object_map \<Rightarrow> object_map" where
  "put_in_map m M = M((c_str (md_bucket m), c_str (md_key m)) \<mapsto> (md_size m, c_str (md_checksum m), map stored_ref (md_chunks m)))"

inductive md_spec :: "object_map \<Rightarrow> md_op \<Rightarrow> md_answer \<Rightarrow> object_map \<Rightarrow> bool" where
  Put: "md_spec M (Op_put m) (Done (Value ())) (put_in_map m M)"
| Refused: "md_spec M (Op_put m) (Done (Error s)) M"
| Unconfirmed: "md_spec M (Op_put m) (Done (Error s)) (put_in_map m M)"
| Get: "M (c_str b, c_str k) = Some x \<Longrightarrow> md_spec M (Op_get b k) (Found (Value (metadata_of b k x))) M"
| Missing: "M (c_str b, c_str k) = None \<Longrightarrow> md_spec M (Op_get b k) (Found (Error (NotFound ''object not found''))) M"
| Delete: "M (c_str b, c_str k) \<noteq> None \<Longrightarrow> md_spec M (Op_delete b k) (Done (Value ())) (M((c_str b, c_str k) := None))"
| Absent: "M (c_str b, c_str k) = None \<Longrightarrow> md_spec M (Op_delete b k) (Done (Error (NotFound ''object not found''))) M"

inductive md_spec_run :: "object_map \<Rightarrow> md_op list \<Rightarrow> md_answer list \<Rightarrow> object_map \<Rightarrow> bool" where
  Nil: "md_spec_run M [] [] M"
| Cons: "md_spec M op a M' \<Longrightarrow> md_spec_run M' ops as M'' \<Longrightarrow> md_spec_run M (op # ops) (a # as) M''"

fun md_op_ok :: "md_op \<Rightarrow> bool" where
  "md_op_ok (Op_put m) \<longleftrightarrow> length (md_chunks m) \<le> 2 ^ 31 - 1"
| "md_op_ok _ \<longleftrightarrow> True"

lemma put_object_spec:
  assumes "sqlite_laws sq view tx" "deletes_complete sq" "length (md_chunks m) \<le> 2 ^ 31 - 1"
  shows "\<exists>r db'. put_object sq m db = (Ret r, db') \<and> md_spec (object_map (view db)) (Op_put m) (Done r) (object_map (view db'))"
proof (cases "tx db = None")
  case True
  obtain r db' where p: "put_object sq m db = (Ret r, db')"
    "case r of Value _ \<Rightarrow> tx db' = None \<and> view db' = put_tables m (view db)
     | Error _ \<Rightarrow> view db' = view db \<and> tx db' = None \<or> tx db' = Some (view db) \<and> view db' = put_tables m (view db)"
    using put_object_cases [OF assms(1,2) True assms(3)] by blast
  have "object_map (put_tables m (view db)) = put_in_map m (object_map (view db))" by (simp add: object_map_put put_in_map_def)
  with p show ?thesis by (cases r) (auto intro: md_spec.intros)
next
  case False
  from put_object_in_transaction [OF assms(1) False, of m] show ?thesis by (metis md_spec.Refused)
qed

lemma md_step_spec:
  assumes "sqlite_laws sq view tx" "deletes_complete sq" "reads_complete sq" "md_op_ok op"
  shows "\<exists>a db'. md_step sq op db = (Ret a, db') \<and> md_spec (object_map (view db)) op a (object_map (view db'))"
proof (cases op)
  case (Op_put m)
  then show ?thesis using put_object_spec [OF assms(1,2), of m db] assms(4) by auto
next
  case (Op_get b k)
  then show ?thesis using get_object_reads [OF assms(1,3), of b k db]
    by (auto intro: md_spec.Get md_spec.Missing split: option.splits)
next
  case (Op_delete b k)
  have "(object_map (view db))((c_str b, c_str k) := None) = object_map (view db)" if "object_map (view db) (c_str b, c_str k) = None"
    using that by (simp add: fun_upd_idem)
  then show ?thesis using Op_delete delete_object_removes [OF assms(1,2), of b k db]
      md_spec.Delete [of "object_map (view db)" b k] md_spec.Absent [of "object_map (view db)" b k] by (auto split: if_splits)
qed

lemma md_run_spec:
  assumes "sqlite_laws sq view tx" "deletes_complete sq" "reads_complete sq"
  shows "\<forall>op \<in> set ops. md_op_ok op \<Longrightarrow>
    \<exists>as db'. md_run sq ops db = (map Ret as, db') \<and> md_spec_run (object_map (view db)) ops as (object_map (view db'))"
proof (induction ops arbitrary: db)
  case Nil
  then show ?case using md_spec_run.Nil by force
next
  case (Cons op ops)
  then obtain a db1 where a: "md_step sq op db = (Ret a, db1)" "md_spec (object_map (view db)) op a (object_map (view db1))"
    using md_step_spec [OF assms, of op db] by auto
  from Cons obtain as db2 where "md_run sq ops db1 = (map Ret as, db2)" "md_spec_run (object_map (view db1)) ops as (object_map (view db2))" by force
  with a show ?case by (intro exI [of _ "a # as"] exI [of _ db2]) (auto intro: md_spec_run.Cons)
qed

section \<open>What the handlers rely on\<close>

text \<open>The interface of the metadata: operations in a context, with the map they keep.\<close>

locale object_table =
  fixes ok :: "'c \<Rightarrow> bool"
    and put :: "'c \<Rightarrow> object_metadata \<Rightarrow> 'db \<Rightarrow> unit result outcome \<times> 'db"
    and get :: "'c \<Rightarrow> string \<Rightarrow> string \<Rightarrow> 'db \<Rightarrow> object_metadata result outcome \<times> 'db"
    and delete :: "'c \<Rightarrow> string \<Rightarrow> string \<Rightarrow> 'db \<Rightarrow> unit result \<times> 'db"
    and objects :: "'c \<Rightarrow> 'db \<Rightarrow> object_map"
  assumes put_law: "ok c \<Longrightarrow> length (md_chunks m) \<le> 2 ^ 31 - 1 \<Longrightarrow>
      \<exists>r db'. put c m db = (Ret r, db') \<and> md_spec (objects c db) (Op_put m) (Done r) (objects c db')"
    and get_law: "ok c \<Longrightarrow> \<exists>db'. get c b k db =
      (Ret (case objects c db (c_str b, c_str k) of None \<Rightarrow> Error (NotFound ''object not found'') | Some x \<Rightarrow> Value (metadata_of b k x)), db') \<and>
      objects c db' = objects c db"
    and delete_law: "ok c \<Longrightarrow> \<exists>db'. delete c b k db =
      (if objects c db (c_str b, c_str k) = None then Error (NotFound ''object not found'') else Value (), db') \<and>
      objects c db' = (objects c db)((c_str b, c_str k) := None)"
begin

lemma put_done:
  assumes "ok c" "length (md_chunks m) \<le> 2 ^ 31 - 1" "put c m db = (Ret (Value ()), db')"
  shows "objects c db' = put_in_map m (objects c db)"
  using put_law [OF assms(1,2), of db] assms(3) by (auto elim: md_spec.cases)

lemma get_found:
  assumes "ok c" "objects c db (c_str b, c_str k) = Some x"
  shows "\<exists>db'. get c b k db = (Ret (Value (metadata_of b k x)), db') \<and> objects c db' = objects c db"
  using get_law [OF assms(1), of b k db] assms(2) by simp

lemma get_missing:
  assumes "ok c" "objects c db (c_str b, c_str k) = None"
  shows "\<exists>db'. get c b k db = (Ret (Error (NotFound ''object not found'')), db') \<and> objects c db' = objects c db"
  using get_law [OF assms(1), of b k db] assms(2) by simp

lemma delete_found:
  assumes "ok c" "objects c db (c_str b, c_str k) \<noteq> None"
  shows "\<exists>db'. delete c b k db = (Value (), db') \<and> objects c db' = (objects c db)((c_str b, c_str k) := None)"
  using delete_law [OF assms(1), of b k db] assms(2) by simp

end

text \<open>The context of the implementation is SQLite with the readings of its tables.\<close>

fun table_ok :: "'db sqlite \<times> ('db \<Rightarrow> tables) \<times> ('db \<Rightarrow> tables option) \<Rightarrow> bool" where
  "table_ok (sq, view, tx) \<longleftrightarrow> sqlite_laws sq view tx \<and> deletes_complete sq \<and> reads_complete sq"

interpretation metadata: object_table table_ok "\<lambda>(sq, _). put_object sq" "\<lambda>(sq, _). get_object sq" "\<lambda>(sq, _). delete_object sq"
  "\<lambda>(_, view, _) db. object_map (view db)"
proof (unfold_locales, goal_cases)
  case (1 c m db)
  then show ?case by (cases c) (auto intro: put_object_spec)
next
  case (2 c b k db)
  then show ?case by (cases c) (use get_object_reads in fastforce)
next
  case (3 c b k db)
  then show ?case by (cases c) (use delete_object_removes in fastforce)
qed

lemma set_sel_list: "(k, n, c) \<in> set (sel_list b t) \<longleftrightarrow> ((b, k), n, c) \<in> set (t_objects t)"
  by (force simp: sel_list_def image_iff case_prod_unfold)

lemma distinct_map_sort_key: "distinct (map f xs) \<Longrightarrow> distinct (map f (sort_key g xs))"
  by (metis mset_eq_imp_distinct_iff mset_map mset_sort)

lemma sel_list_sorted:
  assumes "distinct (map fst (t_objects t))"
  shows "sorted (map fst (sel_list b t)) \<and> distinct (map fst (sel_list b t))"
proof -
  let ?f = "filter (\<lambda>r. fst (fst r) = b) (t_objects t)"
  have "distinct (map fst ?f)" using assms by (simp add: distinct_map_filter)
  then have "distinct (map (\<lambda>r. snd (fst r)) ?f)" by (auto simp: distinct_map inj_on_def prod_eq_iff)
  then have "distinct (map fst (map (\<lambda>((_, k), n, c). (k, n, c)) ?f))" by (simp add: comp_def case_prod_unfold)
  then have "distinct (map fst (sel_list b t))" unfolding sel_list_def by (rule distinct_map_sort_key)
  then show ?thesis by (simp add: sel_list_def)
qed

lemma object_map_member:
  assumes "distinct (map fst (t_objects t))"
  shows "(\<exists>cs. object_map t (b, k) = Some (n, c, cs)) \<longleftrightarrow> (\<exists>n'. ((b, k), n', c) \<in> set (t_objects t) \<and> n = word_of_int n')"
proof (cases "sel_object b k t")
  case Nil
  then have "((b, k), n', c) \<notin> set (t_objects t)" for n' by (force simp: sel_object_def filter_empty_conv)
  with Nil show ?thesis by (simp add: object_map_def)
next
  case (Cons x xs)
  then have x: "((b, k), x) \<in> set (t_objects t)" by (auto simp: sel_object_def filter_eq_Cons_iff map_eq_Cons_conv)
  then have "((b, k), y) \<in> set (t_objects t) \<longleftrightarrow> y = x" for y using assms eq_key_imp_eq_value by fastforce
  with Cons show ?thesis by (auto simp: object_map_def split: prod.splits)
qed

section \<open>Properties\<close>


definition sample_object :: object_metadata where
  "sample_object = \<lparr>md_bucket = ''b'', md_key = ''k'', md_size = 3, md_checksum = ''c'',
     md_chunks = [\<lparr>ref_checksum = ''c0'', ref_size = 2\<rparr>, \<lparr>ref_checksum = ''c1'', ref_size = 1\<rparr>]\<rparr>"

definition empty_db :: table_db where
  "empty_db = (\<lparr>t_objects = [], t_chunks = []\<rparr>, None, 0)"




text \<open>A listing of a bucket that completes names its objects once each, in the order of their
  keys, with their sizes and checksums, and without chunks.\<close>

theorem list_objects_ordered:
  assumes "sqlite_laws sq view tx" "reads_complete sq" "CHR 0x00 \<notin> set b" "distinct (map fst (t_objects (view db)))"
  shows "\<exists>os db'. list_objects sq b db = (Ret (Value os), db') \<and> view db' = view db \<and>
    sorted (map md_key os) \<and> distinct (map md_key os) \<and>
    (\<forall>k n c. (\<exists>o' \<in> set os. o' = metadata_of b k (n, c, [])) \<longleftrightarrow> (\<exists>cs. object_map (view db) (b, k) = Some (n, c, cs)))"
proof -
  let ?os = "map (\<lambda>(k, n, c). metadata_of b k (word_of_int n, c, [])) (sel_list b (view db))"
  obtain db' where l: "list_objects sq b db = (Ret (Value ?os), db')" "view db' = view db"
    using list_objects_lists [OF assms(1,2), of b db] assms(3) by auto
  have keys: "map md_key ?os = map fst (sel_list b (view db))" by (simp add: metadata_of_def comp_def case_prod_unfold)
  have "(\<exists>o' \<in> set ?os. o' = metadata_of b k (n, c, [])) \<longleftrightarrow> (\<exists>n'. (k, n', c) \<in> set (sel_list b (view db)) \<and> n = word_of_int n')" for k n c
    by (auto simp: metadata_of_def image_iff case_prod_unfold) force+
  moreover have "(\<exists>n'. (k, n', c) \<in> set (sel_list b (view db)) \<and> n = word_of_int n') \<longleftrightarrow> (\<exists>cs. object_map (view db) (b, k) = Some (n, c, cs))" for k n c
    using object_map_member [OF assms(4)] set_sel_list by auto
  ultimately have member: "(\<exists>o' \<in> set ?os. o' = metadata_of b k (n, c, [])) \<longleftrightarrow> (\<exists>cs. object_map (view db) (b, k) = Some (n, c, cs))" for k n c by (rule trans)
  have "sorted (map md_key ?os)" "distinct (map md_key ?os)" unfolding keys using sel_list_sorted [OF assms(4)] by simp_all
  with l member show ?thesis by (intro exI [of _ ?os] exI [of _ db'] conjI allI)
qed

theorem list_objects_ordered_witness:
  "\<exists>os db'. list_objects table_sqlite ''b'' (fst empty_db\<lparr>t_objects := [((''b'', ''z''), 1, ''c''), ((''b'', ''a''), 2, ''d'')]\<rparr>, None, 0) = (Ret (Value os), db') \<and>
     sorted (map md_key os)"
  using list_objects_ordered [OF table_sqlite_laws table_sqlite_completes(2), of "''b''" "(fst empty_db\<lparr>t_objects := [((''b'', ''z''), 1, ''c''), ((''b'', ''a''), 2, ''d'')]\<rparr>, None, 0)"]
  by (auto simp: table_view_def)

end
