(* ===== verification/Workers.thy ===== *)
theory Workers
  imports Chunk_Service Metadata_Store
begin

text \<open>
  \<^verbatim>\<open>src/cluster/repair_worker.cpp\<close> and \<^verbatim>\<open>src/cluster/background_worker.cpp\<close>: repairing the
  chunks of a bucket, the exchange of heartbeats, and the thread that repeats a task.

  The part of a node that the workers share is its metadata and its chunk service; their
  operations are lifted to this pair. Counters of type \<^verbatim>\<open>int\<close> that count chunks are
  unbounded here.
\<close>

section \<open>Repair\<close>

record ('db, 'w) node =
  meta :: 'db
  svc :: "'w service"

definition on_meta :: "('db \<Rightarrow> 'a outcome \<times> 'db) \<Rightarrow> ('a, ('db, 'w, 'z) node_scheme) act" where
  "on_meta f s = (let (r, d) = f (meta s) in Some (r, s\<lparr>meta := d\<rparr>))"

definition on_chunks :: "('a, 'w service) act \<Rightarrow> ('a, ('db, 'w, 'z) node_scheme) act" where
  "on_chunks f s = map_option (\<lambda>(r, c). (r, s\<lparr>svc := c\<rparr>)) (f (svc s))"

fun repair_chunks :: "service_config \<Rightarrow> 'w outside \<Rightarrow> chunk_ref list \<Rightarrow> int \<Rightarrow> (int, ('db, 'w, 'z) node_scheme) act" where
  "repair_chunks cfg out [] repaired = areturn repaired"
| "repair_chunks cfg out (c # cs) repaired =
     abind (on_chunks (get cfg out (ref_checksum c))) (\<lambda>bytes. case bytes of
         Error _ \<Rightarrow> repair_chunks cfg out cs repaired
       | Value bs \<Rightarrow> abind (on_chunks (put cfg out bs)) (\<lambda>p. repair_chunks cfg out cs (if result_ok p then repaired + 1 else repaired)))"

fun repair_objects :: "'db sqlite \<Rightarrow> service_config \<Rightarrow> 'w outside \<Rightarrow> object_metadata list \<Rightarrow> int \<Rightarrow> (int, ('db, 'w, 'z) node_scheme) act" where
  "repair_objects sq cfg out [] repaired = areturn repaired"
| "repair_objects sq cfg out (x # xs) repaired =
     abind (on_meta (get_object sq (md_bucket x) (md_key x))) (\<lambda>full. case full of
         Error _ \<Rightarrow> repair_objects sq cfg out xs repaired
       | Value f \<Rightarrow> abind (repair_chunks cfg out (md_chunks f) repaired) (repair_objects sq cfg out xs))"

definition repair_bucket :: "'db sqlite \<Rightarrow> service_config \<Rightarrow> 'w outside \<Rightarrow> string \<Rightarrow> (int result, ('db, 'w, 'z) node_scheme) act" where
  "repair_bucket sq cfg out bucket =
     abind (on_meta (list_objects sq bucket)) (\<lambda>objects. case objects of
         Error e \<Rightarrow> areturn (Error e)
       | Value xs \<Rightarrow> abind (repair_objects sq cfg out xs 0) (\<lambda>n. areturn (Value n)))"

definition rebalance_bucket :: "'db sqlite \<Rightarrow> service_config \<Rightarrow> 'w outside \<Rightarrow> string \<Rightarrow> (int result, ('db, 'w, 'z) node_scheme) act" where
  "rebalance_bucket sq cfg out bucket = repair_bucket sq cfg out bucket"

section \<open>Heartbeats\<close>

text \<open>The task of the heartbeat worker; the pointer to a cluster state may be null.\<close>

fun heartbeat_task :: "'w outside \<Rightarrow> string \<Rightarrow> string \<Rightarrow> bool \<Rightarrow> storage_node list \<Rightarrow> (unit, 'w service) act" where
  "heartbeat_task out token self_id has_cluster [] = areturn ()"
| "heartbeat_task out token self_id has_cluster (peer # peers) =
     abind (\<lambda>s. let (r, w) = send_heartbeat (o_net out) token peer self_id (world s) in Some (r, s\<lparr>world := w\<rparr>))
       (\<lambda>result s. heartbeat_task out token self_id has_cluster peers (if result_ok result \<and> has_cluster then beat out peer s else s))"

section \<open>The periodic thread\<close>

text \<open>Where the thread is: about to read the flag, in the task, asleep, or returned but not yet
  joined. \<open>None\<close> is a thread object that is not joinable. Assigning a new thread to one that is
  ends the program (\<open>terminated\<close>).\<close>

datatype phase = Test | Task | Sleep | Returned

record periodic =
  flag :: bool
  thread :: "phase option"
  joining :: bool
  terminated :: bool

definition periodic_new :: periodic where
  "periodic_new = \<lparr>flag = False, thread = None, joining = False, terminated = False\<rparr>"

definition periodic_start :: "periodic \<Rightarrow> periodic" where
  "periodic_start p =
     (if flag p then p
      else if thread p = None then p\<lparr>flag := True, thread := Some Test\<rparr>
      else p\<lparr>flag := True, terminated := True\<rparr>)"

text \<open>\<^verbatim>\<open>stop\<close> clears the flag and joins: the join waits until the thread has returned.\<close>

definition periodic_clear :: "periodic \<Rightarrow> periodic" where
  "periodic_clear p = p\<lparr>flag := False, joining := True\<rparr>"

definition periodic_joined :: "periodic \<Rightarrow> periodic" where
  "periodic_joined p = p\<lparr>thread := None, joining := False\<rparr>"

fun thread_step :: "bool \<Rightarrow> phase \<Rightarrow> phase" where
  "thread_step running Test = (if running then Task else Returned)"
| "thread_step running Task = Sleep"
| "thread_step running Sleep = Test"
| "thread_step running Returned = Returned"

section \<open>The heartbeat worker\<close>

record heartbeat_worker =
  hw_token :: string
  hw_self_id :: string
  hw_peers :: "storage_node list"
  hw_cluster :: bool
  hw_worker :: periodic

definition heartbeat_worker_new :: "string \<Rightarrow> string \<Rightarrow> storage_node list \<Rightarrow> bool \<Rightarrow> heartbeat_worker" where
  "heartbeat_worker_new token self_id peers has_cluster =
     \<lparr>hw_token = token, hw_self_id = self_id, hw_peers = peers, hw_cluster = has_cluster, hw_worker = periodic_new\<rparr>"

definition heartbeat_start :: "heartbeat_worker \<Rightarrow> heartbeat_worker" where
  "heartbeat_start hw = hw\<lparr>hw_worker := periodic_start (hw_worker hw)\<rparr>"

definition heartbeat_stop :: "heartbeat_worker \<Rightarrow> heartbeat_worker" where
  "heartbeat_stop hw = hw\<lparr>hw_worker := periodic_clear (hw_worker hw)\<rparr>"

definition move_thread :: "heartbeat_worker \<Rightarrow> heartbeat_worker" where
  "move_thread hw = hw\<lparr>hw_worker := (hw_worker hw)\<lparr>thread := map_option (thread_step (flag (hw_worker hw))) (thread (hw_worker hw))\<rparr>\<rparr>"

text \<open>The worker beside the node whose members it renews: the owner starts and stops it, and its
  thread runs one round of heartbeats in each turn of its loop. An exception in the task ends the
  program.\<close>

inductive heartbeat_step :: "'w outside \<Rightarrow> heartbeat_worker \<times> 'w service \<Rightarrow> heartbeat_worker \<times> 'w service \<Rightarrow> bool" for out where
  Hb_start: "\<not> joining (hw_worker hw) \<Longrightarrow> heartbeat_step out (hw, s) (heartbeat_start hw, s)"
| Hb_stop: "\<not> joining (hw_worker hw) \<Longrightarrow> heartbeat_step out (hw, s) (heartbeat_stop hw, s)"
| Hb_join: "joining (hw_worker hw) \<Longrightarrow> thread (hw_worker hw) = None \<or> thread (hw_worker hw) = Some Returned \<Longrightarrow>
    heartbeat_step out (hw, s) (hw\<lparr>hw_worker := periodic_joined (hw_worker hw)\<rparr>, s)"
| Hb_idle: "thread (hw_worker hw) = Some Test \<or> thread (hw_worker hw) = Some Sleep \<Longrightarrow> heartbeat_step out (hw, s) (move_thread hw, s)"
| Hb_round: "thread (hw_worker hw) = Some Task \<Longrightarrow>
    heartbeat_task out (hw_token hw) (hw_self_id hw) (hw_cluster hw) (hw_peers hw) s = Some (Ret (), s') \<Longrightarrow> heartbeat_step out (hw, s) (move_thread hw, s')"
| Hb_throw: "thread (hw_worker hw) = Some Task \<Longrightarrow>
    heartbeat_task out (hw_token hw) (hw_self_id hw) (hw_cluster hw) (hw_peers hw) s = Some (Throw e, s') \<Longrightarrow>
    heartbeat_step out (hw, s) (hw\<lparr>hw_worker := (hw_worker hw)\<lparr>terminated := True\<rparr>\<rparr>, s')"

section \<open>Lifted operations\<close>

lemma ends_on_chunks [ends_intros]:
  "f (svc s) = Some (Ret r, c) \<Longrightarrow> Q r (s\<lparr>svc := c\<rparr>) \<Longrightarrow> ends (on_chunks f) s Q"
  by (simp add: ends_def on_chunks_def)

lemma ends_on_meta [ends_intros]:
  "f (meta s) = (Ret r, d) \<Longrightarrow> Q r (s\<lparr>meta := d\<rparr>) \<Longrightarrow> ends (on_meta f) s Q"
  by (simp add: ends_def on_meta_def)

lemma ends_meta_bind: "f (meta s) = (Ret r, d) \<Longrightarrow> ends (k r) (s\<lparr>meta := d\<rparr>) Q \<Longrightarrow> ends (abind (on_meta f) k) s Q"
  by (intro ends_bind) (simp add: ends_def on_meta_def)

lemma ends_chunks_bind: "f (svc s) = Some (Ret r, c) \<Longrightarrow> ends (k r) (s\<lparr>svc := c\<rparr>) Q \<Longrightarrow> ends (abind (on_chunks f) k) s Q"
  by (intro ends_bind) (simp add: ends_def on_chunks_def)

text \<open>What the theorems assume of a node's surroundings, and what stays true of its state.\<close>

definition node_env :: "'db sqlite \<Rightarrow> ('db \<Rightarrow> tables) \<Rightarrow> ('db \<Rightarrow> tables option) \<Rightarrow> service_config \<Rightarrow> 'w outside \<Rightarrow> bool" where
  "node_env sq view tx cfg out \<longleftrightarrow> sqlite_laws sq view tx \<and> reads_complete sq \<and> config_ok cfg out \<and> calm_disk out"

lemma ends_get:
  assumes "config_ok cfg out" "calm_disk out" "service_ok (svc s)"
    "\<And>r c. service_ok c \<Longrightarrow> handoff c = handoff (svc s) \<Longrightarrow> Q r (s\<lparr>svc := c\<rparr>)"
  shows "ends (on_chunks (get cfg out checksum)) s Q"
  using get_outcome [OF assms(1,3,2), of checksum] assms(4) by (auto intro: ends_on_chunks)

lemma ends_put:
  assumes "config_ok cfg out" "calm_disk out" "service_ok (svc s)"
    "\<And>r c. service_ok c \<Longrightarrow> local c = snd (chunk_put calm (local (svc s)) bs) \<Longrightarrow>
       r = Value \<lparr>ref_checksum = Sha256_hex bs, ref_size = of_nat (length bs)\<rparr> \<or> r = Error (Unavailable ''quorum write failed'') \<Longrightarrow> Q r (s\<lparr>svc := c\<rparr>)"
  shows "ends (on_chunks (put cfg out bs)) s Q"
proof -
  obtain r c where "put cfg out bs (svc s) = Some (Ret r, c)" "service_ok c" "local c = snd (chunk_put calm (local (svc s)) bs)"
    "r = Value \<lparr>ref_checksum = Sha256_hex bs, ref_size = of_nat (length bs)\<rparr> \<or> r = Error (Unavailable ''quorum write failed'')"
    using put_outcome [OF assms(1,3,2), of bs] by (auto split: if_splits)
  then show ?thesis using assms(4) by (intro ends_on_chunks)
qed

lemma ends_repair_chunks:
  fixes s :: "('db, 'w, 'z) node_scheme"
  assumes "config_ok cfg out" "calm_disk out" "service_ok (svc s)"
  shows "ends (repair_chunks cfg out cs n) s (\<lambda>m s'. n \<le> m \<and> m \<le> n + int (length cs) \<and> service_ok (svc s') \<and> meta s' = meta s)"
  using assms(3)
proof (induction cs arbitrary: n s)
  case Nil
  then show ?case by (simp add: ends_return)
next
  case (Cons c cs)
  define Q where "Q m' s' \<longleftrightarrow> n \<le> m' \<and> m' \<le> n + int (length (c # cs)) \<and> service_ok (svc s') \<and> meta s' = meta s"
    for m' and s' :: "('db, 'w, 'z) node_scheme"
  have IH: "ends (repair_chunks cfg out cs m) t Q"
    if "service_ok (svc t)" "meta t = meta s" "n \<le> m" "m \<le> n + 1" for m and t :: "('db, 'w, 'z) node_scheme"
    using Cons.IH [OF that(1), of m] that(2-4) by (elim ends_mono) (auto simp: Q_def)
  have "ends (case r of Error _ \<Rightarrow> repair_chunks cfg out cs n
      | Value bs \<Rightarrow> abind (on_chunks (put cfg out bs)) (\<lambda>p. repair_chunks cfg out cs (if result_ok p then n + 1 else n))) (s\<lparr>svc := c'\<rparr>) Q"
    if c': "service_ok c'" for r c'
  proof (cases r)
    case (Value bs)
    show ?thesis unfolding Value result.case
      by (intro ends_bind ends_put [OF assms(1,2)]) (use c' in \<open>auto intro!: IH\<close>)
  qed (use c' in \<open>auto intro!: IH\<close>)
  then have "ends (repair_chunks cfg out (c # cs) n) s Q"
    unfolding repair_chunks.simps by (intro ends_bind ends_get [OF assms(1,2) Cons.prems])
  then show ?case unfolding Q_def .
qed

definition chunk_count :: "object_map \<Rightarrow> string \<Rightarrow> string \<Rightarrow> nat" where
  "chunk_count M b k = (case M (c_str b, c_str k) of None \<Rightarrow> 0 | Some (_, _, cs) \<Rightarrow> length cs)"

lemma ends_repair_objects:
  fixes s :: "('db, 'w, 'z) node_scheme"
  assumes "node_env sq view tx cfg out" "service_ok (svc s)"
  shows "ends (repair_objects sq cfg out xs n) s (\<lambda>m s'. n \<le> m \<and>
    m \<le> n + int (sum_list (map (\<lambda>x. chunk_count (object_map (view (meta s))) (md_bucket x) (md_key x)) xs)) \<and>
    service_ok (svc s') \<and> view (meta s') = view (meta s) \<and> tx (meta s') = tx (meta s))"
  using assms(2)
proof (induction xs arbitrary: n s)
  case Nil
  then show ?case by (simp add: ends_return)
next
  case (Cons x xs)
  note env = assms(1) [unfolded node_env_def]
  let ?M = "object_map (view (meta s))"
  define Q where "Q m s' \<longleftrightarrow> n \<le> m \<and> m \<le> n + int (sum_list (map (\<lambda>x. chunk_count ?M (md_bucket x) (md_key x)) (x # xs))) \<and>
    service_ok (svc s') \<and> view (meta s') = view (meta s) \<and> tx (meta s') = tx (meta s)" for m and s' :: "('db, 'w, 'z) node_scheme"
  obtain d where g: "get_object sq (md_bucket x) (md_key x) (meta s) =
      (Ret (case ?M (c_str (md_bucket x), c_str (md_key x)) of None \<Rightarrow> Error (NotFound ''object not found'')
        | Some y \<Rightarrow> Value (metadata_of (md_bucket x) (md_key x) y)), d)" "view d = view (meta s)" "tx d = tx (meta s)"
    using get_object_reads [of sq view tx "md_bucket x" "md_key x" "meta s"] env by blast
  have IH: "ends (repair_objects sq cfg out xs m) t Q"
    if "service_ok (svc t)" "view (meta t) = view (meta s)" "tx (meta t) = tx (meta s)" "n \<le> m"
      "m \<le> n + int (chunk_count ?M (md_bucket x) (md_key x))" for m and t :: "('db, 'w, 'z) node_scheme"
    using Cons.IH [OF that(1), of m] that(2-5) by (elim ends_mono) (auto simp: Q_def)
  have "ends (repair_objects sq cfg out (x # xs) n) s Q"
  proof (cases "?M (c_str (md_bucket x), c_str (md_key x))")
    case None
    with g(1) have "get_object sq (md_bucket x) (md_key x) (meta s) = (Ret (Error (NotFound ''object not found'')), d)" by simp
    then show ?thesis unfolding repair_objects.simps
      by (rule ends_meta_bind) (use g Cons.prems in \<open>auto intro!: IH\<close>)
  next
    case (Some y)
    have c: "chunk_count ?M (md_bucket x) (md_key x) = length (snd (snd y))" using Some by (simp add: chunk_count_def split: prod.splits)
    have e: "ends (abind (repair_chunks cfg out (snd (snd y)) n) (repair_objects sq cfg out xs)) (s\<lparr>meta := d\<rparr>) Q"
      using env Cons.prems g c by (intro ends_bind ends_mono [OF ends_repair_chunks] IH) auto
    from Some g(1) have "get_object sq (md_bucket x) (md_key x) (meta s) = (Ret (Value (metadata_of (md_bucket x) (md_key x) y)), d)" by simp
    then show ?thesis unfolding repair_objects.simps
      by (rule ends_meta_bind) (use e in \<open>simp add: metadata_of_def\<close>)
  qed
  then show ?case unfolding Q_def .
qed

section \<open>Heartbeats and the thread\<close>

text \<open>One round of heartbeats with addresses that can be read: it returns, and no key of the
  table of members is lost.\<close>

lemma send_heartbeat_returns: "address_ok (address n) \<Longrightarrow> \<exists>r w'. send_heartbeat net token n from_id w = (Ret r, w')"
  unfolding send_heartbeat_def Let_def by (rule sbind_returns, rule call_returns)

lemma beat_ok: "service_ok s \<Longrightarrow> node_ok n \<Longrightarrow> service_ok (beat out n s)"
  by (simp add: service_ok_def beat_members heartbeat_members_ok)

lemma ends_heartbeat_task:
  "service_ok s \<Longrightarrow> \<forall>p \<in> set peers. node_ok p \<Longrightarrow>
     ends (heartbeat_task out token self_id hc peers) s (\<lambda>_ s'. service_ok s' \<and> local s' = local s \<and> handoff s' = handoff s \<and>
       fst ` set (members s) \<subseteq> fst ` set (members s'))"
proof (induction peers arbitrary: s)
  case Nil
  then show ?case by (simp add: ends_return)
next
  case (Cons p peers)
  obtain r w where r: "send_heartbeat (o_net out) token p self_id (world s) = (Ret r, w)"
    using send_heartbeat_returns Cons.prems(2) by (metis list.set_intros(1) node_ok_def)
  define s1 where "s1 = (if result_ok r \<and> hc then beat out p (s\<lparr>world := w\<rparr>) else s\<lparr>world := w\<rparr>)"
  have s1: "service_ok s1" "local s1 = local s" "handoff s1 = handoff s" "fst ` set (members s) \<subseteq> fst ` set (members s1)"
    using Cons.prems beat_ok [of "s\<lparr>world := w\<rparr>" p out]
    by (auto simp: s1_def service_ok_def beat_members heartbeat_keys)
  have "ends (heartbeat_task out token self_id hc peers) s1 (\<lambda>_ s'. service_ok s' \<and> local s' = local s \<and> handoff s' = handoff s \<and>
      fst ` set (members s) \<subseteq> fst ` set (members s'))"
    by (rule ends_mono [OF Cons.IH [OF s1(1)]]) (use Cons.prems(2) s1 subset_trans [OF s1(4)] in simp_all)
  then show ?case unfolding heartbeat_task.simps ends_def by (simp add: abind_def r s1_def)
qed

text \<open>The owner calls \<^verbatim>\<open>start\<close> and \<^verbatim>\<open>stop\<close> in any order, one at a time, while the thread runs.\<close>

inductive periodic_step :: "periodic \<Rightarrow> periodic \<Rightarrow> bool" where
  Start: "\<not> joining p \<Longrightarrow> periodic_step p (periodic_start p)"
| Stop: "\<not> joining p \<Longrightarrow> periodic_step p (periodic_clear p)"
| Join: "joining p \<Longrightarrow> thread p = None \<or> thread p = Some Returned \<Longrightarrow> periodic_step p (periodic_joined p)"
| Move: "thread p = Some ph \<Longrightarrow> ph \<noteq> Returned \<Longrightarrow> periodic_step p (p\<lparr>thread := Some (thread_step (flag p) ph)\<rparr>)"

definition periodic_inv :: "periodic \<Rightarrow> bool" where
  "periodic_inv p \<longleftrightarrow> \<not> terminated p \<and> (joining p \<longrightarrow> \<not> flag p) \<and> (\<not> joining p \<longrightarrow> (flag p \<longleftrightarrow> thread p \<noteq> None)) \<and>
     (flag p \<longrightarrow> thread p \<noteq> Some Returned)"

lemma periodic_inv_new: "periodic_inv periodic_new"
  by (simp add: periodic_inv_def periodic_new_def)

lemma periodic_step_inv: "periodic_step p q \<Longrightarrow> periodic_inv p \<Longrightarrow> periodic_inv q"
proof (induction rule: periodic_step.induct)
  case (Move p ph)
  then show ?case by (cases ph) (auto simp: periodic_inv_def)
qed (auto simp: periodic_inv_def periodic_start_def periodic_clear_def periodic_joined_def)

lemma periodic_reach_inv: "periodic_step\<^sup>*\<^sup>* p q \<Longrightarrow> periodic_inv p \<Longrightarrow> periodic_inv q"
  by (induction rule: rtranclp_induct) (auto intro: periodic_step_inv)

fun phases_left :: "phase option \<Rightarrow> nat" where
  "phases_left (Some Task) = 3" | "phases_left (Some Sleep) = 2" | "phases_left (Some Test) = 1" | "phases_left _ = 0"

lemma joining_step:
  assumes "periodic_step p q" "periodic_inv p" "joining p" "joining q"
  shows "phases_left (thread q) < phases_left (thread p) \<and> thread q \<noteq> Some Task"
  using assms(1)
proof cases
  case (Move ph)
  then show ?thesis using assms by (cases ph) (auto simp: periodic_inv_def)
qed (use assms in \<open>auto simp: periodic_joined_def\<close>)

section \<open>Properties\<close>


lemma sample_node_env: "node_env table_sqlite table_view table_tx two_members lonely"
  using table_sqlite_laws table_sqlite_completes sample_service_ok by (simp add: node_env_def)


text \<open>In every order in which its owner starts and stops the periodic worker, a running thread
  is never overwritten, the flag is set exactly while a thread is owned, and a stop in progress
  ends: the thread begins no further task and has returned after at most three of its steps.\<close>

theorem periodic_worker_stops:
  assumes "periodic_step\<^sup>*\<^sup>* periodic_new p"
  shows "\<not> terminated p \<and> (\<not> joining p \<longrightarrow> (flag p \<longleftrightarrow> thread p \<noteq> None)) \<and>
    (joining p \<longrightarrow> (\<exists>q. periodic_step p q) \<and>
       (\<forall>q. periodic_step p q \<and> joining q \<longrightarrow> thread q \<noteq> Some Task \<and> phases_left (thread q) < phases_left (thread p) \<and> phases_left (thread p) \<le> 3))"
proof -
  have inv: "periodic_inv p" using periodic_reach_inv [OF assms periodic_inv_new] .
  have b: "phases_left (thread p) \<le> 3" by (cases "thread p" rule: phases_left.cases) auto
  have "\<exists>q. periodic_step p q" if "joining p"
  proof (cases "thread p = None \<or> thread p = Some Returned")
    case True
    with that show ?thesis using periodic_step.Join by blast
  next
    case False
    then obtain ph where "thread p = Some ph" "ph \<noteq> Returned" by auto
    then show ?thesis using periodic_step.Move by blast
  qed
  moreover have "thread q \<noteq> Some Task \<and> phases_left (thread q) < phases_left (thread p)" if "joining p" "periodic_step p q" "joining q" for q
    using joining_step [OF that(2) inv that(1,3)] by blast
  ultimately show ?thesis using inv b unfolding periodic_inv_def by blast
qed

theorem periodic_worker_stops_witness:
  "periodic_step\<^sup>*\<^sup>* periodic_new (periodic_clear (periodic_start periodic_new)) \<and> \<not> terminated (periodic_clear (periodic_start periodic_new))"
proof -
  have "periodic_step periodic_new (periodic_start periodic_new)" by (rule periodic_step.Start) (simp add: periodic_new_def)
  moreover have "periodic_step (periodic_start periodic_new) (periodic_clear (periodic_start periodic_new))"
    by (rule periodic_step.Stop) (simp add: periodic_new_def periodic_start_def)
  ultimately have r: "periodic_step\<^sup>*\<^sup>* periodic_new (periodic_clear (periodic_start periodic_new))" by (rule converse_rtranclp_into_rtranclp [OF _ r_into_rtranclp])
  with periodic_worker_stops [OF r] show ?thesis by blast
qed

section \<open>The heartbeat worker beside its node\<close>

lemma move_thread_sim:
  assumes "thread (hw_worker hw) = Some ph" "ph \<noteq> Returned"
  shows "periodic_step (hw_worker hw) (hw_worker (move_thread hw))" "hw_peers (move_thread hw) = hw_peers hw"
  using periodic_step.Move [OF assms] assms(1) by (simp_all add: move_thread_def)

lemma heartbeat_step_sim:
  assumes "heartbeat_step out (hw, s) (hw', s')" "\<forall>p \<in> set (hw_peers hw). node_ok p" "service_ok s"
  shows "periodic_step (hw_worker hw) (hw_worker hw') \<and> hw_peers hw' = hw_peers hw \<and> service_ok s' \<and> local s' = local s \<and> handoff s' = handoff s"
  using assms(1)
proof cases
  case Hb_start
  then show ?thesis using assms by (auto simp: heartbeat_start_def intro: periodic_step.Start)
next
  case Hb_stop
  then show ?thesis using assms by (auto simp: heartbeat_stop_def intro: periodic_step.Stop)
next
  case Hb_join
  then show ?thesis using assms by (auto intro: periodic_step.Join)
next
  case Hb_idle
  then show ?thesis using assms move_thread_sim [of hw] by blast
next
  case Hb_round
  then show ?thesis
    using ends_heartbeat_task [OF assms(3,2), of out "hw_token hw" "hw_self_id hw" "hw_cluster hw"] move_thread_sim [of hw Task]
    by (auto simp: ends_def)
next
  case (Hb_throw e)
  then show ?thesis
    using ends_heartbeat_task [OF assms(3,2), of out "hw_token hw" "hw_self_id hw" "hw_cluster hw"] by (auto simp: ends_def)
qed

lemma heartbeat_steps_sim:
  assumes "(heartbeat_step out)\<^sup>*\<^sup>* a b" "\<forall>p \<in> set (hw_peers (fst a)). node_ok p" "service_ok (snd a)"
  shows "periodic_step\<^sup>*\<^sup>* (hw_worker (fst a)) (hw_worker (fst b)) \<and> hw_peers (fst b) = hw_peers (fst a) \<and>
    service_ok (snd b) \<and> local (snd b) = local (snd a) \<and> handoff (snd b) = handoff (snd a)"
  using assms(1)
proof (induction rule: rtranclp_induct)
  case base
  then show ?case using assms by simp
next
  case (step b c)
  then show ?case
    using assms(2) heartbeat_step_sim [of out "fst b" "snd b" "fst c" "snd c"] by (auto intro: rtranclp.rtrancl_into_rtrancl)
qed

lemma heartbeat_step_possible:
  assumes "thread (hw_worker hw) = Some ph" "ph \<noteq> Returned" "\<forall>p \<in> set (hw_peers hw). node_ok p" "service_ok s"
  shows "\<exists>s'. heartbeat_step out (hw, s) (move_thread hw, s')"
proof (cases "ph = Task")
  case True
  obtain s' where "heartbeat_task out (hw_token hw) (hw_self_id hw) (hw_cluster hw) (hw_peers hw) s = Some (Ret (), s')"
    using ends_heartbeat_task [OF assms(4,3), of out "hw_token hw" "hw_self_id hw" "hw_cluster hw"] by (auto simp: ends_def)
  then show ?thesis using Hb_round assms(1) True by blast
next
  case False
  then have "ph = Test \<or> ph = Sleep" using assms(2) by (cases ph) auto
  then show ?thesis using Hb_idle assms(1) by blast
qed



end
