(* ===== verification/Config.thy ===== *)
theory Config
  imports Status_Result Codec
begin

text \<open>
  \<^verbatim>\<open>src/common/config.cpp\<close>: reading the configuration file. The file's content is an
  argument, \<open>None\<close> when it cannot be opened. A number that cannot be converted throws.
\<close>

section \<open>The implementation\<close>

record config =
  listen_host :: string
  listen_port :: int
  data_dir :: string
  metadata_db :: string
  chunk_size :: u64
  cfg_replication_factor :: int
  cfg_write_quorum :: int
  cfg_read_quorum :: int
  cfg_node_id :: string
  peers :: "string list"
  admin_token :: string
  wal_path :: string
  handoff_path :: string

definition config_default :: config where
  "config_default = \<lparr>listen_host = ''0.0.0.0'', listen_port = 8080, data_dir = ''data'', metadata_db = ''data/metadata.sqlite'',
     chunk_size = 4 * 1024 * 1024, cfg_replication_factor = 3, cfg_write_quorum = 2, cfg_read_quorum = 2, cfg_node_id = ''node-a'',
     peers = [], admin_token = ''admin-token'', wal_path = ''data/wal.log'', handoff_path = ''data/hinted-handoff.log''\<rparr>"

definition trim :: "string \<Rightarrow> string" where
  "trim s0 =
     (let s1 = dropWhile isspace s0; s = rev (dropWhile isspace (rev s1))
      in if length s \<ge> 2 \<and> hd s = CHR 0x22 \<and> last s = CHR 0x22 then take (length s - 2) (drop 1 s) else s)"

text \<open>The chain of comparisons of the key; an unknown key changes nothing.\<close>

definition set_option :: "string \<Rightarrow> string \<Rightarrow> config \<Rightarrow> config outcome" where
  "set_option key v cfg =
     (if key = ''listen_host'' then Ret (cfg\<lparr>listen_host := v\<rparr>)
      else if key = ''listen_port'' then obind (stoi v) (\<lambda>n. Ret (cfg\<lparr>listen_port := n\<rparr>))
      else if key = ''data_dir'' then Ret (cfg\<lparr>data_dir := v\<rparr>)
      else if key = ''metadata_db'' then Ret (cfg\<lparr>metadata_db := v\<rparr>)
      else if key = ''chunk_size'' then obind (stoull v) (\<lambda>n. Ret (cfg\<lparr>chunk_size := n\<rparr>))
      else if key = ''replication_factor'' then obind (stoi v) (\<lambda>n. Ret (cfg\<lparr>cfg_replication_factor := n\<rparr>))
      else if key = ''write_quorum'' then obind (stoi v) (\<lambda>n. Ret (cfg\<lparr>cfg_write_quorum := n\<rparr>))
      else if key = ''read_quorum'' then obind (stoi v) (\<lambda>n. Ret (cfg\<lparr>cfg_read_quorum := n\<rparr>))
      else if key = ''node_id'' then Ret (cfg\<lparr>cfg_node_id := v\<rparr>)
      else if key = ''peer'' then Ret (cfg\<lparr>peers := peers cfg @ [v]\<rparr>)
      else if key = ''admin_token'' then Ret (cfg\<lparr>admin_token := v\<rparr>)
      else if key = ''wal_path'' then Ret (cfg\<lparr>wal_path := v\<rparr>)
      else if key = ''handoff_path'' then Ret (cfg\<lparr>handoff_path := v\<rparr>)
      else Ret cfg)"

definition config_line :: "string \<Rightarrow> config \<Rightarrow> config outcome" where
  "config_line line0 cfg =
     (let line = (case find_char CHR ''#'' line0 of None \<Rightarrow> line0 | Some i \<Rightarrow> take i line0)
      in case find_char CHR ''='' line of
           None \<Rightarrow> Ret cfg
         | Some eq \<Rightarrow> set_option (trim (take eq line)) (trim (drop (Suc eq) line)) cfg)"

fun config_lines :: "string list \<Rightarrow> config \<Rightarrow> config outcome" where
  "config_lines [] cfg = Ret cfg"
| "config_lines (line # lines) cfg = obind (config_line line cfg) (config_lines lines)"

definition load_config :: "string \<Rightarrow> string option \<Rightarrow> config result outcome" where
  "load_config path file =
     (case file of
        None \<Rightarrow> Ret (Error (NotFound (''config file not found: '' @ path)))
      | Some content \<Rightarrow> obind (config_lines (getlines content) config_default) (\<lambda>cfg. Ret (Value cfg)))"

section \<open>Settings as text\<close>

text \<open>A setting as it is written in the shipped files: \<^verbatim>\<open>key = "value"\<close> or \<^verbatim>\<open>key = number\<close>, with
  any blanks around and an optional comment.\<close>

definition blank :: "string \<Rightarrow> bool" where
  "blank s \<longleftrightarrow> (\<forall>c \<in> set s. isspace c \<and> c \<noteq> newline)"

definition quoted :: "string \<Rightarrow> string" where
  "quoted v = [CHR 0x22] @ v @ [CHR 0x22]"

definition key_ok :: "string \<Rightarrow> bool" where
  "key_ok k \<longleftrightarrow> plain_word k \<and> CHR ''#'' \<notin> set k \<and> CHR ''='' \<notin> set k \<and> CHR 0x22 \<notin> set k"

definition value_ok :: "string \<Rightarrow> bool" where
  "value_ok v \<longleftrightarrow> CHR ''#'' \<notin> set v \<and> newline \<notin> set v"

definition setting_line :: "string \<Rightarrow> string \<Rightarrow> string \<Rightarrow> string \<Rightarrow> string \<Rightarrow> string" where
  "setting_line b1 k b2 v rest = b1 @ k @ b2 @ [CHR ''=''] @ b2 @ quoted v @ b1 @ rest"

lemma trim_padded:
  assumes "blank b1" "blank b2" "w = [] \<or> \<not> isspace (hd w) \<and> \<not> isspace (last w)"
  shows "trim (b1 @ w @ b2) = trim w"
proof (cases "w = []")
  case True
  have d: "dropWhile isspace (b1 @ b2) = []" using assms(1,2) by (auto simp: blank_def dropWhile_eq_Nil_conv)
  show ?thesis unfolding True trim_def append_Nil d Let_def by simp
next
  case False
  have d: "dropWhile isspace w = w" using assms(3) False by (cases w) auto
  have r: "dropWhile isspace (rev w) = rev w" using assms(3) False by (cases w rule: rev_cases) auto
  have "dropWhile isspace (b1 @ w @ b2) = w @ b2"
    using assms(1,3) False by (cases w) (auto simp: blank_def dropWhile_append)
  moreover have "dropWhile isspace (rev b2 @ rev w) = rev w"
    using assms(2) r by (auto simp: blank_def dropWhile_append)
  ultimately show ?thesis by (simp add: trim_def d r)
qed

lemma trim_plain: "plain_word k \<Longrightarrow> CHR 0x22 \<notin> set k \<Longrightarrow> trim k = k"
proof -
  assume k: "plain_word k" "CHR 0x22 \<notin> set k"
  then have "dropWhile isspace k = k" "dropWhile isspace (rev k) = rev k" by (simp_all add: dropWhile_isspace_id plain_word_def)
  moreover have "hd k \<noteq> CHR 0x22" using k by (metis hd_in_set plain_word_def)
  ultimately show ?thesis by (simp add: trim_def)
qed

lemma trim_quoted: "trim (quoted v) = v"
proof -
  have q: "\<not> isspace CHR 0x22" by (simp add: isspace_def)
  then show ?thesis by (simp add: trim_def quoted_def)
qed

lemma config_line_setting:
  assumes "blank b1" "blank b2" "key_ok k" "value_ok v" "rest = [] \<or> hd rest = CHR ''#''"
  shows "config_line (setting_line b1 k b2 v rest) cfg = set_option k v cfg"
proof -
  let ?l = "b1 @ k @ b2 @ [CHR ''=''] @ b2 @ quoted v @ b1"
  have sp: "\<not> isspace CHR ''#''" "\<not> isspace CHR ''=''" by (simp_all add: isspace_def)
  have nh: "CHR ''#'' \<notin> set b" and ne: "CHR ''='' \<notin> set b" if "blank b" for b
    using that sp unfolding blank_def by blast+
  have h: "CHR ''#'' \<notin> set ?l" using assms(3,4) nh [OF assms(1)] nh [OF assms(2)] by (simp add: key_ok_def value_ok_def quoted_def)
  have cut: "(case find_char CHR ''#'' (?l @ rest) of None \<Rightarrow> ?l @ rest | Some i \<Rightarrow> take i (?l @ rest)) = ?l"
  proof (cases rest)
    case Nil
    have "find_char CHR ''#'' ?l = None" using h by (simp only: find_char_None not_False_eq_True)
    with Nil show ?thesis by simp
  next
    case (Cons c cs)
    then show ?thesis using assms(5) find_char_append [OF h, of cs] by simp
  qed
  have "find_char CHR ''='' ((b1 @ k @ b2) @ CHR ''='' # (b2 @ quoted v @ b1)) = Some (length (b1 @ k @ b2))"
    using assms(3) ne [OF assms(1)] ne [OF assms(2)] by (intro find_char_append) (simp add: key_ok_def)
  then have eq: "find_char CHR ''='' ?l = Some (length (b1 @ k @ b2))" by simp
  have "\<not> isspace (hd k) \<and> \<not> isspace (last k)" using assms(3) by (simp add: key_ok_def plain_word_def)
  then have "trim (b1 @ k @ b2) = k" using trim_padded [OF assms(1,2)] trim_plain assms(3) by (simp add: key_ok_def)
  moreover have "trim (b2 @ quoted v @ b1) = v"
    using trim_padded [OF assms(2,1), of "quoted v"] trim_quoted by (simp add: quoted_def isspace_def)
  moreover have "take (length (b1 @ k @ b2)) ?l = b1 @ k @ b2" "drop (Suc (length (b1 @ k @ b2))) ?l = b2 @ quoted v @ b1" by simp_all
  moreover have "setting_line b1 k b2 v rest = ?l @ rest" by (simp add: setting_line_def)
  ultimately show ?thesis by (simp only: config_line_def Let_def cut eq option.case)
qed

definition settings_text :: "(string \<times> string \<times> string \<times> string \<times> string) list \<Rightarrow> string" where
  "settings_text ss = concat (map (\<lambda>(b1, k, b2, v, rest). setting_line b1 k b2 v rest @ [newline]) ss)"

fun setting_ok :: "string \<times> string \<times> string \<times> string \<times> string \<Rightarrow> bool" where
  "setting_ok (b1, k, b2, v, rest) \<longleftrightarrow> blank b1 \<and> blank b2 \<and> key_ok k \<and> value_ok v \<and>
     (rest = [] \<or> hd rest = CHR ''#'') \<and> newline \<notin> set rest"

fun apply_settings :: "(string \<times> string \<times> string \<times> string \<times> string) list \<Rightarrow> config \<Rightarrow> config outcome" where
  "apply_settings [] cfg = Ret cfg"
| "apply_settings ((_, k, _, v, _) # ss) cfg = obind (set_option k v cfg) (apply_settings ss)"

lemma setting_one_line: "setting_ok (b1, k, b2, v, rest) \<Longrightarrow> newline \<notin> set (setting_line b1 k b2 v rest)"
  using plain_word_no_sep(2) [of k]
  by (auto simp: setting_line_def quoted_def blank_def key_ok_def value_ok_def newline_def)

lemma config_lines_settings:
  "\<forall>x \<in> set ss. setting_ok x \<Longrightarrow> config_lines (map (\<lambda>(b1, k, b2, v, rest). setting_line b1 k b2 v rest) ss) cfg = apply_settings ss cfg"
proof (induction ss arbitrary: cfg)
  case (Cons x ss)
  obtain b1 k b2 v rest where x: "x = (b1, k, b2, v, rest)" by (cases x)
  have ok: "setting_ok (b1, k, b2, v, rest)" "\<forall>x \<in> set ss. setting_ok x" using Cons.prems x by simp_all
  from ok(1) have "config_line (setting_line b1 k b2 v rest) cfg = set_option k v cfg" by (intro config_line_setting) simp_all
  then show ?case using Cons.IH [OF ok(2)] by (cases "set_option k v cfg") (simp_all add: x)
qed simp

lemma getlines_settings:
  assumes "\<forall>x \<in> set ss. setting_ok x"
  shows "getlines (settings_text ss) = map (\<lambda>(b1, k, b2, v, rest). setting_line b1 k b2 v rest) ss"
proof -
  have "\<forall>l \<in> set (map (\<lambda>(b1, k, b2, v, rest). setting_line b1 k b2 v rest) ss). newline \<notin> set l"
    using assms setting_one_line by (auto split: prod.splits)
  from getlines_concat [OF this, of "[]"] show ?thesis by (simp add: settings_text_def comp_def case_prod_unfold)
qed

section \<open>Properties\<close>



text \<open>A comment sign is cut off inside quotes too, and a malformed number ends the program: the
  exception is not turned into a status.\<close>

lemma hash_in_quotes: "config_line (''admin_token = '' @ quoted ''a#b'') cfg = Ret (cfg\<lparr>admin_token := [CHR 0x22, CHR ''a'']\<rparr>)"
  by (simp add: config_line_def quoted_def trim_def isspace_def set_option_def)

lemma bad_number_throws:
  "stoi v = Throw e \<Longrightarrow> blank b \<Longrightarrow> value_ok v \<Longrightarrow> config_line (setting_line [] ''listen_port'' b v []) cfg = Throw e"
  by (subst config_line_setting) (simp_all add: set_option_def key_ok_def plain_word_def isspace_def blank_def)

end
