(* ===== verification/Auth_Manager.thy ===== *)
theory Auth_Manager
  imports Status_Result
begin

text \<open>
  \<^verbatim>\<open>src/common/auth.cpp\<close>: the token table and the authorisation check.
\<close>

datatype permission = kRead | kWrite | kDelete | kAdmin

type_synonym auth = "string \<rightharpoonup> permission set"

definition auth_new :: auth where
  "auth_new = Map.empty"

definition add_token :: "auth \<Rightarrow> string \<Rightarrow> permission set \<Rightarrow> auth" where
  "add_token tokens token permissions = tokens(token \<mapsto> permissions)"

definition authorize :: "auth \<Rightarrow> string \<Rightarrow> permission \<Rightarrow> unit result" where
  "authorize tokens token permission =
     (case tokens token of
        None \<Rightarrow> Error (Unauthenticated ''missing or invalid token'')
      | Some perms \<Rightarrow> if kAdmin \<in> perms \<or> permission \<in> perms then Value ()
          else Error (PermissionDenied ''token lacks required permission''))"

lemma authorize_ok_iff:
  "authorize tokens token p = Value () \<longleftrightarrow> (\<exists>perms. tokens token = Some perms \<and> (kAdmin \<in> perms \<or> p \<in> perms))"
  by (auto simp: authorize_def split: option.splits)

lemma authorize_unauthenticated_iff:
  "code (result_status (authorize tokens token p)) = kUnauthenticated \<longleftrightarrow> tokens token = None"
  by (auto simp: authorize_def split: option.splits)

lemma authorize_wf: "result_wf (authorize tokens token p)"
  by (auto simp: authorize_def split: option.splits)

text \<open>The table built by a list of \<^verbatim>\<open>add_token\<close> calls.\<close>

fun add_tokens :: "auth \<Rightarrow> (string \<times> permission set) list \<Rightarrow> auth" where
  "add_tokens a [] = a"
| "add_tokens a ((t, ps) # grants) = add_tokens (add_token a t ps) grants"

lemma add_tokens_lookup:
  "add_tokens a grants t = (case map_of (rev grants) t of None \<Rightarrow> a t | Some ps \<Rightarrow> Some ps)"
  by (induction grants arbitrary: a) (auto simp: add_token_def map_add_def split: option.splits)

section \<open>Properties\<close>

text \<open>
  after any list of grants, a token is authorised for a permission exactly when its
  last grant holds that permission or the administrator permission; a token without a
  grant is unauthenticated, and one whose last grant is too weak is denied.
\<close>

theorem authorize_after_grants:
  "authorize (add_tokens auth_new grants) token p =
     (case map_of (rev grants) token of
        None \<Rightarrow> Error (Unauthenticated ''missing or invalid token'')
      | Some perms \<Rightarrow> if kAdmin \<in> perms \<or> p \<in> perms then Value ()
          else Error (PermissionDenied ''token lacks required permission''))"
  by (simp add: authorize_def add_tokens_lookup auth_new_def split: option.split)

end
