(* ===== verification/Metrics_Counters.thy ===== *)
theory Metrics_Counters
  imports Cpp_Text
begin

text \<open>
  \<^verbatim>\<open>src/common/metrics.cpp\<close>: six 64-bit counters and the Prometheus text they are printed
  as. Each record operation is a sequence of atomic additions; the model runs one operation
  at a time.
\<close>

record metrics =
  uploads :: u64
  downloads :: u64
  deletes :: u64
  errors :: u64
  bytes_in :: u64
  bytes_out :: u64

definition metrics_new :: metrics where
  "metrics_new = \<lparr>uploads = 0, downloads = 0, deletes = 0, errors = 0, bytes_in = 0, bytes_out = 0\<rparr>"

definition record_upload :: "u64 \<Rightarrow> metrics \<Rightarrow> metrics" where
  "record_upload n m = m\<lparr>uploads := uploads m + 1, bytes_in := bytes_in m + n\<rparr>"

definition record_download :: "u64 \<Rightarrow> metrics \<Rightarrow> metrics" where
  "record_download n m = m\<lparr>downloads := downloads m + 1, bytes_out := bytes_out m + n\<rparr>"

definition record_delete :: "metrics \<Rightarrow> metrics" where
  "record_delete m = m\<lparr>deletes := deletes m + 1\<rparr>"

definition record_error :: "metrics \<Rightarrow> metrics" where
  "record_error m = m\<lparr>errors := errors m + 1\<rparr>"

definition prometheus :: "metrics \<Rightarrow> string" where
  "prometheus m =
     ''dstore_uploads_total '' @ to_string (unat (uploads m)) @ [newline] @
     ''dstore_downloads_total '' @ to_string (unat (downloads m)) @ [newline] @
     ''dstore_deletes_total '' @ to_string (unat (deletes m)) @ [newline] @
     ''dstore_errors_total '' @ to_string (unat (errors m)) @ [newline] @
     ''dstore_bytes_in_total '' @ to_string (unat (bytes_in m)) @ [newline] @
     ''dstore_bytes_out_total '' @ to_string (unat (bytes_out m)) @ [newline]"

section \<open>Sequences of events\<close>

datatype metric_event = Upload u64 | Download u64 | Delete | Failure

fun record_event :: "metric_event \<Rightarrow> metrics \<Rightarrow> metrics" where
  "record_event (Upload n) = record_upload n"
| "record_event (Download n) = record_download n"
| "record_event Delete = record_delete"
| "record_event Failure = record_error"

fun upload_bytes :: "metric_event \<Rightarrow> nat" where
  "upload_bytes (Upload n) = unat n"
| "upload_bytes _ = 0"

fun download_bytes :: "metric_event \<Rightarrow> nat" where
  "download_bytes (Download n) = unat n"
| "download_bytes _ = 0"

lemma fold_record_event:
  "fold record_event es m =
     \<lparr>uploads = uploads m + of_nat (length (filter (\<lambda>e. \<exists>n. e = Upload n) es)),
      downloads = downloads m + of_nat (length (filter (\<lambda>e. \<exists>n. e = Download n) es)),
      deletes = deletes m + of_nat (length (filter (\<lambda>e. e = Delete) es)),
      errors = errors m + of_nat (length (filter (\<lambda>e. e = Failure) es)),
      bytes_in = bytes_in m + of_nat (sum_list (map upload_bytes es)),
      bytes_out = bytes_out m + of_nat (sum_list (map download_bytes es))\<rparr>"
proof (induction es arbitrary: m)
  case (Cons e es)
  then show ?case
    by (cases e) (simp_all add: record_upload_def record_download_def record_delete_def record_error_def algebra_simps)
qed simp

text \<open>The line of the exposition format that a counter prints, one line per counter.\<close>

definition metric_line :: "string \<Rightarrow> u64 \<Rightarrow> string" where
  "metric_line name v = name @ '' '' @ to_string (unat v)"

lemma newline_not_digit: "newline \<notin> set (to_string n)"
  using to_string_no_space isspace_newline by blast

lemma metric_line_no_newline: "newline \<notin> set name \<Longrightarrow> newline \<notin> set (metric_line name v)"
  using newline_not_digit by (auto simp: metric_line_def newline_def)

lemma prometheus_lines:
  "getlines (prometheus m) =
     [metric_line ''dstore_uploads_total'' (uploads m), metric_line ''dstore_downloads_total'' (downloads m),
      metric_line ''dstore_deletes_total'' (deletes m), metric_line ''dstore_errors_total'' (errors m),
      metric_line ''dstore_bytes_in_total'' (bytes_in m), metric_line ''dstore_bytes_out_total'' (bytes_out m)]"
  (is "_ = ?ls")
proof -
  have "prometheus m = concat (map (\<lambda>l. l @ [newline]) ?ls) @ []"
    by (simp add: prometheus_def metric_line_def)
  moreover have "\<forall>l \<in> set ?ls. newline \<notin> set l"
    by (simp, intro conjI; rule metric_line_no_newline; simp add: newline_def)
  ultimately show ?thesis by (simp only: getlines_concat) simp
qed

section \<open>Properties\<close>

text \<open>
  after any sequence of recorded events the exposition text has one line per counter,
  and each prints the number of events of its kind, or the bytes they carried, modulo
  \<open>2^64\<close>.
\<close>

theorem prometheus_counts:
  "getlines (prometheus (fold record_event es metrics_new)) =
     [''dstore_uploads_total '' @ to_string (length (filter (\<lambda>e. \<exists>n. e = Upload n) es) mod 2 ^ 64),
      ''dstore_downloads_total '' @ to_string (length (filter (\<lambda>e. \<exists>n. e = Download n) es) mod 2 ^ 64),
      ''dstore_deletes_total '' @ to_string (length (filter (\<lambda>e. e = Delete) es) mod 2 ^ 64),
      ''dstore_errors_total '' @ to_string (length (filter (\<lambda>e. e = Failure) es) mod 2 ^ 64),
      ''dstore_bytes_in_total '' @ to_string (sum_list (map upload_bytes es) mod 2 ^ 64),
      ''dstore_bytes_out_total '' @ to_string (sum_list (map download_bytes es) mod 2 ^ 64)]"
  unfolding prometheus_lines fold_record_event
  by (simp add: metrics_new_def metric_line_def unat_of_size_mod)

end
