(* ===== verification/Wal_Log.thy ===== *)
theory Wal_Log
  imports Sha256 Codec
begin

text \<open>
  \<^verbatim>\<open>src/durability/wal.cpp\<close>: the write-ahead log. The state is the content of the log
  file (\<open>None\<close> when it does not exist) and the state of the output stream: whether it has
  been opened, and whether it is still good. A stream that was never opened is good until
  the first write to it fails.

  What the operating system does with a write is an argument of \<open>append\<close>: \<open>None\<close>
  when everything reached the file, \<open>Some n\<close> when only \<open>n\<close> characters did and the stream
  reported the failure.
\<close>

section \<open>The implementation\<close>

definition kPutObject :: int where "kPutObject = 1"
definition kDeleteObject :: int where "kDeleteObject = 2"
definition kRaftEntry :: int where "kRaftEntry = 3"
definition kHintedHandoff :: int where "kHintedHandoff = 4"

record wal_record =
  rec_type :: int
  rec_key :: string
  rec_payload :: string

record wal =
  wal_file :: "string option"
  wal_opened :: bool
  wal_good :: bool

definition wal_new :: "string option \<Rightarrow> wal" where
  "wal_new file = \<lparr>wal_file = file, wal_opened = False, wal_good = True\<rparr>"

text \<open>\<open>mkdir_ok\<close> and \<open>can_open\<close> are the operating system's answers to creating the parent
  directories and to opening the file for appending.\<close>

definition wal_open :: "bool \<Rightarrow> bool \<Rightarrow> wal \<Rightarrow> unit result outcome \<times> wal" where
  "wal_open mkdir_ok can_open w =
     (if \<not> mkdir_ok then (Throw filesystem_error, w)
      else if can_open
      then (Ret (Value ()), w\<lparr>wal_file := Some (case wal_file w of None \<Rightarrow> [] | Some s \<Rightarrow> s), wal_opened := True\<rparr>)
      else (Ret (Error (Internal ''failed to open wal'')), w\<lparr>wal_good := False\<rparr>))"

definition wal_body :: "wal_record \<Rightarrow> string" where
  "wal_body r = to_string_int (rec_type r) @ [tab] @ rec_key r @ [tab] @ rec_payload r"

definition wal_line :: "wal_record \<Rightarrow> string" where
  "wal_line r = wal_body r @ [tab] @ Sha256_hex_string (wal_body r)"

definition wal_append :: "nat option \<Rightarrow> wal \<Rightarrow> wal_record \<Rightarrow> unit result \<times> wal" where
  "wal_append io w r =
     (if \<not> wal_good w then (Error (Internal ''wal is not open''), w)
      else if \<not> wal_opened w then (Error (Internal ''failed to append wal record''), w\<lparr>wal_good := False\<rparr>)
      else let text = wal_line r @ [newline];
               old = (case wal_file w of None \<Rightarrow> [] | Some s \<Rightarrow> s)
        in case io of
             None \<Rightarrow> (Value (), w\<lparr>wal_file := Some (old @ text)\<rparr>)
           | Some n \<Rightarrow> (Error (Internal ''failed to append wal record''),
                        w\<lparr>wal_file := Some (old @ take n text), wal_good := False\<rparr>))"

definition replay_line :: "string \<Rightarrow> wal_record result outcome" where
  "replay_line line =
     (let parts = split_on tab line in
      if length parts \<noteq> 4 then Ret (Error (Internal ''corrupt wal record''))
      else let body = parts ! 0 @ [tab] @ parts ! 1 @ [tab] @ parts ! 2 in
        if Sha256_hex_string body \<noteq> parts ! 3 then Ret (Error (Internal ''wal checksum mismatch''))
        else obind (stoi (parts ! 0)) (\<lambda>t.
          Ret (Value \<lparr>rec_type = t, rec_key = parts ! 1, rec_payload = parts ! 2\<rparr>)))"

text \<open>The loop over the lines, with the records gathered so far; it stops at the first error.\<close>

fun replay_lines :: "wal_record list \<Rightarrow> string list \<Rightarrow> wal_record list result outcome" where
  "replay_lines records [] = Ret (Value records)"
| "replay_lines records (line # lines) = obind (replay_line line) (\<lambda>res.
     case res of Error s \<Rightarrow> Ret (Error s) | Value r \<Rightarrow> replay_lines (records @ [r]) lines)"

definition wal_replay :: "wal \<Rightarrow> wal_record list result outcome" where
  "wal_replay w = (case wal_file w of None \<Rightarrow> Ret (Value []) | Some s \<Rightarrow> replay_lines [] (getlines s))"

section \<open>Lines\<close>

definition wal_valid :: "wal_record \<Rightarrow> bool" where
  "wal_valid r \<longleftrightarrow> 0 \<le> rec_type r \<and> rec_type r < 2 ^ 31 \<and>
     tab \<notin> set (rec_key r) \<and> newline \<notin> set (rec_key r) \<and> tab \<notin> set (rec_payload r) \<and> newline \<notin> set (rec_payload r)"

lemma hash_no_sep: "tab \<notin> set (Sha256_hex_string s)" "newline \<notin> set (Sha256_hex_string s)"
  using Sha256_hex_is_hex [of _ "string_bytes s"]
  by (auto simp: Sha256_hex_string_def is_hex_def tab_def newline_def)

lemma type_no_sep:
  assumes "0 \<le> t"
  shows "tab \<notin> set (to_string_int t)" "newline \<notin> set (to_string_int t)"
  using assms plain_word_no_sep [OF plain_word_to_string] by (simp_all add: to_string_int_def)

lemma wal_line_join:
  "wal_line r = join_with tab [to_string_int (rec_type r), rec_key r, rec_payload r, Sha256_hex_string (wal_body r)]"
  by (simp add: wal_line_def wal_body_def)

lemma split_wal_line:
  assumes "wal_valid r"
  shows "split_on tab (wal_line r) = [to_string_int (rec_type r), rec_key r, rec_payload r, Sha256_hex_string (wal_body r)]"
  unfolding wal_line_join
  by (rule split_join) (use assms hash_no_sep type_no_sep in \<open>auto simp: wal_valid_def\<close>)

lemma stoi_type: "0 \<le> t \<Longrightarrow> t < 2 ^ 31 \<Longrightarrow> stoi (to_string_int t) = Ret t"
  using stoi_to_string [of "nat t"] by (simp add: to_string_int_def)

lemma replay_wal_line: "wal_valid r \<Longrightarrow> replay_line (wal_line r) = Ret (Value r)"
  by (simp add: replay_line_def split_wal_line wal_body_def [of r, simplified, symmetric] stoi_type wal_valid_def)

lemma wal_line_one_line: "wal_valid r \<Longrightarrow> newline \<notin> set (wal_line r)"
  by (auto simp: wal_line_def wal_body_def wal_valid_def hash_no_sep type_no_sep)

fun line_record :: "string \<Rightarrow> wal_record option" where
  "line_record l = (case replay_line l of Ret (Value r) \<Rightarrow> Some r | _ \<Rightarrow> None)"

interpretation wal: line_codec wal_line line_record wal_valid
  by unfold_locales (simp_all add: replay_wal_line wal_line_one_line)

text \<open>What an accepted line looks like: the fourth field is the hash of the first three.\<close>

lemma replay_line_sound:
  assumes "replay_line l = Ret (Value r)"
  obtains t where "l = t @ [tab] @ rec_key r @ [tab] @ rec_payload r @ [tab] @
      Sha256_hex_string (t @ [tab] @ rec_key r @ [tab] @ rec_payload r)"
    "stoi t = Ret (rec_type r)"
proof -
  let ?p = "split_on tab l"
  have p: "length ?p = 4" "Sha256_hex_string (?p ! 0 @ [tab] @ ?p ! 1 @ [tab] @ ?p ! 2) = ?p ! 3"
    and r: "stoi (?p ! 0) = Ret (rec_type r)" "rec_key r = ?p ! 1" "rec_payload r = ?p ! 2"
    using assms by (auto simp: replay_line_def Let_def split: if_splits)
  have "?p = [?p ! 0, ?p ! 1, ?p ! 2, ?p ! 3]"
    using p(1) by (auto intro!: nth_equalityI simp: less_Suc_eq numeral_eq_Suc)
  then have "l = ?p ! 0 @ [tab] @ ?p ! 1 @ [tab] @ ?p ! 2 @ [tab] @ ?p ! 3"
    using join_split [of tab l] by (metis append_Cons append_Nil join_with.simps)
  then show thesis using that [of "?p ! 0"] p(2) r by metis
qed

section \<open>Files\<close>

lemma replay_lines_append:
  "replay_lines acc ls = Ret (Value rs) \<Longrightarrow> replay_lines acc (ls @ ls') = replay_lines rs ls'"
proof (induction ls arbitrary: acc)
  case (Cons l ls)
  then obtain r where "replay_line l = Ret (Value r)" "replay_lines (acc @ [r]) ls = Ret (Value rs)"
    by auto
  with Cons.IH show ?case by simp
qed simp

lemma replay_lines_valid:
  "(\<And>r. r \<in> set rs \<Longrightarrow> wal_valid r) \<Longrightarrow> replay_lines acc (map wal_line rs) = Ret (Value (acc @ rs))"
  by (induction rs arbitrary: acc) (auto simp: replay_wal_line)

definition wal_text :: "wal_record list \<Rightarrow> string" where
  "wal_text rs = concat (map (\<lambda>r. wal_line r @ [newline]) rs)"

lemma replay_wal_text:
  assumes "\<And>r. r \<in> set rs \<Longrightarrow> wal_valid r"
  shows "replay_lines [] (getlines (wal_text rs @ rest)) = replay_lines rs (getlines rest)"
proof -
  have "getlines (wal_text rs @ rest) = map wal_line rs @ getlines rest"
    using wal.file_lines [of rs rest] assms by (simp add: wal_text_def)
  then show ?thesis using replay_lines_append [OF replay_lines_valid [of rs "[]"]] assms by simp
qed

text \<open>A list of appends that the operating system carries out in full.\<close>

fun wal_append_all :: "wal \<Rightarrow> wal_record list \<Rightarrow> unit result list \<times> wal" where
  "wal_append_all w [] = ([], w)"
| "wal_append_all w (r # rs) = (let (res, w1) = wal_append None w r; (ress, w2) = wal_append_all w1 rs in (res # ress, w2))"

lemma wal_append_all_ok:
  "wal_good w \<Longrightarrow> wal_opened w \<Longrightarrow> wal_file w = Some s \<Longrightarrow>
   wal_append_all w rs = (replicate (length rs) (Value ()), w\<lparr>wal_file := Some (s @ wal_text rs)\<rparr>)"
proof (induction rs arbitrary: w s)
  case (Cons r rs)
  then show ?case
    using Cons.IH [of "w\<lparr>wal_file := Some (s @ wal_line r @ [newline])\<rparr>"]
    by (simp add: wal_append_def wal_text_def)
qed (simp add: wal_text_def)

section \<open>Torn records\<close>

lemma split_on_take:
  "\<exists>n q. split_on c (take i s) = take n (split_on c s) @ [q] \<and> n < length (split_on c s) \<and>
     (\<exists>j. q = take j (split_on c s ! n))"
proof (induction s arbitrary: i)
  case Nil
  then show ?case by (intro exI [of _ 0] exI [of _ "[]"]) simp
next
  case (Cons x s)
  show ?case
  proof (cases i)
    case 0
    then show ?thesis
      by (intro exI [of _ 0] exI [of _ "[]"]) (auto split: list.splits)
  next
    case (Suc i')
    from Cons.IH [of i'] obtain n q j where
      n: "split_on c (take i' s) = take n (split_on c s) @ [q]" "n < length (split_on c s)" "q = take j (split_on c s ! n)"
      by blast
    show ?thesis
    proof (cases "x = c")
      case True
      with n show ?thesis
        by (intro exI [of _ "Suc n"] exI [of _ q]) (auto simp: Suc)
    next
      case False
      obtain p ps where ps: "split_on c s = p # ps"
        using split_on_nonempty [of c s] by (cases "split_on c s") auto
      show ?thesis
      proof (cases n)
        case 0
        with n False ps show ?thesis
          by (intro exI [of _ 0] exI [of _ "x # q"] conjI exI [of _ "Suc j"]) (auto simp: Suc)
      next
        case (Suc n')
        with n False ps \<open>i = Suc i'\<close> show ?thesis
          by (intro exI [of _ n] exI [of _ q]) auto
      qed
    qed
  qed
qed

text \<open>A proper prefix of a record's line is rejected.\<close>

lemma replay_torn_line:
  assumes "wal_valid r" "i < length (wal_line r)"
  shows "\<exists>m. replay_line (take i (wal_line r)) = Ret (Error (Internal m))"
proof -
  let ?ps = "[to_string_int (rec_type r), rec_key r, rec_payload r, Sha256_hex_string (wal_body r)]"
  let ?l = "take i (wal_line r)"
  from split_on_take [of tab i "wal_line r"] obtain n q j where
    n: "split_on tab ?l = take n ?ps @ [q]" "n < 4" "q = take j (?ps ! n)"
    unfolding split_wal_line [OF assms(1)] by auto
  show ?thesis
  proof (cases "n = 3")
    case True
    have "q \<noteq> Sha256_hex_string (wal_body r)"
    proof
      assume "q = Sha256_hex_string (wal_body r)"
      with n(1) True have "split_on tab ?l = split_on tab (wal_line r)" by (simp add: split_wal_line [OF assms(1)])
      then have "?l = wal_line r" by (metis join_split)
      then have "length ?l = length (wal_line r)" by simp
      then show False using assms(2) by simp
    qed
    then show ?thesis
      using n(1) True by (auto simp: replay_line_def wal_body_def)
  next
    case False
    then have "length (split_on tab ?l) \<noteq> 4" using n(1,2) by simp
    then show ?thesis by (auto simp: replay_line_def)
  qed
qed

lemma wal_line_nonempty [simp]: "wal_line r \<noteq> []"
  by (simp add: wal_line_def)

lemma replay_lines_error: "replay_line l = Ret (Error s) \<Longrightarrow> replay_lines acc (l # ls) = Ret (Error s)"
  by simp

lemma replay_after_crash:
  assumes "\<And>r. r \<in> set old \<Longrightarrow> wal_valid r" "wal_valid r" "0 < n" "n < length (wal_line r)"
  shows "\<exists>m. replay_lines [] (getlines (wal_text old @ take n (wal_line r))) = Ret (Error (Internal m))"
proof -
  have "newline \<notin> set (take n (wal_line r))"
    using wal_line_one_line [OF assms(2)] by (auto dest: in_set_takeD)
  then have "getlines (take n (wal_line r)) = [take n (wal_line r)]"
    using assms(3) by (intro getlines_last) simp_all
  then show ?thesis
    using replay_torn_line [OF assms(2,4)] replay_wal_text [OF assms(1)] by auto
qed

lemma replay_lines_sound:
  "replay_lines acc ls = Ret (Value rs) \<Longrightarrow>
   \<exists>new. rs = acc @ new \<and> list_all2 (\<lambda>l r. replay_line l = Ret (Value r)) ls new"
proof (induction ls arbitrary: acc)
  case (Cons l ls)
  then obtain r where r: "replay_line l = Ret (Value r)" "replay_lines (acc @ [r]) ls = Ret (Value rs)"
    by auto
  from Cons.IH [OF r(2)] r(1) show ?case by auto
qed simp

section \<open>Properties\<close>

text \<open>
  C19: a log opened on a file of well-formed records and then appended to gives back, at the
  next replay, exactly the old records followed by the new ones, in order, and every append
  succeeds. (Well-formed: no tab and no newline in key and payload, a type number that is a
  non-negative \<^verbatim>\<open>int\<close>.)
\<close>

theorem wal_replay_after_appends:
  assumes "\<forall>r \<in> set old. wal_valid r" and "\<forall>r \<in> set new. wal_valid r"
  shows "\<exists>w. wal_append_all (snd (wal_open True True (wal_new (Some (wal_text old))))) new
      = (replicate (length new) (Value ()), w) \<and> wal_replay w = Ret (Value (old @ new))"
proof -
  let ?w = "snd (wal_open True True (wal_new (Some (wal_text old))))"
  have "wal_append_all ?w new = (replicate (length new) (Value ()), ?w\<lparr>wal_file := Some (wal_text old @ wal_text new)\<rparr>)"
    by (rule wal_append_all_ok) (simp_all add: wal_open_def wal_new_def)
  moreover have "wal_text old @ wal_text new = wal_text (old @ new) @ []"
    by (simp add: wal_text_def)
  ultimately show ?thesis
    using replay_wal_text [of "old @ new" "[]"] assms by (auto simp: wal_replay_def)
qed

theorem wal_replay_after_appends_witness:
  "\<exists>w. wal_append_all (snd (wal_open True True (wal_new (Some (wal_text
        [\<lparr>rec_type = kPutObject, rec_key = ''b/k'', rec_payload = ''checksum''\<rparr>])))))
        [\<lparr>rec_type = kDeleteObject, rec_key = ''b/k'', rec_payload = ''delete''\<rparr>]
      = (replicate (length [\<lparr>rec_type = kDeleteObject, rec_key = ''b/k'', rec_payload = ''delete''\<rparr>]) (Value ()), w) \<and>
     wal_replay w = Ret (Value ([\<lparr>rec_type = kPutObject, rec_key = ''b/k'', rec_payload = ''checksum''\<rparr>] @
        [\<lparr>rec_type = kDeleteObject, rec_key = ''b/k'', rec_payload = ''delete''\<rparr>]))"
  by (rule wal_replay_after_appends) (simp_all add: wal_valid_def kPutObject_def kDeleteObject_def tab_def newline_def)

text \<open>
  a crash or a failed write during an append, whatever number of characters reached the
  file, has one of three outcomes at the next start: nothing reached the file and the old
  records replay; a proper part of the line did and the replay of the whole log is refused
  with an internal error; or all of the line did and the record counts as written.
\<close>

theorem wal_torn_append:
  assumes "\<forall>r \<in> set old. wal_valid r" and "wal_valid r"
    and "wal_good w" and "wal_opened w" and "wal_file w = Some (wal_text old)"
  shows "case wal_append (Some n) w r of (res, w') \<Rightarrow>
    res = Error (Internal ''failed to append wal record'') \<and>
    (if n = 0 then wal_replay (wal_new (wal_file w')) = Ret (Value old)
     else if n < length (wal_line r) then \<exists>m. wal_replay (wal_new (wal_file w')) = Ret (Error (Internal m))
     else wal_replay (wal_new (wal_file w')) = Ret (Value (old @ [r])))"
proof -
  have f: "wal_append (Some n) w r = (Error (Internal ''failed to append wal record''),
      w\<lparr>wal_file := Some (wal_text old @ take n (wal_line r @ [newline])), wal_good := False\<rparr>)"
    using assms(3-5) by (simp add: wal_append_def)
  have v: "\<And>r. r \<in> set old \<Longrightarrow> wal_valid r" using assms(1) by blast
  consider "n = 0" | "0 < n" "n < length (wal_line r)" | "length (wal_line r) \<le> n" by linarith
  then show ?thesis
  proof cases
    case 1
    then show ?thesis using f replay_wal_text [OF v, of old "[]"] by (simp add: wal_replay_def wal_new_def)
  next
    case 2
    then show ?thesis
      using replay_after_crash [OF v assms(2) 2] by (simp add: f wal_replay_def wal_new_def)
  next
    case 3
    then have "0 < n" by (metis gr0I le_zero_eq length_0_conv wal_line_nonempty)
    have "getlines (take n (wal_line r @ [newline])) = [wal_line r]"
      using 3 wal_line_one_line [OF assms(2)] getlines_line [of "wal_line r" "[]"] getlines_last [of "wal_line r"]
      by (cases "n - length (wal_line r)") auto
    then show ?thesis
      using 3 \<open>0 < n\<close> replay_wal_text [OF v] replay_wal_line [OF assms(2)] by (simp add: f wal_replay_def wal_new_def)
  qed
qed

theorem wal_torn_append_witness:
  "case wal_append (Some 3) \<lparr>wal_file = Some (wal_text []), wal_opened = True, wal_good = True\<rparr>
      \<lparr>rec_type = kPutObject, rec_key = ''b/k'', rec_payload = ''x''\<rparr> of (res, w') \<Rightarrow>
    res = Error (Internal ''failed to append wal record'') \<and>
    (if (3::nat) = 0 then wal_replay (wal_new (wal_file w')) = Ret (Value [])
     else if 3 < length (wal_line \<lparr>rec_type = kPutObject, rec_key = ''b/k'', rec_payload = ''x''\<rparr>)
       then \<exists>m. wal_replay (wal_new (wal_file w')) = Ret (Error (Internal m))
     else wal_replay (wal_new (wal_file w')) = Ret (Value ([] @ [\<lparr>rec_type = kPutObject, rec_key = ''b/k'', rec_payload = ''x''\<rparr>])))"
  by (rule wal_torn_append) (simp_all add: wal_valid_def kPutObject_def tab_def newline_def)

text \<open>
  whatever the file holds, a replay that succeeds has checked every line: the records
  returned correspond one to one, in order, to the lines of the file, and each line carries
  the SHA-256 of its first three fields as its fourth.
\<close>

theorem wal_replay_checks_every_line:
  assumes "wal_replay (wal_new (Some s)) = Ret (Value rs)"
  shows "list_all2 (\<lambda>l r. \<exists>t. stoi t = Ret (rec_type r) \<and>
      l = t @ [tab] @ rec_key r @ [tab] @ rec_payload r @ [tab] @
        Sha256_hex_string (t @ [tab] @ rec_key r @ [tab] @ rec_payload r)) (getlines s) rs"
proof -
  have "list_all2 (\<lambda>l r. replay_line l = Ret (Value r)) (getlines s) rs"
    using assms replay_lines_sound [of "[]" "getlines s" rs] by (simp add: wal_replay_def wal_new_def)
  then show ?thesis
    by (rule list_all2_mono) (metis replay_line_sound)
qed

theorem wal_replay_checks_every_line_witness:
  "list_all2 (\<lambda>l r. \<exists>t. stoi t = Ret (rec_type r) \<and>
      l = t @ [tab] @ rec_key r @ [tab] @ rec_payload r @ [tab] @
        Sha256_hex_string (t @ [tab] @ rec_key r @ [tab] @ rec_payload r))
     (getlines (wal_text [\<lparr>rec_type = kPutObject, rec_key = ''b/k'', rec_payload = ''x''\<rparr>]))
     [\<lparr>rec_type = kPutObject, rec_key = ''b/k'', rec_payload = ''x''\<rparr>]"
proof (rule wal_replay_checks_every_line)
  show "wal_replay (wal_new (Some (wal_text [\<lparr>rec_type = kPutObject, rec_key = ''b/k'', rec_payload = ''x''\<rparr>]))) =
      Ret (Value [\<lparr>rec_type = kPutObject, rec_key = ''b/k'', rec_payload = ''x''\<rparr>])"
    using replay_wal_text [of "[\<lparr>rec_type = kPutObject, rec_key = ''b/k'', rec_payload = ''x''\<rparr>]" "[]"]
    by (simp add: wal_replay_def wal_new_def wal_valid_def kPutObject_def tab_def newline_def)
qed

text \<open>
  a record whose key contains a tab is accepted by the log and from then on makes every
  replay of the log fail, whatever is appended later: the fields are not escaped.
\<close>

theorem wal_tab_in_key_poisons_log:
  assumes "\<forall>r \<in> set old. wal_valid r" and "tab \<in> set (rec_key r)"
    and "newline \<notin> set (rec_key r)" and "newline \<notin> set (rec_payload r)" and "0 \<le> rec_type r"
    and "wal_good w" and "wal_opened w" and "wal_file w = Some (wal_text old)"
  shows "case wal_append None w r of (res, w') \<Rightarrow> res = Value () \<and>
    (\<forall>later. wal_replay (w'\<lparr>wal_file := map_option (\<lambda>s. s @ later) (wal_file w')\<rparr>) =
       Ret (Error (Internal ''corrupt wal record'')))"
proof -
  have "count_list (rec_key r) tab \<noteq> 0" using assms(2) by (simp add: count_list_0_iff)
  then have "length (split_on tab (wal_line r)) \<noteq> 4"
    by (simp add: length_split_on wal_line_def wal_body_def)
  then have e: "replay_line (wal_line r) = Ret (Error (Internal ''corrupt wal record''))"
    by (simp add: replay_line_def)
  have "newline \<notin> set (wal_line r)"
    using assms(3,4) type_no_sep [OF assms(5)] hash_no_sep by (auto simp: wal_line_def wal_body_def)
  then have "replay_lines [] (getlines (wal_text old @ wal_line r @ newline # later)) =
      Ret (Error (Internal ''corrupt wal record''))" for later
    using replay_wal_text [of old] assms(1) e by simp
  then show ?thesis
    using assms(6-8) by (simp add: wal_append_def wal_replay_def)
qed

theorem wal_tab_in_key_poisons_log_witness:
  "case wal_append None \<lparr>wal_file = Some (wal_text []), wal_opened = True, wal_good = True\<rparr>
      \<lparr>rec_type = kPutObject, rec_key = [tab], rec_payload = ''x''\<rparr> of (res, w') \<Rightarrow> res = Value () \<and>
    (\<forall>later. wal_replay (w'\<lparr>wal_file := map_option (\<lambda>s. s @ later) (wal_file w')\<rparr>) =
       Ret (Error (Internal ''corrupt wal record'')))"
  by (rule wal_tab_in_key_poisons_log) (simp_all add: kPutObject_def newline_def tab_def)

end
