(* ===== verification/Server.thy ===== *)
theory Server
  imports Workers Config Auth_Manager Metrics_Counters Wal_Log
begin

text \<open>
  \<^verbatim>\<open>server/main.cpp\<close>: the start-up of a node and its request handlers.

  The state of a running node (\<open>server\<close>) extends the metadata and the chunk service with the
  token table, the counters and the write-ahead log. What does not change while it runs, with
  the parameters for everything outside the process, is its \<open>server_env\<close>. A handler is an action
  on the state; handlers run one at a time here.
\<close>

section \<open>State\<close>

record ('db, 'w) server = "('db, 'w) node" +
  sv_auth :: auth
  sv_metrics :: metrics
  sv_wal :: wal

text \<open>\<open>e_log\<close> says how much of a log record reaches the disk, as for \<open>wal_append\<close>.\<close>

record ('db, 'w) server_env =
  e_sql :: "'db sqlite"
  e_out :: "'w outside"
  e_log :: "'w \<Rightarrow> nat option \<times> 'w"
  e_service :: service_config
  e_chunk_size :: u64
  e_peers :: "(string \<times> string) list"
  e_host :: string
  e_port :: int

section \<open>Helpers\<close>

definition bearer :: "HttpRequest \<Rightarrow> string" where
  "bearer req =
     (case map_of (headers req) ''authorization'' of
        None \<Rightarrow> []
      | Some v \<Rightarrow> if take 7 v = ''Bearer '' then drop 7 v else [])"

definition status_response :: "Status_Result.status \<Rightarrow> HttpResponse" where
  "status_response st =
     (let c0 = (500 :: int);
          c1 = (if code st = kInvalidArgument then 400 else c0);
          c2 = (if code st = kUnauthenticated then 401 else c1);
          c3 = (if code st = kPermissionDenied then 403 else c2);
          c4 = (if code st = kNotFound then 404 else c3);
          c5 = (if code st = kConflict then 409 else c4)
      in \<lparr>status = c5, content_type = ''application/json'',
          resp_body = string_bytes (''{'' @ quoted ''error'' @ '':'' @ quoted (message st) @ ''}'' @ [newline])\<rparr>)"

definition object_path :: "string \<Rightarrow> (string \<times> string) outcome" where
  "object_path p =
     (if length p < length ''/v1/objects/'' then Throw out_of_range
      else let rest = drop (length ''/v1/objects/'') p
        in case find_char CHR ''/'' rest of
             None \<Rightarrow> Ret ([], [])
           | Some slash \<Rightarrow> Ret (take slash rest, drop (Suc slash) rest))"

text \<open>\<^verbatim>\<open>req.path.substr(prefix.size())\<close>.\<close>

definition path_after :: "string \<Rightarrow> string \<Rightarrow> string outcome" where
  "path_after pre p = (if length p < length pre then Throw out_of_range else Ret (drop (length pre) p))"

text \<open>An outcome without a state, the early return on an error, and the check of the token.\<close>

definition lift_outcome :: "'a outcome \<Rightarrow> ('a, 's) act" where
  "lift_outcome r s = Some (r, s)"

definition or_respond :: "('a result, 's) act \<Rightarrow> ('a \<Rightarrow> (HttpResponse, 's) act) \<Rightarrow> (HttpResponse, 's) act" where
  "or_respond m k = abind m (\<lambda>r. case r of Error st \<Rightarrow> areturn (status_response st) | Value x \<Rightarrow> k x)"

definition guarded :: "permission \<Rightarrow> HttpRequest \<Rightarrow> (HttpResponse, ('db, 'w) server) act \<Rightarrow> (HttpResponse, ('db, 'w) server) act" where
  "guarded perm req k s =
     (case authorize (sv_auth s) (bearer req) perm of
        Error st \<Rightarrow> areturn (status_response st) s
      | Value _ \<Rightarrow> k s)"

definition log_record :: "('db, 'w) server_env \<Rightarrow> wal_record \<Rightarrow> (unit result, ('db, 'w) server) act" where
  "log_record env rec s =
     (let (io, w) = e_log env (world (svc s)); (r, l) = wal_append io (sv_wal s) rec
      in Some (Ret r, s\<lparr>sv_wal := l, svc := (svc s)\<lparr>world := w\<rparr>\<rparr>))"

definition count_event :: "(metrics \<Rightarrow> metrics) \<Rightarrow> (unit, ('db, 'w) server) act" where
  "count_event f s = Some (Ret (), s\<lparr>sv_metrics := f (sv_metrics s)\<rparr>)"

definition json_ok :: HttpResponse where
  "json_ok = \<lparr>status = 200, content_type = ''application/json'', resp_body = string_bytes (''{'' @ quoted ''ok'' @ '':true}'' @ [newline])\<rparr>"

definition json_count :: "string \<Rightarrow> int \<Rightarrow> HttpResponse" where
  "json_count name n = \<lparr>status = 200, content_type = ''application/json'',
     resp_body = string_bytes (''{'' @ quoted name @ '':'' @ to_string_int n @ ''}'' @ [newline])\<rparr>"

definition no_content :: HttpResponse where
  "no_content = \<lparr>status = 204, content_type = ''application/json'', resp_body = []\<rparr>"

definition octets :: "bytes \<Rightarrow> HttpResponse" where
  "octets bs = \<lparr>status = 200, content_type = ''application/octet-stream'', resp_body = bs\<rparr>"

section \<open>Objects\<close>

fun put_parts :: "('db, 'w) server_env \<Rightarrow> bytes list \<Rightarrow> chunk_ref list \<Rightarrow> (chunk_ref list result, ('db, 'w) server) act" where
  "put_parts env [] refs = areturn (Value refs)"
| "put_parts env (part # parts) refs =
     abind (on_chunks (put (e_service env) (e_out env) part)) (\<lambda>r. case r of
         Error st \<Rightarrow> areturn (Error st)
       | Value ref \<Rightarrow> put_parts env parts (refs @ [ref]))"

definition put_reply :: "string \<Rightarrow> string \<Rightarrow> string \<Rightarrow> nat \<Rightarrow> HttpResponse" where
  "put_reply bucket key checksum n = \<lparr>status = 201, content_type = ''application/json'',
     resp_body = string_bytes (''{'' @ quoted ''bucket'' @ '':'' @ quoted bucket @ '','' @ quoted ''key'' @ '':'' @ quoted key @ '','' @
       quoted ''checksum'' @ '':'' @ quoted checksum @ '','' @ quoted ''chunks'' @ '':'' @ to_string n @ ''}'' @ [newline])\<rparr>"

definition split_body :: "('db, 'w) server_env \<Rightarrow> bytes \<Rightarrow> (bytes list, ('db, 'w) server) act" where
  "split_body env bs s = map_option (\<lambda>r. (r, s)) (chunk_bytes bs (e_chunk_size env))"

definition handle_put_object :: "('db, 'w) server_env \<Rightarrow> ('db, 'w) server handler" where
  "handle_put_object env req = guarded kWrite req
     (abind (lift_outcome (object_path (path req))) (\<lambda>(bucket, key).
       if bucket = [] \<or> key = [] then areturn (status_response (Invalid ''expected /v1/objects/{bucket}/{key}''))
       else or_respond (log_record env \<lparr>rec_type = kPutObject, rec_key = bucket @ ''/'' @ key, rec_payload = Sha256_hex (body req)\<rparr>) (\<lambda>_.
         abind (split_body env (body req)) (\<lambda>parts.
           or_respond (put_parts env parts []) (\<lambda>refs.
             let meta = \<lparr>md_bucket = bucket, md_key = key, md_size = of_nat (length (body req)), md_checksum = Sha256_hex (body req), md_chunks = refs\<rparr>
             in or_respond (on_meta (put_object (e_sql env) meta)) (\<lambda>_.
                  abind (count_event (record_upload (of_nat (length (body req))))) (\<lambda>_.
                    areturn (put_reply bucket key (md_checksum meta) (length refs)))))))))"

definition plan_size :: "('db, 'w) server_env \<Rightarrow> string \<Rightarrow> (int, ('db, 'w) server) act" where
  "plan_size env checksum s =
     map_option (\<lambda>plan. (Ret (int (length (targets plan))), s))
       (read_plan (o_hash (e_out env)) (o_iter (e_out env)) (members (svc s)) checksum (replication_factor (e_service env)) (read_quorum (e_service env)))"

fun fetch_parts :: "('db, 'w) server_env \<Rightarrow> chunk_ref list \<Rightarrow> bytes \<Rightarrow> (bytes result, ('db, 'w) server) act" where
  "fetch_parts env [] acc = areturn (Value acc)"
| "fetch_parts env (ref # refs) acc =
     abind (plan_size env (ref_checksum ref)) (\<lambda>n.
       if n < min (read_quorum (e_service env)) (replication_factor (e_service env))
       then areturn (Error (Unavailable ''insufficient healthy replicas for quorum read''))
       else abind (on_chunks (get (e_service env) (e_out env) (ref_checksum ref))) (\<lambda>data. case data of
           Error st \<Rightarrow> areturn (Error st)
         | Value bs \<Rightarrow> fetch_parts env refs (acc @ bs)))"

definition handle_get_object :: "('db, 'w) server_env \<Rightarrow> ('db, 'w) server handler" where
  "handle_get_object env req = guarded kRead req
     (abind (lift_outcome (object_path (path req))) (\<lambda>(bucket, key).
       or_respond (on_meta (get_object (e_sql env) bucket key)) (\<lambda>meta.
         or_respond (fetch_parts env (md_chunks meta) []) (\<lambda>out.
           if Sha256_hex out \<noteq> md_checksum meta then areturn (status_response (Internal ''object checksum mismatch''))
           else abind (count_event (record_download (of_nat (length out)))) (\<lambda>_. areturn (octets out))))))"

text \<open>Each chunk is released with the number of references left; the result is not looked at.\<close>

fun release_chunks :: "('db, 'w) server_env \<Rightarrow> chunk_ref list \<Rightarrow> (unit, ('db, 'w) server) act" where
  "release_chunks env [] = areturn ()"
| "release_chunks env (ref # refs) =
     abind (on_meta (\<lambda>d. apfst Ret (chunk_ref_count (e_sql env) (ref_checksum ref) d))) (\<lambda>n. case n of
         Error _ \<Rightarrow> release_chunks env refs
       | Value k \<Rightarrow> abind (on_chunks (remove (e_service env) (e_out env) (ref_checksum ref) k)) (\<lambda>_. release_chunks env refs))"

definition handle_delete_object :: "('db, 'w) server_env \<Rightarrow> ('db, 'w) server handler" where
  "handle_delete_object env req = guarded kDelete req
     (abind (lift_outcome (object_path (path req))) (\<lambda>(bucket, key).
       or_respond (on_meta (get_object (e_sql env) bucket key)) (\<lambda>meta.
         or_respond (log_record env \<lparr>rec_type = kDeleteObject, rec_key = bucket @ ''/'' @ key, rec_payload = ''delete''\<rparr>) (\<lambda>_.
           or_respond (on_meta (\<lambda>d. apfst Ret (delete_object (e_sql env) bucket key d))) (\<lambda>_.
             abind (release_chunks env (md_chunks meta)) (\<lambda>_.
               abind (count_event record_delete) (\<lambda>_. areturn no_content)))))))"

definition metadata_reply :: "object_metadata \<Rightarrow> HttpResponse" where
  "metadata_reply m = \<lparr>status = 200, content_type = ''application/json'',
     resp_body = string_bytes (''{'' @ quoted ''bucket'' @ '':'' @ quoted (md_bucket m) @ '','' @ quoted ''key'' @ '':'' @ quoted (md_key m) @ '','' @
       quoted ''size'' @ '':'' @ to_string (unat (md_size m)) @ '','' @ quoted ''checksum'' @ '':'' @ quoted (md_checksum m) @ '','' @
       quoted ''chunks'' @ '':'' @ to_string (length (md_chunks m)) @ ''}'' @ [newline])\<rparr>"

definition handle_metadata :: "('db, 'w) server_env \<Rightarrow> ('db, 'w) server handler" where
  "handle_metadata env req = guarded kRead req
     (abind (lift_outcome (obind (path_after ''/v1/metadata/'' (path req)) (\<lambda>rest. object_path (''/v1/objects/'' @ rest)))) (\<lambda>(bucket, key).
       or_respond (on_meta (get_object (e_sql env) bucket key)) (\<lambda>meta. areturn (metadata_reply meta))))"

section \<open>Nodes and chunks\<close>

definition handle_heartbeat :: "('db, 'w) server_env \<Rightarrow> ('db, 'w) server handler" where
  "handle_heartbeat env req = guarded kAdmin req
     (let node = bytes_string (body req);
          addr = (case map_of (e_peers env) node of None \<Rightarrow> ''remote'' | Some a \<Rightarrow> a)
      in abind (on_chunks (\<lambda>s. Some (Ret (), beat (e_out env) \<lparr>node_id = node, address = addr, healthy = True\<rparr> s))) (\<lambda>_. areturn json_ok))"

definition handle_put_chunk :: "('db, 'w) server_env \<Rightarrow> ('db, 'w) server handler" where
  "handle_put_chunk env req = guarded kAdmin req
     (abind (lift_outcome (path_after ''/v1/chunks/'' (path req))) (\<lambda>checksum.
       or_respond (on_chunks (\<lambda>s. Some (local_put (e_out env) (body req) s))) (\<lambda>ref.
         if ref_checksum ref \<noteq> checksum then areturn (status_response (Invalid ''chunk checksum mismatch''))
         else areturn (json_ok\<lparr>status := 201\<rparr>))))"

definition handle_get_chunk :: "('db, 'w) server_env \<Rightarrow> ('db, 'w) server handler" where
  "handle_get_chunk env req = guarded kAdmin req
     (abind (lift_outcome (path_after ''/v1/chunks/'' (path req))) (\<lambda>checksum.
       or_respond (on_chunks (\<lambda>s. Some (local_get checksum s))) (\<lambda>data. areturn (octets data))))"

definition handle_delete_chunk :: "('db, 'w) server_env \<Rightarrow> ('db, 'w) server handler" where
  "handle_delete_chunk env req = guarded kAdmin req
     (abind (lift_outcome (path_after ''/v1/chunks/'' (path req))) (\<lambda>checksum.
       or_respond (on_chunks (\<lambda>s. Some (local_remove (e_out env) checksum s))) (\<lambda>_. areturn no_content)))"

section \<open>Administration\<close>

definition handle_metrics :: "('db, 'w) server handler" where
  "handle_metrics req s = areturn \<lparr>status = 200, content_type = ''text/plain'', resp_body = string_bytes (prometheus (sv_metrics s))\<rparr> s"

definition handle_healthz :: "('db, 'w) server_env \<Rightarrow> ('db, 'w) server handler" where
  "handle_healthz env req = areturn \<lparr>status = 200, content_type = ''application/json'',
     resp_body = string_bytes (''{'' @ quoted ''ok'' @ '':true,'' @ quoted ''node'' @ '':'' @ quoted (node_id (self (e_service env))) @ ''}'' @ [newline])\<rparr>"

definition handle_repair :: "('db, 'w) server_env \<Rightarrow> ('db, 'w) server handler" where
  "handle_repair env req = guarded kAdmin req
     (abind (lift_outcome (path_after ''/v1/admin/repair/'' (path req))) (\<lambda>bucket.
       or_respond (repair_bucket (e_sql env) (e_service env) (e_out env) bucket) (\<lambda>n. areturn (json_count ''repaired'' n))))"

definition handle_rebalance :: "('db, 'w) server_env \<Rightarrow> ('db, 'w) server handler" where
  "handle_rebalance env req = guarded kAdmin req
     (abind (lift_outcome (path_after ''/v1/admin/rebalance/'' (path req))) (\<lambda>bucket.
       or_respond (rebalance_bucket (e_sql env) (e_service env) (e_out env) bucket) (\<lambda>n. areturn (json_count ''rebalanced'' n))))"

definition handle_replay :: "('db, 'w) server_env \<Rightarrow> ('db, 'w) server handler" where
  "handle_replay env req = guarded kAdmin req
     (or_respond (on_chunks (\<lambda>s. Some (replay_hinted_handoff (e_service env) (e_out env) s))) (\<lambda>n. areturn (json_count ''delivered'' n)))"

definition routes :: "('db, 'w) server_env \<Rightarrow> (string \<times> string \<times> ('db, 'w) server handler) list" where
  "routes env =
     [(''PUT'', ''/v1/objects/'', handle_put_object env),
      (''GET'', ''/v1/objects/'', handle_get_object env),
      (''DELETE'', ''/v1/objects/'', handle_delete_object env),
      (''GET'', ''/v1/metadata/'', handle_metadata env),
      (''POST'', ''/v1/heartbeat'', handle_heartbeat env),
      (''PUT'', ''/v1/chunks/'', handle_put_chunk env),
      (''GET'', ''/v1/chunks/'', handle_get_chunk env),
      (''DELETE'', ''/v1/chunks/'', handle_delete_chunk env),
      (''GET'', ''/metrics'', handle_metrics),
      (''GET'', ''/healthz'', handle_healthz env),
      (''POST'', ''/v1/admin/repair/'', handle_repair env),
      (''POST'', ''/v1/admin/rebalance/'', handle_rebalance env),
      (''POST'', ''/v1/admin/handoff/replay'', handle_replay env)]"

section \<open>Start-up\<close>

text \<open>What the process finds: its text files, the chunk files, the database, the world outside, and
  the operating system's answers to the directories and the log it opens.\<close>

record ('db, 'w) host =
  h_text :: "string \<Rightarrow> string option"
  h_chunks :: "string \<rightharpoonup> bytes"
  h_db :: 'db
  h_world :: 'w
  h_mkdir_db :: bool
  h_mkdir_chunks :: bool
  h_mkdir_wal :: bool
  h_open_wal :: bool

datatype 'a started = Exit int | Running 'a

fun config_path :: "string \<Rightarrow> string list \<Rightarrow> string" where
  "config_path p (a # b # rest) = config_path (if a = ''--config'' then b else p) (b # rest)"
| "config_path p _ = p"

definition self_node :: "config \<Rightarrow> storage_node" where
  "self_node cfg = \<lparr>node_id = cfg_node_id cfg, address = cfg_node_id cfg @ '':'' @ to_string_int (listen_port cfg), healthy = True\<rparr>"

definition start_env :: "'db sqlite \<Rightarrow> 'w outside \<Rightarrow> ('w \<Rightarrow> nat option \<times> 'w) \<Rightarrow> config \<Rightarrow> ('db, 'w) server_env" where
  "start_env sq out io cfg =
     (let ps = map parse_node (peers cfg)
      in \<lparr>e_sql = sq, e_out = out, e_log = io,
          e_service = \<lparr>self = self_node cfg, replication_factor = cfg_replication_factor cfg, write_quorum = cfg_write_quorum cfg,
                       read_quorum = cfg_read_quorum cfg, has_handoff = True, seed_members = ps, client_token = admin_token cfg\<rparr>,
          e_chunk_size = chunk_size cfg,
          e_peers = fold (\<lambda>p. AList.update (node_id p) (address p)) ps [],
          e_host = listen_host cfg, e_port = listen_port cfg\<rparr>)"

definition start_service :: "'w outside \<Rightarrow> config \<Rightarrow> ('db, 'w) host \<Rightarrow> 'w service" where
  "start_service out cfg h =
     fold (beat out) (map parse_node (peers cfg)) (beat out (self_node cfg)
       \<lparr>local = chunk_store_new (path_join (data_dir cfg) ''chunks'') (64 * 1024 * 1024) (h_chunks h), members = [],
        handoff = h_text h (handoff_path cfg), world = h_world h\<rparr>)"

definition boot :: "'db sqlite \<Rightarrow> 'w outside \<Rightarrow> ('w \<Rightarrow> nat option \<times> 'w) \<Rightarrow> ('db, 'w) host \<Rightarrow> string list \<Rightarrow>
    (('db, 'w) server_env \<times> ('db, 'w) server) started outcome" where
  "boot sq out io h args =
     (let p = config_path ''config/dev.toml'' args
      in obind (load_config p (h_text h p)) (\<lambda>loaded. case loaded of
          Error _ \<Rightarrow> Ret (Exit 1)
        | Value cfg \<Rightarrow>
            (case metadata_open sq (h_mkdir_db h) (metadata_db cfg) (h_db h) of
               (opened, db) \<Rightarrow> obind opened (\<lambda>r. case r of
                   Error _ \<Rightarrow> Ret (Exit 1)
                 | Value _ \<Rightarrow>
                     if \<not> h_mkdir_chunks h then Throw filesystem_error
                     else (case wal_open (h_mkdir_wal h) (h_open_wal h) (wal_new (h_text h (wal_path cfg))) of
                       (wopened, w) \<Rightarrow> obind wopened (\<lambda>r. case r of
                           Error _ \<Rightarrow> Ret (Exit 1)
                         | Value _ \<Rightarrow> obind (wal_replay w) (\<lambda>r. case r of
                             Error _ \<Rightarrow> Ret (Exit 1)
                           | Value _ \<Rightarrow> Ret (Running (start_env sq out io cfg,
                               \<lparr>meta = db, svc = start_service out cfg h, sv_auth = add_token auth_new (admin_token cfg) {kAdmin},
                                sv_metrics = metrics_new, sv_wal = w\<rparr>)))))))))"

end
