(* ===== verification/Server_Answers.thy ===== *)
theory Server_Answers
  imports Server Machine
begin

text \<open>
  What holds of a running server whatever requests arrive: tokens are checked before anything
  changes, every request is answered, and the log it has written can always be replayed.
\<close>

section \<open>Tidy services\<close>

text \<open>Names without white space keep the handoff file readable.\<close>

definition tidy_node :: "storage_node \<Rightarrow> bool" where
  "tidy_node n \<longleftrightarrow> plain_word (node_id n) \<and> plain_word (address n)"

definition tidy_members :: "cluster \<Rightarrow> bool" where
  "tidy_members c \<longleftrightarrow> (\<forall>(_, m) \<in> set c. tidy_node (ns_node m))"

definition queue_ok :: "queue \<Rightarrow> bool" where
  "queue_ok q \<longleftrightarrow> q = None \<or> (\<exists>hs. q = Some (queue_text hs) \<and> (\<forall>h \<in> set hs. plain_hint h \<and> address_ok (target_address h)))"

definition service_tidy :: "'w service \<Rightarrow> bool" where
  "service_tidy s \<longleftrightarrow> service_ok s \<and> tidy_members (members s) \<and> queue_ok (handoff s)"

definition tidy_config :: "service_config \<Rightarrow> 'w outside \<Rightarrow> bool" where
  "tidy_config cfg out \<longleftrightarrow> config_ok cfg out \<and> calm_disk out \<and> has_handoff cfg \<and> tidy_node (self cfg) \<and> (\<forall>n \<in> set (seed_members cfg). tidy_node n)"

lemma tidy_heartbeat: "tidy_members c \<Longrightarrow> tidy_node n \<Longrightarrow> tidy_members (heartbeat moved now n c)"
  using set_heartbeat [of moved now n c] by (auto simp: tidy_members_def)

lemma beat_tidy: "service_tidy s \<Longrightarrow> node_ok n \<Longrightarrow> tidy_node n \<Longrightarrow> service_tidy (beat out n s)"
  by (simp add: service_tidy_def beat_ok beat_members tidy_heartbeat)

lemma beats_tidy: "service_tidy s \<Longrightarrow> \<forall>n \<in> set ns. node_ok n \<and> tidy_node n \<Longrightarrow> service_tidy (fold (beat out) ns s)"
  by (induction ns arbitrary: s) (simp_all add: beat_tidy)

lemma refresh_tidy: "tidy_config cfg out \<Longrightarrow> service_tidy s \<Longrightarrow> service_tidy (refresh_seed_members cfg out s)"
  unfolding refresh_seed_members_def by (rule beats_tidy) (auto simp: tidy_config_def config_ok_def intro: beat_tidy)

lemma plan_tidy:
  assumes "iteration_order iter" "members_ok c" "tidy_members c" "plan_targets hash64 iter c key n = Some ts"
  shows "\<forall>t \<in> set ts. node_ok t \<and> tidy_node t"
proof -
  have "members_healthy c" using assms(2) by (auto simp: members_ok_def members_healthy_def node_ok_def)
  with assms(1) have u: "case (iter, c) of (iter, c) \<Rightarrow> iteration_order iter \<and> members_healthy c" by simp
  have "set ts \<subseteq> (\<lambda>(_, s). ns_node s) ` set c" using placement.plan_members [OF u, of hash64 key n ts] assms(4) by simp
  then show ?thesis using assms(2,3) by (auto simp: members_ok_def tidy_members_def)
qed

lemma enqueue_all_ok:
  assumes "queue_ok q" "\<forall>n \<in> set ns. node_ok n \<and> tidy_node n" "plain_word (ref_checksum ref)"
  shows "queue_ok (enqueue_all q (map (\<lambda>n. (n, ref)) ns))"
proof -
  have new: "\<forall>h \<in> set (map (\<lambda>n. hint_of n ref) ns). plain_hint h \<and> address_ok (target_address h)"
    using assms(2,3) by (auto simp: plain_hint_def hint_of_def tidy_node_def node_ok_def)
  have none: "enqueue_all None (t # ts) = enqueue_all (Some (queue_text [])) (t # ts)" for t ts
    by (simp add: enqueue_all_def enqueue_def calm_def queue_text_def split: prod.splits)
  have queued: "queue_ok (enqueue_all (Some (queue_text hs)) (map (\<lambda>n. (n, ref)) ns))"
    if "\<forall>h \<in> set hs. plain_hint h \<and> address_ok (target_address h)" for hs
    using new that unfolding queue_ok_def
    by (intro disjI2 exI [of _ "hs @ map (\<lambda>n. hint_of n ref) ns"]) (auto simp: enqueue_all_text comp_def)
  show ?thesis
  proof (cases q)
    case None
    then show ?thesis using none queued [of "[]"] by (cases ns) (simp_all add: enqueue_all_def [of _ "[]"] queue_ok_def [of None])
  next
    case (Some t)
    then obtain hs where "t = queue_text hs" "\<forall>h \<in> set hs. plain_hint h \<and> address_ok (target_address h)"
      using assms(1) by (auto simp: queue_ok_def)
    then show ?thesis using Some queued by simp
  qed
qed

lemma hex_not_space: "is_hex c \<Longrightarrow> \<not> isspace c"
  by (auto simp: is_hex_def isspace_def)

lemma hex_plain: "plain_word (Sha256_hex bs)"
proof -
  have "Sha256_hex bs \<noteq> []" using length_Sha256_hex [of bs] by (metis list.size(3) zero_neq_numeral)
  then show ?thesis using Sha256_hex_is_hex [of _ bs] hex_not_space by (auto simp: plain_word_def)
qed

lemma put_tidy:
  assumes "tidy_config cfg out" "service_tidy s"
  shows "\<exists>r s'. put cfg out bs s = Some (Ret r, s') \<and> service_tidy s'"
proof -
  have c: "config_ok cfg out" "calm_disk out" "has_handoff cfg" using assms(1) by (simp_all add: tidy_config_def)
  have s: "service_ok s" "queue_ok (handoff s)" using assms(2) by (simp_all add: service_tidy_def)
  let ?ref = "\<lparr>ref_checksum = Sha256_hex bs, ref_size = of_nat (length bs)\<rparr>" and ?m = "members (refresh_seed_members cfg out s)"
  obtain ts acked failed s1 r s' where p: "put cfg out bs s = Some (Ret r, s')"
    "plan_targets (o_hash out) (o_iter out) ?m (Sha256_hex bs) (replication_factor cfg) = Some ts"
    "stored cfg out ?ref bs ts s1 acked failed s'" "service_ok s'" "handoff s1 = handoff s" "members s1 = ?m"
    using put_outcome [OF c(1) s(1) c(2), of bs] by blast
  have m: "tidy_members ?m" "members_ok ?m" using refresh_tidy [OF assms] by (simp_all add: service_tidy_def service_ok_def)
  have "set failed \<subseteq> set ts" using p(3) unfolding stored_def others_def by (metis mset_subset_eq_add_right set_mset_mono set_mset_mset filter_is_subset subset_trans)
  then have "\<forall>n \<in> set failed. node_ok n \<and> tidy_node n"
    using plan_tidy [OF _ m(2,1) p(2)] c(1) by (auto simp: config_ok_def)
  with s(2) have "queue_ok (handoff s')" using p(3,5) c(3) hex_plain enqueue_all_ok [of "handoff s" failed ?ref] by (simp add: stored_def)
  then show ?thesis using p m(1) by (auto simp: service_tidy_def stored_def)
qed

lemma get_tidy:
  assumes "tidy_config cfg out" "service_tidy s"
  shows "\<exists>r s'. get cfg out checksum s = Some (Ret r, s') \<and> service_tidy s'"
  using get_outcome [of cfg out s checksum] assms refresh_tidy [OF assms] by (auto simp: service_tidy_def tidy_config_def)

lemma remove_tidy:
  assumes "tidy_config cfg out" "service_tidy s"
  shows "\<exists>r s'. remove cfg out checksum n s = Some (Ret r, s') \<and> service_tidy s'"
  using remove_outcome [of cfg out s checksum n] assms refresh_tidy [OF assms] by (auto simp: service_tidy_def tidy_config_def)

lemma replay_tidy:
  assumes "tidy_config cfg out" "service_tidy s"
  shows "\<exists>r s'. replay_hinted_handoff cfg out s = (Ret r, s') \<and> service_tidy s'"
proof -
  obtain hs where hs: "load (handoff s) = Value hs" "\<forall>h \<in> set hs. plain_hint h \<and> address_ok (target_address h)"
    using assms(2) load_queue_text unfolding service_tidy_def queue_ok_def by (auto simp: load_def)
  obtain kept sent s' where r: "replay_hinted_handoff cfg out s = (Ret (Value (int (length sent))), s')" "mset kept + mset sent = mset hs"
    "handoff s' = Some (queue_text kept)" "service_ok s'" "members s' = members s"
    using replay_outcome [of s out cfg hs] assms hs by (auto simp: service_tidy_def tidy_config_def)
  have "set kept \<subseteq> set hs" using r(2) by (metis mset_subset_eq_add_left set_mset_mono set_mset_mset)
  then show ?thesis using r assms(2) hs(2) by (auto simp: service_tidy_def queue_ok_def)
qed

section \<open>The log\<close>

text \<open>A log that was opened, has not failed, replays, and ends with a complete line.\<close>

definition log_ok :: "wal \<Rightarrow> bool" where
  "log_ok w \<longleftrightarrow> wal_good w \<and> wal_opened w \<and>
     (\<exists>t rs. wal_file w = Some t \<and> (t = [] \<or> last t = newline) \<and> replay_lines [] (getlines t) = Ret (Value rs))"

lemma log_ok_append:
  assumes "log_ok w" "wal_valid r"
  shows "\<exists>w'. wal_append None w r = (Value (), w') \<and> log_ok w'"
proof -
  obtain t rs where t: "wal_file w = Some t" "t = [] \<or> last t = newline" "replay_lines [] (getlines t) = Ret (Value rs)"
    using assms(1) by (auto simp: log_ok_def)
  have "getlines (t @ wal_line r @ [newline]) = getlines t @ [wal_line r]"
  proof (cases "t = []")
    case False
    then obtain u where "t = u @ [newline]" using t(2) by (metis append_butlast_last_id)
    then show ?thesis using getlines_sep [of u "wal_line r @ [newline]"] getlines_sep [of u "[]"] wal_line_one_line [OF assms(2)] by simp
  qed (use wal_line_one_line [OF assms(2)] in simp)
  then have "replay_lines [] (getlines (t @ wal_line r @ [newline])) = Ret (Value (rs @ [r]))"
    using replay_lines_append [OF t(3), of "[wal_line r]"] replay_wal_line [OF assms(2)] by simp
  then show ?thesis using assms(1) t(1) by (simp add: wal_append_def log_ok_def)
qed

lemma log_ok_replays: "log_ok w \<Longrightarrow> \<exists>rs. wal_replay w = Ret (Value rs)"
  by (auto simp: log_ok_def wal_replay_def)

section \<open>The server's invariant\<close>

definition server_ok :: "('db, 'w) server \<Rightarrow> bool" where
  "server_ok s \<longleftrightarrow> service_tidy (svc s) \<and> log_ok (sv_wal s)"

definition env_ok :: "('db, 'w) server_env \<Rightarrow> bool" where
  "env_ok env \<longleftrightarrow> (\<exists>view tx. sqlite_laws (e_sql env) view tx) \<and> reads_complete (e_sql env) \<and> tidy_config (e_service env) (e_out env) \<and>
     (\<forall>w. fst (e_log env w) = None) \<and> (\<forall>a \<in> snd ` set (e_peers env). plain_word a \<and> address_ok a)"

lemma keeps_lift: "r = Ret x \<Longrightarrow> Q x \<Longrightarrow> keeps I (lift_outcome r) Q"
  by (simp add: keeps_def ends_def lift_outcome_def)

lemma keeps_respond:
  "keeps I m (\<lambda>r. case r of Value x \<Rightarrow> Q x | Error _ \<Rightarrow> True) \<Longrightarrow> (\<And>x. Q x \<Longrightarrow> keeps I (k x) (\<lambda>_. True)) \<Longrightarrow> keeps I (or_respond m k) (\<lambda>_. True)"
  unfolding or_respond_def by (erule keeps_bind) (auto intro: keeps_return split: result.splits)

lemma keeps_respond_any:
  "keeps I m (\<lambda>_. True) \<Longrightarrow> (\<And>x. keeps I (k x) (\<lambda>_. True)) \<Longrightarrow> keeps I (or_respond m k) (\<lambda>_. True)"
  unfolding or_respond_def by (erule keeps_bind) (auto intro: keeps_return split: result.splits)

lemma keeps_guarded: "keeps server_ok k (\<lambda>_. True) \<Longrightarrow> keeps server_ok (guarded perm req k) (\<lambda>_. True)"
  by (auto simp: keeps_def guarded_def ends_def areturn_def split: result.split)

lemma keeps_chunks:
  fixes f :: "('a, 'w service) act"
  assumes "\<And>s. service_tidy s \<Longrightarrow> \<exists>r s'. f s = Some (Ret r, s') \<and> service_tidy s'"
  shows "keeps (server_ok :: ('db, 'w) server \<Rightarrow> bool) (on_chunks f) (\<lambda>_. True)"
  unfolding keeps_def
proof (intro allI impI)
  fix s :: "('db, 'w) server" assume s: "server_ok s"
  then obtain r c where "f (svc s) = Some (Ret r, c)" "service_tidy c" using assms [of "svc s"] by (auto simp: server_ok_def)
  then show "ends (on_chunks f) s (\<lambda>x s'. server_ok s' \<and> True)" using s by (intro ends_on_chunks) (simp_all add: server_ok_def)
qed

lemma keeps_meta:
  fixes f :: "'db \<Rightarrow> 'a outcome \<times> 'db"
  assumes "\<And>d. \<exists>r d'. f d = (Ret r, d')"
  shows "keeps (server_ok :: ('db, 'w) server \<Rightarrow> bool) (on_meta f) (\<lambda>_. True)"
  unfolding keeps_def
proof (intro allI impI)
  fix s :: "('db, 'w) server" assume s: "server_ok s"
  obtain r d where "f (meta s) = (Ret r, d)" using assms by blast
  then show "ends (on_meta f) s (\<lambda>x s'. server_ok s' \<and> True)" using s by (intro ends_on_meta) (simp_all add: server_ok_def)
qed

lemma keeps_log:
  assumes "env_ok env" "wal_valid r"
  shows "keeps server_ok (log_record env r) (\<lambda>_. True)"
  unfolding keeps_def
proof (intro allI impI)
  fix s :: "('a, 'b) server" assume s: "server_ok s"
  have "fst (e_log env (world (svc s))) = None" using assms(1) by (simp add: env_ok_def)
  then obtain w where "e_log env (world (svc s)) = (None, w)" by (metis prod.collapse)
  moreover obtain w' where "wal_append None (sv_wal s) r = (Value (), w')" "log_ok w'"
    using log_ok_append assms(2) s by (auto simp: server_ok_def)
  ultimately show "ends (log_record env r) s (\<lambda>x s'. server_ok s' \<and> True)"
    using s by (simp add: ends_def log_record_def server_ok_def service_tidy_def service_ok_def)
qed

lemma keeps_count: "keeps server_ok (count_event f) (\<lambda>_. True)"
  by (simp add: keeps_def ends_def count_event_def server_ok_def)

section \<open>The handlers keep the invariant\<close>

lemma put_object_returns:
  assumes "length (md_chunks m) \<le> 2 ^ 31 - 1"
  shows "\<exists>r db'. put_object sq m db = (Ret r, db')"
proof -
  have "0 + int (length (md_chunks m)) \<le> 2 ^ 31 - 1" using assms by simp
  from insert_chunks_returns [OF this, of sq "md_bucket m" "md_key m"]
  have i: "fst (insert_chunks sq (md_bucket m) (md_key m) 0 (md_chunks m) d) \<noteq> Throw e"
    "fst (insert_chunks sq (md_bucket m) (md_key m) 0 (md_chunks m) d) \<noteq> Undefined" for d e
    by (metis fst_conv outcome.distinct(1), metis fst_conv outcome.distinct(3))
  show ?thesis unfolding put_object_def Let_def
    by (auto split: prod.split result.split option.split outcome.split simp: apfst_def map_prod_def) (metis fst_conv i)+
qed

lemma get_object_returns: "env_ok env \<Longrightarrow> \<exists>r db'. get_object (e_sql env) b k db = (Ret r, db')"
proof -
  assume "env_ok env"
  then obtain view tx where "sqlite_laws (e_sql env) view tx" "reads_complete (e_sql env)" by (auto simp: env_ok_def)
  from get_object_reads [OF this, of b k db] show ?thesis by blast
qed

lemma list_objects_returns: "env_ok env \<Longrightarrow> \<exists>r db'. list_objects (e_sql env) b db = (Ret r, db')"
proof -
  assume "env_ok env"
  then obtain view tx where "sqlite_laws (e_sql env) view tx" "reads_complete (e_sql env)" by (auto simp: env_ok_def)
  from list_objects_lists [OF this, of b db] show ?thesis by blast
qed

lemma env_tidy: "env_ok env \<Longrightarrow> tidy_config (e_service env) (e_out env)"
  by (simp add: env_ok_def)

lemma keeps_put_parts:
  "env_ok env \<Longrightarrow> keeps server_ok (put_parts env parts refs) (\<lambda>r. case r of Value rs \<Rightarrow> length rs = length refs + length parts | Error _ \<Rightarrow> True)"
proof (induction parts arbitrary: refs)
  case (Cons p parts)
  have "keeps server_ok (on_chunks (put (e_service env) (e_out env) p)) (\<lambda>_. True)"
    by (rule keeps_chunks) (rule put_tidy [OF env_tidy [OF Cons.prems]])
  then show ?case unfolding put_parts.simps
  proof (rule keeps_bind)
    fix r
    show "keeps server_ok (case r of Value ref \<Rightarrow> put_parts env parts (refs @ [ref]) | Error st \<Rightarrow> areturn (Error st))
        (\<lambda>r. case r of Value rs \<Rightarrow> length rs = length refs + length (p # parts) | Error _ \<Rightarrow> True)"
    proof (cases r)
      case (Value ref)
      have "keeps server_ok (put_parts env parts (refs @ [ref]))
          (\<lambda>r. case r of Value rs \<Rightarrow> length rs = length (refs @ [ref]) + length parts | Error _ \<Rightarrow> True)" by (rule Cons.IH [OF Cons.prems])
      then show ?thesis unfolding Value result.case by (rule keeps_mono) (simp split: result.splits)
    qed (simp add: keeps_return)
  qed
qed (simp add: keeps_return)

lemma split_parts:
  assumes "length bs < 2 ^ 31"
  shows "\<exists>parts. chunk_bytes bs n = Some (Ret parts) \<and> parts \<noteq> [] \<and> length parts \<le> 2 ^ 31 - 1 \<and> concat parts = bs"
proof -
  let ?parts = "if bs = [] then [[]] else chunks_of (effective_size n) bs"
  have "length (chunks_of n bs) \<le> length bs" if "0 < n" for n
    using that
  proof (induction n bs rule: chunks_of.induct)
    case (1 n xs)
    then show ?case by (cases "xs = []") (auto simp: chunks_of_step neq_Nil_conv Suc_le_eq intro: le_less_trans)
  qed
  from this [OF effective_size_pos, of n] have "length ?parts \<le> 2 ^ 31 - 1" using assms by auto
  moreover have c: "concat ?parts = bs" using concat_chunks_of [OF effective_size_pos, of n bs] by simp
  moreover have "?parts \<noteq> []" using c by auto
  moreover have "chunk_bytes bs n = Some (Ret ?parts)" by (rule chunk_bytes_eq) (use assms in simp)
  ultimately show ?thesis by blast
qed

lemma keeps_split_body:
  assumes "length bs < 2 ^ 31"
  shows "keeps server_ok (split_body env bs) (\<lambda>parts. length parts \<le> 2 ^ 31 - 1)"
  using split_parts [OF assms, of "e_chunk_size env"] by (auto simp: keeps_def ends_def split_body_def)

lemma keeps_plan:
  assumes "env_ok env"
  shows "keeps server_ok (plan_size env checksum) (\<lambda>_. True)"
  unfolding keeps_def
proof (intro allI impI)
  fix s :: "('a, 'b) server" assume s: "server_ok s"
  then have "members_ok (members (svc s))" by (simp add: server_ok_def service_tidy_def service_ok_def)
  moreover have "iteration_order (o_iter (e_out env))" using assms by (simp add: env_ok_def tidy_config_def config_ok_def)
  ultimately obtain ts where
    "\<And>q. write_plan (o_hash (e_out env)) (o_iter (e_out env)) (members (svc s)) checksum (replication_factor (e_service env)) q = Some \<lparr>targets = ts, quorum = q\<rparr>"
    using members_ok_plan by blast
  then show "ends (plan_size env checksum) s (\<lambda>x s'. server_ok s' \<and> True)"
    using s by (simp add: ends_def plan_size_def read_plan_def)
qed

lemma keeps_fetch_parts: "env_ok env \<Longrightarrow> keeps server_ok (fetch_parts env refs acc) (\<lambda>_. True)"
proof (induction refs arbitrary: acc)
  case (Cons ref refs)
  have g: "keeps server_ok (on_chunks (get (e_service env) (e_out env) (ref_checksum ref))) (\<lambda>_. True)"
    by (rule keeps_chunks) (rule get_tidy [OF env_tidy [OF Cons.prems]])
  have "keeps server_ok (case d of Error st \<Rightarrow> areturn (Error st) | Value bs \<Rightarrow> fetch_parts env refs (acc @ bs)) (\<lambda>_. True)" for d
    using Cons.IH [OF Cons.prems] by (cases d) (simp_all add: keeps_return)
  then show ?case unfolding fetch_parts.simps
    by (intro keeps_bind [OF keeps_plan [OF Cons.prems]]) (auto intro: keeps_return keeps_bind [OF g])
qed (simp add: keeps_return)

lemma keeps_release: "env_ok env \<Longrightarrow> keeps server_ok (release_chunks env refs) (\<lambda>_. True)"
proof (induction refs)
  case (Cons ref refs)
  have m: "keeps server_ok (on_meta (\<lambda>d. apfst Ret (chunk_ref_count (e_sql env) (ref_checksum ref) d))) (\<lambda>_. True)"
    by (rule keeps_meta) (metis apfst_conv surj_pair)
  have "keeps server_ok (on_chunks (remove (e_service env) (e_out env) (ref_checksum ref) k)) (\<lambda>_. True)" for k
    by (rule keeps_chunks) (rule remove_tidy [OF env_tidy [OF Cons.prems]])
  then have "keeps server_ok (case n of Error _ \<Rightarrow> release_chunks env refs
      | Value k \<Rightarrow> abind (on_chunks (remove (e_service env) (e_out env) (ref_checksum ref) k)) (\<lambda>_. release_chunks env refs)) (\<lambda>_. True)" for n
    using Cons by (cases n) (auto intro: keeps_bind)
  then show ?case unfolding release_chunks.simps by (intro keeps_bind [OF m])
qed (simp add: keeps_return)

lemma keeps_repair:
  assumes "env_ok env"
  shows "keeps server_ok (repair_bucket (e_sql env) (e_service env) (e_out env) bucket) (\<lambda>_. True)"
proof -
  have g: "keeps server_ok (on_chunks (get (e_service env) (e_out env) c)) (\<lambda>_. True)"
    and p: "keeps server_ok (on_chunks (put (e_service env) (e_out env) b)) (\<lambda>_. True)" for c b
    using get_tidy [OF env_tidy [OF assms]] put_tidy [OF env_tidy [OF assms]] by (intro keeps_chunks; blast)+
  have c: "keeps server_ok (repair_chunks (e_service env) (e_out env) cs n) (\<lambda>_. True)" for cs n
  proof (induction cs arbitrary: n)
    case (Cons c cs)
    then show ?case unfolding repair_chunks.simps
      by (intro keeps_bind [OF g]) (auto intro: keeps_bind [OF p] split: result.split)
  qed (simp add: keeps_return)
  have m: "keeps server_ok (on_meta (get_object (e_sql env) b k)) (\<lambda>_. True)"
    and l: "keeps server_ok (on_meta (list_objects (e_sql env) b)) (\<lambda>_. True)" for b k
    using get_object_returns [OF assms] list_objects_returns [OF assms] by (intro keeps_meta; blast)+
  have "keeps server_ok (repair_objects (e_sql env) (e_service env) (e_out env) xs n) (\<lambda>_. True)" for xs n
  proof (induction xs arbitrary: n)
    case (Cons x xs)
    then show ?case unfolding repair_objects.simps
      by (intro keeps_bind [OF m]) (auto intro: keeps_bind [OF c] split: result.split)
  qed (simp add: keeps_return)
  then show ?thesis unfolding repair_bucket_def
    by (intro keeps_bind [OF l]) (auto intro: keeps_bind keeps_return split: result.split)
qed

text \<open>What the theorems ask of a request: a body below two gigabytes, a path as the parser
  delivers it, and for a heartbeat the name of a node.\<close>

definition request_fine :: "HttpRequest \<Rightarrow> bool" where
  "request_fine req \<longleftrightarrow> length (body req) < 2 ^ 31 \<and> (\<forall>c \<in> set (path req). \<not> isspace c) \<and>
     (req_method req = ''POST'' \<and> take (length ''/v1/heartbeat'') (path req) = ''/v1/heartbeat'' \<longrightarrow> plain_word (bytes_string (body req)))"

lemma prefix_length: "take (length pre) p = pre \<Longrightarrow> \<not> length p < length pre"
  by (metis length_take min_less_iff_disj order_less_irrefl)

lemma object_path_parts:
  assumes "take (length ''/v1/objects/'') p = ''/v1/objects/''" "\<forall>c \<in> set p. \<not> isspace c"
  shows "\<exists>b k. object_path p = Ret (b, k) \<and> (\<forall>c \<in> set (b @ k). \<not> isspace c)"
proof -
  have len: "\<not> length p < length ''/v1/objects/''" by (rule prefix_length [OF assms(1)])
  define rest where "rest = drop (length ''/v1/objects/'') p"
  have "\<forall>c \<in> set rest. \<not> isspace c" using assms(2) by (auto simp: rest_def dest: in_set_dropD)
  moreover have "object_path p = (case find_char CHR ''/'' rest of None \<Rightarrow> Ret ([], []) | Some slash \<Rightarrow> Ret (take slash rest, drop (Suc slash) rest))"
    using len unfolding object_path_def Let_def rest_def by (simp only: if_False)
  ultimately show ?thesis by (auto dest: in_set_takeD in_set_dropD split: option.split)
qed

lemma object_record_valid:
  assumes "\<forall>c \<in> set (b @ k). \<not> isspace c" "0 \<le> t" "t < 2 ^ 31" "\<forall>c \<in> set p. \<not> isspace c"
  shows "wal_valid \<lparr>rec_type = t, rec_key = b @ ''/'' @ k, rec_payload = p\<rparr>"
proof -
  have "x \<notin> set b" "x \<notin> set k" "x \<notin> set p" if "isspace x" for x using that assms(1,4) by auto
  moreover have "tab \<noteq> CHR ''/''" "newline \<noteq> CHR ''/''" by (simp_all add: tab_def newline_def)
  ultimately show ?thesis using assms(2,3) by (simp add: wal_valid_def)
qed

lemma keeps_put_object:
  assumes "env_ok env" "request_fine req" "take (length ''/v1/objects/'') (path req) = ''/v1/objects/''"
  shows "keeps server_ok (handle_put_object env req) (\<lambda>_. True)"
proof -
  obtain b k where p: "object_path (path req) = Ret (b, k)" "\<forall>c \<in> set (b @ k). \<not> isspace c"
    using object_path_parts [OF assms(3)] assms(2) by (auto simp: request_fine_def)
  have v: "wal_valid \<lparr>rec_type = kPutObject, rec_key = b @ ''/'' @ k, rec_payload = Sha256_hex (body req)\<rparr>"
    by (rule object_record_valid [OF p(2)]) (use hex_plain [of "body req"] in \<open>simp_all add: kPutObject_def plain_word_def\<close>)
  have m: "keeps server_ok (on_meta (put_object (e_sql env) x)) (\<lambda>_. True)" if "length (md_chunks x) \<le> 2 ^ 31 - 1" for x
    by (rule keeps_meta) (rule put_object_returns [OF that])
  have stored: "keeps server_ok (or_respond (put_parts env parts []) (\<lambda>refs.
      let meta = \<lparr>md_bucket = b, md_key = k, md_size = of_nat (length (body req)), md_checksum = Sha256_hex (body req), md_chunks = refs\<rparr>
      in or_respond (on_meta (put_object (e_sql env) meta)) (\<lambda>_.
           abind (count_event (record_upload (of_nat (length (body req))))) (\<lambda>_.
             areturn (put_reply b k (md_checksum meta) (length refs)))))) (\<lambda>_. True)" if "length parts \<le> 2 ^ 31 - 1" for parts
    by (rule keeps_respond [OF keeps_put_parts [OF assms(1)]], unfold Let_def, rule keeps_respond_any [OF m])
      (use that in \<open>auto intro: keeps_return keeps_bind [OF keeps_count]\<close>)
  have "length (body req) < 2 ^ 31" using assms(2) by (simp add: request_fine_def)
  note logged = keeps_respond_any [OF keeps_log [OF assms(1) v]] and split = keeps_bind [OF keeps_split_body [OF this]]
  show ?thesis unfolding handle_put_object_def p(1)
    by (rule keeps_guarded, rule keeps_bind [OF keeps_lift [OF refl, where Q = "\<lambda>x. x = (b, k)"]], rule refl)
      (simp only: prod.case split: if_split, intro conjI impI keeps_return_any logged split stored)
qed

lemma keeps_lift_any: "r = Ret x \<Longrightarrow> keeps I (lift_outcome r) (\<lambda>y. y = x)"
  by (rule keeps_lift) simp_all

text \<open>Continuations after a lookup of the object, and after the rest of the path.\<close>

lemma keeps_found:
  assumes "env_ok env" "\<And>m. keeps server_ok (k m) (\<lambda>_. True)"
  shows "keeps server_ok (or_respond (on_meta (get_object (e_sql env) b key)) k) (\<lambda>_. True)"
  by (intro keeps_respond_any keeps_meta assms(2)) (rule get_object_returns [OF assms(1)])

lemma keeps_with_object:
  assumes "take (length ''/v1/objects/'') p = ''/v1/objects/''" "\<forall>c \<in> set p. \<not> isspace c"
    "\<And>b key. \<forall>c \<in> set (b @ key). \<not> isspace c \<Longrightarrow> keeps server_ok (k (b, key)) (\<lambda>_. True)"
  shows "keeps server_ok (abind (lift_outcome (object_path p)) k) (\<lambda>_. True)"
proof -
  obtain b key where p: "object_path p = Ret (b, key)" "\<forall>c \<in> set (b @ key). \<not> isspace c" using object_path_parts [OF assms(1,2)] by blast
  show ?thesis by (rule keeps_bind [OF keeps_lift_any [OF p(1)]]) (use assms(3) [OF p(2)] in blast)
qed

lemma keeps_after:
  assumes "take (length pre) p = pre" "\<And>x. keeps I (k x) (\<lambda>_. True)"
  shows "keeps I (abind (lift_outcome (path_after pre p)) k) (\<lambda>_. True)"
proof -
  have "\<not> length p < length pre" by (rule prefix_length [OF assms(1)])
  then have "path_after pre p = Ret (drop (length pre) p)" by (simp add: path_after_def)
  from keeps_bind [OF keeps_lift_any [OF this] assms(2)] show ?thesis .
qed

lemma keeps_get_object:
  assumes "env_ok env" "request_fine req" "take (length ''/v1/objects/'') (path req) = ''/v1/objects/''"
  shows "keeps server_ok (handle_get_object env req) (\<lambda>_. True)"
  unfolding handle_get_object_def
proof (rule keeps_guarded, rule keeps_with_object [OF assms(3)], goal_cases)
  case (2 b key)
  show ?case unfolding prod.case
    by (intro keeps_found [OF assms(1)] keeps_respond_any [OF keeps_fetch_parts [OF assms(1)]])
      (simp add: keeps_return_any keeps_bind [OF keeps_count keeps_return_any])
qed (use assms(2) in \<open>simp add: request_fine_def\<close>)

lemma keeps_delete_object:
  assumes "env_ok env" "request_fine req" "take (length ''/v1/objects/'') (path req) = ''/v1/objects/''"
  shows "keeps server_ok (handle_delete_object env req) (\<lambda>_. True)"
  unfolding handle_delete_object_def
proof (rule keeps_guarded, rule keeps_with_object [OF assms(3)], goal_cases)
  case (2 b key)
  have v: "wal_valid \<lparr>rec_type = kDeleteObject, rec_key = b @ ''/'' @ key, rec_payload = ''delete''\<rparr>"
    by (rule object_record_valid [OF 2]) (simp_all add: kDeleteObject_def isspace_def)
  have d: "keeps server_ok (on_meta (\<lambda>d. apfst Ret (delete_object (e_sql env) b key d))) (\<lambda>_. True)"
    by (rule keeps_meta) (metis apfst_conv surj_pair)
  show ?case unfolding prod.case
    by (intro keeps_found [OF assms(1)] keeps_respond_any [OF keeps_log [OF assms(1) v]] keeps_respond_any [OF d]
        keeps_bind [OF keeps_release [OF assms(1)]] keeps_bind [OF keeps_count] keeps_return_any)
qed (use assms(2) in \<open>simp add: request_fine_def\<close>)

lemma keeps_metadata:
  assumes "env_ok env" "take (length ''/v1/metadata/'') (path req) = ''/v1/metadata/''"
  shows "keeps server_ok (handle_metadata env req) (\<lambda>_. True)"
proof -
  have o: "\<exists>b k. object_path (''/v1/objects/'' @ rest) = Ret (b, k)" for rest by (simp add: object_path_def split: option.split)
  have "path_after ''/v1/metadata/'' (path req) = Ret (drop (length ''/v1/metadata/'') (path req))"
    using prefix_length [OF assms(2)] by (simp only: path_after_def if_False)
  then obtain b key where p: "obind (path_after ''/v1/metadata/'' (path req)) (\<lambda>rest. object_path (''/v1/objects/'' @ rest)) = Ret (b, key)"
    using o by (metis obind.simps(1))
  show ?thesis unfolding handle_metadata_def
    by (rule keeps_guarded, rule keeps_bind [OF keeps_lift_any [OF p]])
      (auto intro: keeps_found [OF assms(1)] keeps_return_any)
qed

lemma keeps_heartbeat:
  assumes "env_ok env" "plain_word (bytes_string (body req))"
  shows "keeps server_ok (handle_heartbeat env req) (\<lambda>_. True)"
proof -
  have "address_ok ''remote''" "plain_word ''remote''" by (simp_all add: address_ok_def split_address_def rfind_char_def plain_word_def isspace_def)
  moreover have "plain_word a \<and> address_ok a" if "map_of (e_peers env) n = Some a" for n a
    using assms(1) map_of_SomeD [OF that] by (force simp: env_ok_def)
  ultimately have n: "node_ok \<lparr>node_id = bytes_string (body req), address = addr, healthy = True\<rparr> \<and>
      tidy_node \<lparr>node_id = bytes_string (body req), address = addr, healthy = True\<rparr>"
    if "addr = (case map_of (e_peers env) (bytes_string (body req)) of None \<Rightarrow> ''remote'' | Some a \<Rightarrow> a)" for addr
    using that assms(2) by (auto simp: node_ok_def tidy_node_def split: option.splits)
  show ?thesis unfolding handle_heartbeat_def Let_def
    by (intro keeps_guarded keeps_bind [OF keeps_chunks] keeps_return_any) (use n beat_tidy in blast)
qed

lemma keeps_put_chunk:
  assumes "env_ok env" "take (length ''/v1/chunks/'') (path req) = ''/v1/chunks/''"
  shows "keeps server_ok (handle_put_chunk env req) (\<lambda>_. True)"
proof -
  have "\<exists>r s'. Some (local_put (e_out env) bs s) = Some (Ret r, s') \<and> service_tidy s'" if "service_tidy s" for bs s
    using local_put_calm [of "e_out env" s bs] that env_tidy [OF assms(1)]
    by (auto simp: service_tidy_def service_ok_def tidy_config_def)
  note p = keeps_respond_any [OF keeps_chunks [OF this]]
  show ?thesis unfolding handle_put_chunk_def
    by (rule keeps_guarded, rule keeps_after [OF assms(2)], rule p) (auto intro: keeps_return_any)
qed

lemma keeps_get_chunk:
  assumes "env_ok env" "take (length ''/v1/chunks/'') (path req) = ''/v1/chunks/''"
  shows "keeps server_ok (handle_get_chunk env req) (\<lambda>_. True)"
proof -
  have "\<exists>r s'. Some (local_get c s) = Some (Ret r, s') \<and> service_tidy s'" if "service_tidy s" for c and s :: "'b service"
    using local_get_inv [of s c] that by (auto simp: service_tidy_def service_ok_def)
  note p = keeps_respond_any [OF keeps_chunks [OF this]]
  show ?thesis unfolding handle_get_chunk_def
    by (rule keeps_guarded, rule keeps_after [OF assms(2)], rule p) (auto intro: keeps_return_any)
qed

lemma keeps_delete_chunk:
  assumes "take (length ''/v1/chunks/'') (path req) = ''/v1/chunks/''"
  shows "keeps server_ok (handle_delete_chunk env req) (\<lambda>_. True)"
proof -
  have "\<exists>r s'. Some (local_remove (e_out env) c s) = Some (Ret r, s') \<and> service_tidy s'" if "service_tidy s" for c s
    using remove_inv [of "local s"] that
    by (auto simp: local_remove_def service_tidy_def service_ok_def split: prod.splits) (metis snd_conv)
  note p = keeps_respond_any [OF keeps_chunks [OF this]]
  show ?thesis unfolding handle_delete_chunk_def
    by (rule keeps_guarded, rule keeps_after [OF assms], rule p) (auto intro: keeps_return_any)
qed

lemma keeps_admin:
  assumes "env_ok env" "take (length pre) (path req) = pre"
  shows "keeps server_ok (guarded kAdmin req (abind (lift_outcome (path_after pre (path req)))
    (\<lambda>bucket. or_respond (repair_bucket (e_sql env) (e_service env) (e_out env) bucket) (\<lambda>n. areturn (json_count name n))))) (\<lambda>_. True)"
  by (intro keeps_guarded keeps_after [OF assms(2)] keeps_respond_any [OF keeps_repair [OF assms(1)]] keeps_return_any)

lemma keeps_replay:
  assumes "env_ok env"
  shows "keeps server_ok (handle_replay env req) (\<lambda>_. True)"
proof -
  have "\<exists>r s'. Some (replay_hinted_handoff (e_service env) (e_out env) s) = Some (Ret r, s') \<and> service_tidy s'" if "service_tidy s" for s
    using replay_tidy [OF env_tidy [OF assms] that] by simp
  then show ?thesis unfolding handle_replay_def by (intro keeps_guarded keeps_respond_any keeps_return_any keeps_chunks)
qed

definition route_keeps :: "('s \<Rightarrow> bool) \<Rightarrow> HttpRequest \<Rightarrow> string \<times> string \<times> 's handler \<Rightarrow> bool" where
  "route_keeps I req r \<longleftrightarrow> (case r of (m, pre, h) \<Rightarrow>
     req_method req = m \<longrightarrow> take (length pre) (path req) = pre \<longrightarrow> keeps I (h req) (\<lambda>_. True))"

lemma keeps_dispatch_routes: "list_all (route_keeps I req) rs \<Longrightarrow> keeps I (dispatch rs req) (\<lambda>_. True)"
proof (induction rs)
  case Nil
  then show ?case by (simp add: keeps_def ends_def)
next
  case (Cons r rs)
  obtain m pre h where r: "r = (m, pre, h)" by (cases r)
  have "dispatch (r # rs) req = (if req_method req = m \<and> take (length pre) (path req) = pre then h req else dispatch rs req)"
    by (rule ext) (simp add: r)
  then show ?case using Cons by (auto simp: r route_keeps_def)
qed

lemma keeps_dispatch:
  assumes "env_ok env" "request_fine req"
  shows "keeps server_ok (dispatch (routes env) req) (\<lambda>_. True)"
proof (rule keeps_dispatch_routes)
  note obj = keeps_put_object [OF assms] keeps_get_object [OF assms] keeps_delete_object [OF assms] keeps_metadata [OF assms(1)]
  note chunk = keeps_put_chunk [OF assms(1)] keeps_get_chunk [OF assms(1)] keeps_delete_chunk
  have plain: "keeps server_ok (handle_metrics req) (\<lambda>_. True)" "keeps server_ok (handle_healthz env req) (\<lambda>_. True)"
    by (simp_all add: keeps_def ends_def handle_metrics_def handle_healthz_def areturn_def)
  have hb: "keeps server_ok (handle_heartbeat env req) (\<lambda>_. True)"
    if "req_method req = ''POST''" "take (length ''/v1/heartbeat'') (path req) = ''/v1/heartbeat''"
    using keeps_heartbeat [OF assms(1)] assms(2) that unfolding request_fine_def by blast
  note adm = keeps_admin [OF assms(1)]
  show "list_all (route_keeps server_ok req) (routes env)"
    unfolding routes_def list.pred_inject route_keeps_def prod.case handle_repair_def handle_rebalance_def rebalance_bucket_def
    by (intro conjI impI; (rule list.pred_inject(1) obj chunk plain keeps_replay [OF assms(1)] adm hb; assumption?))
qed

section \<open>Sequences of requests\<close>

definition server_step :: "('db, 'w) server_env \<Rightarrow> HttpRequest \<Rightarrow> ('db, 'w) server \<Rightarrow> ('db, 'w) server" where
  "server_step env req s = (case dispatch (routes env) req s of Some (_, s') \<Rightarrow> s' | None \<Rightarrow> s)"

lemma dispatch_answers:
  assumes "env_ok env" "request_fine req" "server_ok s"
  shows "\<exists>r. dispatch (routes env) req s = Some (Ret r, server_step env req s) \<and> server_ok (server_step env req s)"
proof -
  obtain r s' where "dispatch (routes env) req s = Some (Ret r, s')" "server_ok s'"
    using keeps_dispatch [OF assms(1,2)] assms(3) unfolding keeps_def ends_def by blast
  then show ?thesis by (simp add: server_step_def)
qed

interpretation server: machine "\<lambda>(env, req). server_step env req" "\<lambda>(env, req) _. env_ok env \<and> request_fine req" server_ok
proof (unfold_locales, goal_cases)
  case (1 s op)
  then show ?case using dispatch_answers [of "fst op" "snd op" s] by (simp add: case_prod_unfold)
qed

lemma server_run_ok:
  assumes "env_ok env" "server_ok s" "\<forall>req \<in> set reqs. request_fine req"
  shows "server_ok (fold (server_step env) reqs s)"
proof -
  have "server.permitted_run (map (Pair env) reqs) s" using assms(1,3) by (induction reqs arbitrary: s) simp_all
  from server.run_inv [OF assms(2) this] show ?thesis by (simp add: fold_map comp_def)
qed

section \<open>A server that has just started\<close>

lemma update_values: "snd ` set (AList.update k v xs) \<subseteq> insert v (snd ` set xs)"
  by (induction xs) auto

lemma peer_addresses_values: "snd ` set (fold (\<lambda>p. AList.update (node_id p) (address p)) ps xs) \<subseteq> address ` set ps \<union> snd ` set xs"
proof (induction ps arbitrary: xs)
  case (Cons p ps)
  from Cons [of "AList.update (node_id p) (address p) xs"] update_values [of "node_id p" "address p" xs] show ?case by auto
qed simp

definition config_tidy :: "config \<Rightarrow> bool" where
  "config_tidy cfg \<longleftrightarrow> plain_word (cfg_node_id cfg) \<and> 0 \<le> listen_port cfg \<and> listen_port cfg < 2 ^ 31 \<and>
     (\<forall>p \<in> set (peers cfg). tidy_node (parse_node p) \<and> address_ok (address (parse_node p)))"

lemma parse_node_healthy [simp]: "healthy (parse_node p)"
  by (simp add: parse_node_def split: option.split)

lemma config_nodes:
  assumes "config_tidy cfg"
  shows "node_ok (self_node cfg) \<and> tidy_node (self_node cfg)" "\<forall>n \<in> set (map parse_node (peers cfg)). node_ok n \<and> tidy_node n"
proof -
  have "to_string_int (listen_port cfg) = to_string (nat (listen_port cfg))" "nat (listen_port cfg) < 2 ^ 31"
    using assms by (auto simp: config_tidy_def to_string_int_def)
  then have "address_ok (address (self_node cfg))" using address_ok_host_port [of "nat (listen_port cfg)" "cfg_node_id cfg"] by (simp add: self_node_def)
  moreover have "plain_word (address (self_node cfg))"
    using assms to_string_no_space by (auto simp: self_node_def config_tidy_def plain_word_def to_string_int_def isspace_def [of "CHR '':''"])
  ultimately show "node_ok (self_node cfg) \<and> tidy_node (self_node cfg)"
    using assms by (simp add: node_ok_def tidy_node_def config_tidy_def) (simp add: self_node_def)
  show "\<forall>n \<in> set (map parse_node (peers cfg)). node_ok n \<and> tidy_node n" using assms by (simp add: node_ok_def config_tidy_def)
qed

lemma start_service_tidy:
  assumes "config_tidy cfg" "queue_ok (h_text h (handoff_path cfg))"
  shows "service_tidy (start_service out cfg h)"
  unfolding start_service_def
  by (intro beats_tidy beat_tidy config_nodes(2) [OF assms(1)])
    (use assms(2) config_nodes(1) [OF assms(1)] in \<open>simp_all add: service_tidy_def service_ok_def store_inv_new members_ok_def tidy_members_def\<close>)

lemma start_env_ok:
  assumes "config_tidy cfg" "sqlite_laws sq view tx" "reads_complete sq" "calm_disk out" "iteration_order (o_iter out)" "\<forall>w. fst (io w) = None"
  shows "env_ok (start_env sq out io cfg)"
proof -
  have "tidy_config (e_service (start_env sq out io cfg)) (e_out (start_env sq out io cfg))"
    using config_nodes [OF assms(1)] assms(4,5) by (auto simp: tidy_config_def config_ok_def start_env_def Let_def)
  moreover have "plain_word a \<and> address_ok a" if "a \<in> snd ` set (e_peers (start_env sq out io cfg))" for a
    using that peer_addresses_values [of "map parse_node (peers cfg)" "[]"] config_nodes(2) [OF assms(1)]
    by (force simp: start_env_def Let_def tidy_node_def node_ok_def)
  ultimately show ?thesis using assms(2,3,6) by (auto simp: env_ok_def) (auto simp: start_env_def Let_def)
qed

lemma boot_running:
  assumes "boot sq out io h args = Ret (Running (env, s))"
  shows "\<exists>p cfg db w. p = config_path ''config/dev.toml'' args \<and> load_config p (h_text h p) = Ret (Value cfg) \<and>
    wal_open (h_mkdir_wal h) (h_open_wal h) (wal_new (h_text h (wal_path cfg))) = (Ret (Value ()), w) \<and> (\<exists>rs. wal_replay w = Ret (Value rs)) \<and>
    env = start_env sq out io cfg \<and> s = \<lparr>meta = db, svc = start_service out cfg h, sv_auth = add_token auth_new (admin_token cfg) {kAdmin},
      sv_metrics = metrics_new, sv_wal = w\<rparr>"
proof -
  have ok: "(case r of Error _ \<Rightarrow> Ret (Exit 1) | Value x \<Rightarrow> f x) = Ret (Running y) \<longleftrightarrow> (\<exists>x. r = Value x \<and> f x = Ret (Running y))"
    for r :: "'x result" and f and y :: 'y by (cases r) auto
  from assms obtain cfg where l: "load_config (config_path ''config/dev.toml'' args) (h_text h (config_path ''config/dev.toml'' args)) = Ret (Value cfg)"
    and b: "(case metadata_open sq (h_mkdir_db h) (metadata_db cfg) (h_db h) of
        (opened, db) \<Rightarrow> obind opened (\<lambda>r. case r of
            Error _ \<Rightarrow> Ret (Exit 1)
          | Value _ \<Rightarrow> if \<not> h_mkdir_chunks h then Throw filesystem_error
              else (case wal_open (h_mkdir_wal h) (h_open_wal h) (wal_new (h_text h (wal_path cfg))) of
                (wopened, w) \<Rightarrow> obind wopened (\<lambda>r. case r of
                    Error _ \<Rightarrow> Ret (Exit 1)
                  | Value _ \<Rightarrow> obind (wal_replay w) (\<lambda>r. case r of
                      Error _ \<Rightarrow> Ret (Exit 1)
                    | Value _ \<Rightarrow> Ret (Running (start_env sq out io cfg,
                        \<lparr>meta = db, svc = start_service out cfg h, sv_auth = add_token auth_new (admin_token cfg) {kAdmin},
                         sv_metrics = metrics_new, sv_wal = w\<rparr>))))))) = Ret (Running (env, s))"
    unfolding boot_def Let_def by (auto simp: ok)
  obtain opened db where o: "metadata_open sq (h_mkdir_db h) (metadata_db cfg) (h_db h) = (opened, db)" by fastforce
  obtain wopened w where w: "wal_open (h_mkdir_wal h) (h_open_wal h) (wal_new (h_text h (wal_path cfg))) = (wopened, w)" by fastforce
  from b have "wopened = Ret (Value ()) \<and> (\<exists>rs. wal_replay w = Ret (Value rs)) \<and> env = start_env sq out io cfg \<and>
      s = \<lparr>meta = db, svc = start_service out cfg h, sv_auth = add_token auth_new (admin_token cfg) {kAdmin}, sv_metrics = metrics_new, sv_wal = w\<rparr>"
    unfolding o w prod.case by (auto simp: ok split: if_splits)
  with l w show ?thesis by blast
qed

lemma boot_ready:
  assumes "wal_open (h_mkdir_wal h) (h_open_wal h) (wal_new (h_text h (wal_path cfg))) = (Ret (Value ()), w) \<and> (\<exists>rs. wal_replay w = Ret (Value rs))"
    "config_tidy cfg" "queue_ok (h_text h (handoff_path cfg))" "\<forall>t. h_text h (wal_path cfg) = Some t \<longrightarrow> t = [] \<or> last t = newline"
    "sqlite_laws sq view tx" "reads_complete sq" "calm_disk out" "iteration_order (o_iter out)" "\<forall>w. fst (io w) = None"
  shows "env_ok (start_env sq out io cfg) \<and>
    server_ok \<lparr>meta = db, svc = start_service out cfg h, sv_auth = auth, sv_metrics = metrics_new, sv_wal = w\<rparr>"
proof
  from assms(1,4) have "log_ok w"
    by (auto simp: wal_open_def wal_new_def log_ok_def wal_replay_def split: if_splits option.splits)
  then show "server_ok \<lparr>meta = db, svc = start_service out cfg h, sv_auth = auth, sv_metrics = metrics_new, sv_wal = w\<rparr>"
    using start_service_tidy [OF assms(2,3)] by (simp add: server_ok_def)
  show "env_ok (start_env sq out io cfg)" by (rule start_env_ok [OF assms(2,5-9)])
qed

section \<open>Properties\<close>

definition sample_env :: "(table_db, unit) server_env" where
  "sample_env = \<lparr>e_sql = table_sqlite, e_out = lonely, e_log = Pair None, e_service = two_members, e_chunk_size = 2, e_peers = [(''b'', ''b'')],
     e_host = ''0.0.0.0'', e_port = 8080\<rparr>"

definition sample_server :: "(table_db, unit) server" where
  "sample_server = \<lparr>meta = empty_db, svc = fresh_service, sv_auth = add_token auth_new ''t'' {kAdmin}, sv_metrics = metrics_new,
     sv_wal = \<lparr>wal_file = Some [], wal_opened = True, wal_good = True\<rparr>\<rparr>"

lemma sample_env_ok: "env_ok sample_env"
  using sample_service_ok table_sqlite_laws table_sqlite_completes
  by (auto simp: env_ok_def sample_env_def tidy_config_def tidy_node_def two_members_def plain_word_def isspace_def address_ok_def split_address_def
      rfind_char_def)

lemma sample_server_ok: "server_ok sample_server"
  using sample_service_ok
  by (simp add: server_ok_def sample_server_def service_tidy_def fresh_service_def tidy_members_def queue_ok_def log_ok_def)

definition request_to :: "string \<Rightarrow> string \<Rightarrow> bytes \<Rightarrow> HttpRequest" where
  "request_to m p b = \<lparr>req_method = m, path = p, headers = [(''authorization'', ''Bearer t'')], body = b\<rparr>"


lemma sample_request_fine: "request_fine (request_to ''PUT'' ''/v1/objects/b/k'' [1, 2, 3])"
  by (simp add: request_fine_def request_to_def isspace_def)


text \<open>C22: A request without a known token changes nothing: it is answered with 401, or with 404 when
  there is no such route; only the metrics and the health page are served to it.\<close>

theorem unknown_token_refused:
  assumes "sv_auth s (bearer req) = None"
  shows "\<exists>r. dispatch (routes env) req s = Some (Ret r, s) \<and>
    (status r \<in> {401, 404} \<or>
     req_method req = ''GET'' \<and> status r = 200 \<and> (take (length ''/metrics'') (path req) = ''/metrics'' \<or> take (length ''/healthz'') (path req) = ''/healthz''))"
proof -
  have g: "guarded perm req k s = Some (Ret (status_response (Unauthenticated ''missing or invalid token'')), s)" for perm k
    using assms by (simp add: guarded_def authorize_def areturn_def)
  have "status (status_response (Unauthenticated ''missing or invalid token'')) = 401" by (simp add: status_response_def Let_def)
  then show ?thesis
    unfolding routes_def handle_put_object_def handle_get_object_def handle_delete_object_def handle_metadata_def handle_heartbeat_def
      handle_put_chunk_def handle_get_chunk_def handle_delete_chunk_def handle_repair_def handle_rebalance_def handle_replay_def
      handle_metrics_def handle_healthz_def dispatch.simps g areturn_def
    by (simp split: if_split)
qed

theorem unknown_token_refused_witness:
  "\<exists>r. dispatch (routes sample_env) ((request_to ''DELETE'' ''/v1/objects/b/k'' [])\<lparr>headers := []\<rparr>) sample_server = Some (Ret r, sample_server) \<and> status r \<in> {401, 404}"
  using unknown_token_refused [of sample_server "(request_to ''DELETE'' ''/v1/objects/b/k'' [])\<lparr>headers := []\<rparr>" sample_env]
  by (simp add: sample_server_def bearer_def request_to_def add_token_def auth_new_def)

text \<open>A node that starts is ready: when the start-up succeeds with a tidy configuration, a
  readable handoff queue and a log without a torn last line, only the administrator's token is
  known, and the invariants that the handlers rely on hold.\<close>

theorem started_server_ready:
  assumes "boot sq out io h args = Ret (Running (env, s))"
    "load_config (config_path ''config/dev.toml'' args) (h_text h (config_path ''config/dev.toml'' args)) = Ret (Value cfg)"
    "config_tidy cfg" "queue_ok (h_text h (handoff_path cfg))" "\<forall>t. h_text h (wal_path cfg) = Some t \<longrightarrow> t = [] \<or> last t = newline"
    "sqlite_laws sq view tx" "reads_complete sq" "calm_disk out" "iteration_order (o_iter out)" "\<forall>w. fst (io w) = None"
  shows "env_ok env \<and> server_ok s \<and> sv_auth s = [admin_token cfg \<mapsto> {kAdmin}]"
proof -
  from boot_running [OF assms(1)] assms(2) obtain db w where b:
    "wal_open (h_mkdir_wal h) (h_open_wal h) (wal_new (h_text h (wal_path cfg))) = (Ret (Value ()), w) \<and> (\<exists>rs. wal_replay w = Ret (Value rs))"
    "env = start_env sq out io cfg" "s = \<lparr>meta = db, svc = start_service out cfg h, sv_auth = add_token auth_new (admin_token cfg) {kAdmin},
      sv_metrics = metrics_new, sv_wal = w\<rparr>" by auto
  show ?thesis
    using boot_ready [OF b(1) assms(3-10), of db "sv_auth s"] by (simp add: b(2,3)) (simp add: add_token_def auth_new_def)
qed

text \<open>A host with the default configuration, no log and no queue yet, and a database.\<close>

definition host_with :: "tables \<Rightarrow> (table_db, unit) host" where
  "host_with ts = \<lparr>h_text = (\<lambda>p. if p = ''config/dev.toml'' then Some [] else None), h_chunks = Map.empty, h_db = (ts, None, 0), h_world = (),
     h_mkdir_db = True, h_mkdir_chunks = True, h_mkdir_wal = True, h_open_wal = True\<rparr>"

lemma sample_boot:
  "boot table_sqlite lonely (Pair None) (host_with ts) [] = Ret (Running (start_env table_sqlite lonely (Pair None) config_default,
     \<lparr>meta = (ts, None, 0), svc = start_service lonely config_default (host_with ts), sv_auth = add_token auth_new ''admin-token'' {kAdmin},
      sv_metrics = metrics_new, sv_wal = \<lparr>wal_file = Some [], wal_opened = True, wal_good = True\<rparr>\<rparr>))"
proof -
  have l: "load_config (config_path ''config/dev.toml'' []) (h_text (host_with ts) (config_path ''config/dev.toml'' [])) = Ret (Value config_default)"
    by (simp add: load_config_def host_with_def)
  have "sql_schema \<noteq> ''BEGIN IMMEDIATE;''" "sql_schema \<noteq> ''COMMIT;''" "sql_schema \<noteq> ''ROLLBACK;''" "c_str sql_schema = sql_schema"
    by (simp_all add: sql_schema_def)
  then have m: "metadata_open table_sqlite True p (ts, None, 0) = (Ret (Value ()), (ts, None, 0))" for p
    by (simp add: metadata_open_def table_sqlite_def sql_exec_def table_exec_def)
  have t: "h_text (host_with ts) (wal_path config_default) = None" "h_mkdir_db (host_with ts)" "h_mkdir_chunks (host_with ts)"
    "h_mkdir_wal (host_with ts)" "h_open_wal (host_with ts)" "h_db (host_with ts) = (ts, None, 0)" "admin_token config_default = ''admin-token''"
    by (simp_all add: host_with_def config_default_def)
  show ?thesis unfolding boot_def Let_def l obind.simps result.case using m t by (simp add: wal_open_def wal_new_def wal_replay_def)
qed

lemma sample_config:
  "load_config (config_path ''config/dev.toml'' []) (h_text (host_with ts) (config_path ''config/dev.toml'' [])) = Ret (Value config_default)"
  "config_tidy config_default" "queue_ok (h_text (host_with ts) (handoff_path config_default))"
  "\<forall>t. h_text (host_with ts) (wal_path config_default) = Some t \<longrightarrow> t = [] \<or> last t = newline"
  "calm_disk lonely" "iteration_order (o_iter lonely)"
  by (simp_all add: load_config_def host_with_def config_tidy_def config_default_def plain_word_def isspace_def queue_ok_def calm_disk_def
      lonely_def iteration_order_def)

theorem started_server_ready_witness:
  "\<exists>env s. boot table_sqlite lonely (Pair None) (host_with \<lparr>t_objects = [], t_chunks = []\<rparr>) [] = Ret (Running (env, s)) \<and> env_ok env \<and> server_ok s"
  using started_server_ready [OF sample_boot sample_config(1-4) table_sqlite_laws table_sqlite_completes(2) sample_config(5,6),
      of "\<lparr>t_objects = [], t_chunks = []\<rparr>"] sample_boot [of "\<lparr>t_objects = [], t_chunks = []\<rparr>"] by fastforce

text \<open>C40: Deleting a chunk by an absolute name removes the file of that name, wherever it is: the name
  replaces the root of the store when the two are joined.\<close>

theorem delete_chunk_escapes_root:
  assumes "sv_auth s (bearer req) = Some {kAdmin}" "req_method req = ''DELETE''" "path req = ''/v1/chunks/'' @ ''/'' @ f"
    "fst (o_remove (e_out env) (world (svc s))) = None"
  shows "\<exists>s'. dispatch (routes env) req s = Some (Ret no_content, s') \<and>
    cs_files (local (svc s')) = (cs_files (local (svc s)))(''/'' @ f := None)"
proof -
  have a: "guarded kAdmin req k s = k s" for k using assms(1) by (simp add: guarded_def authorize_def)
  have p: "path_for (cs_root (local (svc s))) (''/'' @ f) = ''/'' @ f" by (simp add: path_for_def path_join_def)
  obtain w where w: "o_remove (e_out env) (world (svc s)) = (None, w)" using assms(4) by (metis prod.collapse)
  have after: "path_after ''/v1/chunks/'' (path req) = Ret (''/'' @ f)" by (simp add: path_after_def assms(3))
  have "dispatch (routes env) req s = handle_delete_chunk env req s" using assms(2,3) by (simp add: routes_def)
  also have "\<dots> = Some (Ret no_content, s\<lparr>svc := (svc s)\<lparr>local := (local (svc s))\<lparr>cs_files := (cs_files (local (svc s)))(''/'' @ f := None)\<rparr>, world := w\<rparr>\<rparr>)"
    unfolding handle_delete_chunk_def a after
    by (simp add: lift_outcome_def abind_def or_respond_def on_chunks_def local_remove_def w remove_if_unreferenced_def p [simplified] areturn_def)
  finally show ?thesis by simp
qed

theorem delete_chunk_escapes_root_witness:
  "\<exists>s'. dispatch (routes sample_env) (request_to ''DELETE'' ''/v1/chunks//etc/passwd'' []) sample_server = Some (Ret no_content, s') \<and>
     cs_files (local (svc s')) ''/etc/passwd'' = None"
  using delete_chunk_escapes_root [of sample_server "request_to ''DELETE'' ''/v1/chunks//etc/passwd'' []" "''etc/passwd''" sample_env]
  by (auto simp: sample_server_def request_to_def bearer_def add_token_def auth_new_def sample_env_def lonely_def)

text \<open>The chunk upload between nodes stores the body before it compares its digest with the name in
  the path: a mismatch is answered with 400, and the chunk has been stored.\<close>

theorem rejected_chunk_is_stored:
  assumes "sv_auth s (bearer req) = Some {kAdmin}" "req_method req = ''PUT''" "path req = ''/v1/chunks/'' @ c" "c \<noteq> Sha256_hex (body req)"
    "calm_disk (e_out env)" "service_ok (svc s)"
  shows "\<exists>r s'. dispatch (routes env) req s = Some (Ret r, s') \<and> status r = 400 \<and>
    fst (chunk_get (local (svc s')) (Sha256_hex (body req))) = Ret (Value (body req))"
proof -
  have a: "guarded kAdmin req k s = k s" for k using assms(1) by (simp add: guarded_def authorize_def)
  have after: "path_after ''/v1/chunks/'' (path req) = Ret c" by (simp add: path_after_def assms(3))
  obtain l w where l: "local_put (e_out env) (body req) (svc s) =
      (Ret (Value \<lparr>ref_checksum = Sha256_hex (body req), ref_size = of_nat (length (body req))\<rparr>), (svc s)\<lparr>local := l, world := w\<rparr>)"
    "fst (chunk_get l (Sha256_hex (body req))) = Ret (Value (body req))"
    using local_put_calm [OF assms(5), of "svc s" "body req"] assms(6) by (auto simp: service_ok_def)
  have "dispatch (routes env) req s = handle_put_chunk env req s" using assms(2,3) by (simp add: routes_def)
  also have "\<dots> = Some (Ret (status_response (Invalid ''chunk checksum mismatch'')), s\<lparr>svc := (svc s)\<lparr>local := l, world := w\<rparr>\<rparr>)"
    unfolding handle_put_chunk_def a after
    using assms(4) by (simp add: lift_outcome_def abind_def or_respond_def on_chunks_def l(1) areturn_def)
  finally show ?thesis using l(2) by (simp add: status_response_def Let_def)
qed

theorem rejected_chunk_is_stored_witness:
  "\<exists>r s'. dispatch (routes sample_env) (request_to ''PUT'' ''/v1/chunks/ab'' [5]) sample_server = Some (Ret r, s') \<and> status r = 400 \<and>
     fst (chunk_get (local (svc s')) (Sha256_hex [5])) = Ret (Value [5])"
proof -
  have "length (Sha256_hex [5]) = 64" by (rule length_Sha256_hex)
  then have c: "''ab'' \<noteq> Sha256_hex [5]" by (auto dest: arg_cong [where f = length])
  show ?thesis
    using rejected_chunk_is_stored [of sample_server "request_to ''PUT'' ''/v1/chunks/ab'' [5]" "''ab''" sample_env] c sample_service_ok
    by (auto simp: sample_server_def request_to_def bearer_def add_token_def auth_new_def sample_env_def)
qed

end
