(* ===== verification/Held_Chunks.thy ===== *)
theory Held_Chunks
  imports Chunk_Store
begin

text \<open>
  What a chunk store promises to the layers above it: a chunk that was stored is held, other
  chunks do not disturb it, and reading returns it. The interface is a locale, with the chunk store
  on a working disk as its interpretation.
\<close>

section \<open>The interface\<close>

locale chunk_keeper =
  fixes store :: "'s \<Rightarrow> bytes \<Rightarrow> 's" and fetch :: "'s \<Rightarrow> string \<Rightarrow> bytes result outcome \<times> 's"
    and ok :: "'s \<Rightarrow> bool" and free :: "'s \<Rightarrow> bytes \<Rightarrow> bool" and held :: "'s \<Rightarrow> bytes \<Rightarrow> bool" and name :: "bytes \<Rightarrow> string"
  assumes store_ok: "ok s \<Longrightarrow> ok (store s b)"
    and store_held: "ok s \<Longrightarrow> free s b \<Longrightarrow> held (store s b) b"
    and store_other: "ok s \<Longrightarrow> name c \<noteq> name b \<Longrightarrow> held s b \<Longrightarrow> held (store s c) b"
    and store_other_free: "ok s \<Longrightarrow> name c \<noteq> name b \<Longrightarrow> free s b \<Longrightarrow> free (store s c) b"
    and held_free: "held s b \<Longrightarrow> free s b"
    and fetch_held: "ok s \<Longrightarrow> held s b \<Longrightarrow> fst (fetch s (name b)) = Ret (Value b)"
    and fetch_keeps: "ok s \<Longrightarrow> held s b \<Longrightarrow> held (snd (fetch s n)) b"
begin

lemma store_all:
  "ok s \<Longrightarrow> \<forall>p \<in> set ps. free s p \<Longrightarrow> \<forall>p \<in> D. held s p \<Longrightarrow> inj_on name (D \<union> set ps) \<Longrightarrow>
     ok (foldl store s ps) \<and> (\<forall>p \<in> D \<union> set ps. held (foldl store s ps) p)"
proof (induction ps arbitrary: s D)
  case (Cons p ps)
  have other: "name p \<noteq> name q" if "q \<in> D \<union> set ps" "q \<noteq> p" for q using Cons.prems(4) that by (auto simp: inj_on_def)
  have p: "held (store s p) p" using store_held Cons.prems(1,2) by simp
  have "\<forall>q \<in> insert p D. held (store s p) q" using p other store_other [OF Cons.prems(1)] Cons.prems(3) by blast
  moreover have "\<forall>q \<in> set ps. free (store s p) q"
    using held_free [OF p] other store_other_free [OF Cons.prems(1)] Cons.prems(2) by (metis UnI2 list.set_intros(2))
  ultimately show ?case using Cons.IH [of "store s p" "insert p D"] store_ok Cons.prems(1,4) by simp
qed simp

end

section \<open>Chunks that the store holds\<close>

text \<open>A store is free for a chunk when nothing else is kept under its digest; it holds the chunk
  when, besides, the file is there. Both speak of the file and of the cache in front of it.\<close>

definition cache_agrees :: "chunk_store \<Rightarrow> bytes \<Rightarrow> bool" where
  "cache_agrees l b \<longleftrightarrow> (\<forall>v. map_of (lru_abs (cs_cache l)) (Sha256_hex b) = Some v \<longrightarrow> v = b)"

definition free_for :: "chunk_store \<Rightarrow> bytes \<Rightarrow> bool" where
  "free_for l b \<longleftrightarrow> cache_agrees l b \<and> cs_files l (path_for (cs_root l) (Sha256_hex b)) \<in> {None, Some b}"

definition holds :: "chunk_store \<Rightarrow> bytes \<Rightarrow> bool" where
  "holds l b \<longleftrightarrow> cache_agrees l b \<and> cs_files l (path_for (cs_root l) (Sha256_hex b)) = Some b"

lemma holds_get: "store_inv l \<Longrightarrow> holds l b \<Longrightarrow> fst (chunk_get l (Sha256_hex b)) = Ret (Value b)"
  using chunk_get_cases [of l "Sha256_hex b"] by (auto simp: holds_def cache_agrees_def split: option.splits)

lemma lru_put_lookup:
  assumes "lru_inv c" "lru_put c k v = Ret c'" "map_of (lru_abs c') k' = Some v'"
  shows "(k', v') = (k, v) \<or> map_of (lru_abs c) k' = Some v'"
proof -
  obtain c1 where c1: "lru_put c k v = Ret c1" "lru_abs c1 = take (capacity c) ((k, v) # filter (\<lambda>p. fst p \<noteq> k) (lru_abs c))"
    using lru.put_law [OF assms(1), of k v] by blast
  have "(k', v') \<in> set (lru_abs c1)" using assms(2,3) c1(1) by (auto dest: map_of_SomeD)
  then have "(k', v') = (k, v) \<or> (k', v') \<in> set (lru_abs c)" unfolding c1(2) by (auto dest!: in_set_takeD)
  then show ?thesis using lru.keys_distinct [OF assms(1)] by auto
qed

lemma put_cached_agrees:
  assumes "store_inv l" "cache_agrees l b" "put_cached l c v r = (Ret r', l')" "c = Sha256_hex b \<Longrightarrow> v = b"
  shows "cache_agrees l' b"
proof -
  obtain c' where c': "lru_put (cs_cache l) c v = Ret c'" "cs_cache l' = c'"
    using assms(3) by (auto simp: put_cached_def split: outcome.splits)
  have "lru_inv (cs_cache l)" using assms(1) by (simp add: store_inv_def)
  from lru_put_lookup [OF this c'(1), of "Sha256_hex b"] assms(2,4) show ?thesis by (auto simp: cache_agrees_def c'(2))
qed

lemma cache_agrees_files [simp]: "cache_agrees (l\<lparr>cs_files := f\<rparr>) b = cache_agrees l b"
  by (simp add: cache_agrees_def)

lemma chunk_put_agrees:
  assumes "store_inv l" "cache_agrees l b" "fst (chunk_put env l v) = Ret (Value ref)" "Sha256_hex v = Sha256_hex b \<Longrightarrow> v = b"
  shows "cache_agrees (snd (chunk_put env l v)) b"
proof -
  have "cache_agrees l' b" if "put_cached (l\<lparr>cs_files := f\<rparr>) (Sha256_hex v) v r = (Ret r', l')" for f l' and r r' :: "chunk_ref result"
    by (rule put_cached_agrees [OF _ _ that]) (use assms(1,2,4) in auto)
  from this [of "cs_files l"] this show ?thesis using assms(3)
    by (auto simp: chunk_put_def Let_def split: if_splits) (metis prod.collapse)+
qed

lemma chunk_put_holds:
  assumes "store_inv l" "free_for l b"
  shows "holds (snd (chunk_put calm l b)) b"
proof -
  note c = chunk_put_calm [OF assms(1), of b]
  have "flushed calm = None" by (simp add: calm_def)
  then have "cs_files (snd (chunk_put calm l b)) (path_for (cs_root l) (Sha256_hex b)) = Some b"
    using chunk_put_files [OF assms(1) c] assms(2) by (auto simp: Let_def free_for_def on_disk_def)
  moreover have "cache_agrees (snd (chunk_put calm l b)) b"
    using chunk_put_agrees [OF assms(1) _ c] assms(2) by (simp add: free_for_def)
  ultimately show ?thesis by (simp add: holds_def chunk_put_root)
qed

lemma chunk_put_other:
  assumes "store_inv l" "Sha256_hex v \<noteq> Sha256_hex b"
  shows "free_for l b \<Longrightarrow> free_for (snd (chunk_put calm l v)) b" "holds l b \<Longrightarrow> holds (snd (chunk_put calm l v)) b"
proof -
  note c = chunk_put_calm [OF assms(1), of v]
  have f: "cs_files (snd (chunk_put calm l v)) (path_for (cs_root l) (Sha256_hex b)) = cs_files l (path_for (cs_root l) (Sha256_hex b))"
    by (rule other_chunk_files [OF assms(1) c digest_name_hex]) (use assms(2) in simp)
  have "cache_agrees l b \<Longrightarrow> cache_agrees (snd (chunk_put calm l v)) b" by (rule chunk_put_agrees [OF assms(1) _ c]) (use assms(2) in simp_all)
  then show "free_for l b \<Longrightarrow> free_for (snd (chunk_put calm l v)) b" "holds l b \<Longrightarrow> holds (snd (chunk_put calm l v)) b"
    using f by (simp_all add: free_for_def holds_def chunk_put_root)
qed

lemma holds_free: "holds l b \<Longrightarrow> free_for l b"
  by (simp add: holds_def free_for_def)

lemma chunk_get_holds:
  assumes "store_inv l" "holds l b"
  shows "holds (snd (chunk_get l c)) b"
proof -
  obtain l' where l': "cs_root l' = cs_root l" "cs_files l' = cs_files l" "snd (chunk_get l c) = l'"
    using chunk_get_cases [OF assms(1), of c] by auto
  have inv: "lru_inv (cs_cache l)" using assms(1) by (simp add: store_inv_def)
  obtain c1 where g: "lru_get (cs_cache l) c = Ret (map_of (lru_abs (cs_cache l)) c, c1)" "store_inv (l\<lparr>cs_cache := c1\<rparr>)"
    using lookup_cached [OF assms(1)] by blast
  have a1: "cache_agrees (l\<lparr>cs_cache := c1\<rparr>) b"
    using lru.get_keeps_lookups [OF inv g(1)] assms(2) by (simp add: cache_agrees_def holds_def)
  have "cache_agrees (snd (chunk_get l c)) b"
  proof (cases "map_of (lru_abs (cs_cache l)) c")
    case (Some v)
    then show ?thesis using a1 g(1) by (simp add: chunk_get_def)
  next
    case None
    show ?thesis
    proof (cases "cs_files l (path_for (cs_root l) c)")
      case f: (Some v)
      have "cache_agrees (snd (put_cached (l\<lparr>cs_cache := c1\<rparr>) c v (Value v))) b" if h: "Sha256_hex v = c"
      proof -
        obtain l2 where p: "put_cached (l\<lparr>cs_cache := c1\<rparr>) c v (Value v) = (Ret (Value v), l2)" 
          using put_cached_spec [OF g(2) h, of "Value v :: bytes result"] by auto
        show ?thesis unfolding p snd_conv by (rule put_cached_agrees [OF g(2) a1 p]) (use f assms(2) in \<open>simp add: holds_def\<close>)
      qed
      then show ?thesis using a1 g(1) None f by (simp add: chunk_get_def)
    qed (use a1 g(1) None in \<open>simp add: chunk_get_def\<close>)
  qed
  then show ?thesis using assms(2) l' by (simp add: holds_def)
qed

interpretation disk: chunk_keeper "\<lambda>l b. snd (chunk_put calm l b)" chunk_get store_inv free_for holds Sha256_hex
proof (unfold_locales, goal_cases)
  case (1 s b)
  then show ?case using chunk_put_inv by blast
next
  case (7 s b n)
  then show ?case by (rule chunk_get_holds)
qed (simp_all add: chunk_put_holds chunk_put_other holds_free holds_get)

end
