(* ===== verification/Server_Roundtrip.thy ===== *)
theory Server_Roundtrip
  imports Server_Answers Held_Chunks
begin

text \<open>
  The object interface of a node as a whole: what was uploaded is downloaded again. The proof
  runs through every layer, from the request handlers over metadata, chunk service and chunk
  store to the cache and the digest.
\<close>

section \<open>An isolated node\<close>

text \<open>No other node can be reached, and one copy is enough for writing and reading.\<close>

definition isolated :: "('db, 'w) server_env \<Rightarrow> bool" where
  "isolated env \<longleftrightarrow> config_ok (e_service env) (e_out env) \<and> calm_disk (e_out env) \<and> cut_off (e_out env) \<and>
     write_quorum (e_service env) \<le> 1 \<and> read_quorum (e_service env) \<le> 1"

definition ref_for :: "bytes \<Rightarrow> chunk_ref" where
  "ref_for b = \<lparr>ref_checksum = Sha256_hex b, ref_size = of_nat (length b)\<rparr>"

lemma ref_for_checksum [simp]: "ref_checksum (ref_for b) = Sha256_hex b"
  by (simp add: ref_for_def)

lemma refresh_members_nonempty: "members (refresh_seed_members cfg out s) \<noteq> []"
proof -
  have u: "AList.update k v xs \<noteq> []" for k v and xs :: "(string \<times> node_state) list" by (cases xs) auto
  have "members (fold (beat out) ns s) \<noteq> []" if "members s \<noteq> []" for ns and s :: "'a service"
    using that by (induction ns arbitrary: s) (simp_all add: beat_members heartbeat_def u)
  then show ?thesis by (simp add: refresh_seed_members_def beat_members heartbeat_def u)
qed

lemma isolated_put:
  assumes "isolated env" "service_ok s"
  shows "\<exists>s'. put (e_service env) (e_out env) b s = Some (Ret (Value (ref_for b)), s') \<and> service_ok s' \<and>
    local s' = snd (chunk_put calm (local s) b) \<and> members s' \<noteq> []"
proof -
  have c: "config_ok (e_service env) (e_out env)" "calm_disk (e_out env)" "cut_off (e_out env)" "write_quorum (e_service env) \<le> 1"
    using assms(1) by (simp_all add: isolated_def)
  from put_outcome [OF c(1) assms(2) c(2), of b] obtain ts acked failed s1 s' where p:
    "put (e_service env) (e_out env) b s =
       Some (Ret (if 1 + int (length acked) < write_quorum (e_service env) then Error (Unavailable ''quorum write failed'') else Value (ref_for b)), s')"
    "stored (e_service env) (e_out env) (ref_for b) b ts s1 acked failed s'" "service_ok s'" "local s' = snd (chunk_put calm (local s) b)"
    "members s1 = members (refresh_seed_members (e_service env) (e_out env) s)"
    unfolding ref_for_def by blast
  have "\<not> 1 + int (length acked) < write_quorum (e_service env)" using c(4) by linarith
  moreover have "members s' \<noteq> []" using p(2,5) refresh_members_nonempty by (simp add: stored_def)
  ultimately show ?thesis using p by simp
qed

lemma put_parts_local:
  assumes "isolated env"
  shows "service_ok (svc s) \<Longrightarrow>
    \<exists>c. put_parts env ps refs s = Some (Ret (Value (refs @ map ref_for ps)), s\<lparr>svc := c\<rparr>) \<and> service_ok c \<and>
      local c = foldl (\<lambda>l b. snd (chunk_put calm l b)) (local (svc s)) ps \<and> (ps \<noteq> [] \<or> members (svc s) \<noteq> [] \<longrightarrow> members c \<noteq> [])"
proof (induction ps arbitrary: refs s)
  case Nil
  then show ?case by (intro exI [of _ "svc s"]) (simp add: areturn_def)
next
  case (Cons p ps)
  obtain c1 where c1: "put (e_service env) (e_out env) p (svc s) = Some (Ret (Value (ref_for p)), c1)" "service_ok c1"
    "local c1 = snd (chunk_put calm (local (svc s)) p)" "members c1 \<noteq> []"
    using isolated_put [OF assms Cons.prems(1)] by blast
  obtain c where c: "put_parts env ps (refs @ [ref_for p]) (s\<lparr>svc := c1\<rparr>) =
      Some (Ret (Value ((refs @ [ref_for p]) @ map ref_for ps)), (s\<lparr>svc := c1\<rparr>)\<lparr>svc := c\<rparr>)" "service_ok c"
      "local c = foldl (\<lambda>l b. snd (chunk_put calm l b)) (local c1) ps" "members c \<noteq> []"
    using Cons.IH [of "s\<lparr>svc := c1\<rparr>" "refs @ [ref_for p]"] c1(2,4) by auto
  then show ?case using c c1(1,3) by (intro exI [of _ c]) (simp add: abind_def on_chunks_def)
qed

lemma isolated_fetch:
  assumes "isolated env"
  shows "service_ok (svc s) \<Longrightarrow> members (svc s) \<noteq> [] \<Longrightarrow> \<forall>p \<in> set ps. holds (local (svc s)) p \<Longrightarrow>
    \<exists>c. fetch_parts env (map ref_for ps) acc s = Some (Ret (Value (acc @ concat ps)), s\<lparr>svc := c\<rparr>)"
proof (induction ps arbitrary: acc s)
  case Nil
  show ?case by (intro exI [of _ "svc s"]) (simp add: areturn_def)
next
  case (Cons p ps)
  let ?cfg = "e_service env" and ?out = "e_out env"
  have e: "config_ok ?cfg ?out" "calm_disk ?out" "cut_off ?out" "read_quorum ?cfg \<le> 1" using assms by (simp_all add: isolated_def)
  have m: "members_ok (members (svc s))" "iteration_order (o_iter ?out)" using Cons.prems(1) e(1) by (simp_all add: service_ok_def config_ok_def)
  then have h: "members_healthy (members (svc s))" by (auto simp: members_ok_def members_healthy_def node_ok_def)
  have "\<exists>ts. plan_targets (o_hash ?out) (o_iter ?out) (members (svc s)) (Sha256_hex p) (replication_factor ?cfg) = Some ts \<and>
      \<not> int (length ts) < min (read_quorum ?cfg) (replication_factor ?cfg)"
  proof (cases "0 < replication_factor ?cfg")
    case True
    from plan_targets_nonempty [OF m(2) h Cons.prems(2) True, of "o_hash ?out" "Sha256_hex p"] e(4) show ?thesis
      by (auto simp: Suc_le_eq [symmetric] neq_Nil_conv)
  next
    case False
    then show ?thesis using members_ok_plan [OF m(2,1)] by force
  qed
  then obtain ts where ts: "plan_targets (o_hash ?out) (o_iter ?out) (members (svc s)) (Sha256_hex p) (replication_factor ?cfg) = Some ts"
    "\<not> int (length ts) < min (read_quorum ?cfg) (replication_factor ?cfg)" by blast
  have inv: "store_inv (local (svc s))" using Cons.prems(1) by (simp add: service_ok_def)
  have "fst (chunk_get (local (svc s)) (Sha256_hex p)) = Ret (Value p)" using disk.fetch_held [OF inv] Cons.prems(3) by simp
  from isolated_get [OF e(1-4) Cons.prems(1) this] obtain c where c: "get ?cfg ?out (Sha256_hex p) (svc s) = Some (Ret (Value p), c)"
    "local c = snd (chunk_get (local (svc s)) (Sha256_hex p))" "service_ok c" by blast
  have "members c \<noteq> []" using get_outcome [OF e(1) Cons.prems(1) e(2), of "Sha256_hex p"] c(1) refresh_members_nonempty [of ?cfg ?out "svc s"] by auto
  moreover have "\<forall>q \<in> set ps. holds (local c) q" using disk.fetch_keeps [OF inv] Cons.prems(3) by (simp add: c(2))
  ultimately obtain c2 where "fetch_parts env (map ref_for ps) (acc @ p) (s\<lparr>svc := c\<rparr>) = Some (Ret (Value ((acc @ p) @ concat ps)), (s\<lparr>svc := c\<rparr>)\<lparr>svc := c2\<rparr>)"
    using Cons.IH [of "s\<lparr>svc := c\<rparr>" "acc @ p"] c(3) by auto
  then show ?case using ts c(1)
    by (intro exI [of _ c2]) (auto simp: abind_def on_chunks_def plan_size_def read_plan_def write_plan_targets)
qed

section \<open>The handlers\<close>

lemma error_reply_status: "status (status_response st) \<noteq> 200" "status (status_response st) \<noteq> 201"
  by (simp_all add: status_response_def Let_def)

lemma hex_c_str [simp]: "c_str (Sha256_hex b) = Sha256_hex b"
proof (rule c_str_literal)
  show "CHR 0x00 \<notin> set (Sha256_hex b)" using Sha256_hex_is_hex [of "CHR 0x00" b] by (auto simp: is_hex_def)
qed

lemma stored_ref_for [simp]: "stored_ref (ref_for b) = ref_for b"
  by (simp add: stored_ref_def ref_for_def)

lemma or_respond_Error: "m s = Some (Ret (Error st), s') \<Longrightarrow> or_respond m k s = Some (Ret (status_response st), s')"
  by (simp add: or_respond_def abind_def areturn_def)

lemma or_respond_Value: "m s = Some (Ret (Value x), s') \<Longrightarrow> or_respond m k s = k x s'"
  by (simp add: or_respond_def abind_def)

lemma guarded_admin: "sv_auth s (bearer req) = Some {kAdmin} \<Longrightarrow> guarded perm req k s = k s"
  by (simp add: guarded_def authorize_def)

text \<open>An upload, once its token and its path are accepted: the record is logged, the parts are stored
  and held from then on, and the metadata is written. Only the log and the database can fail.\<close>

definition upload_meta :: "string \<Rightarrow> string \<Rightarrow> bytes \<Rightarrow> bytes list \<Rightarrow> object_metadata" where
  "upload_meta b k bs parts = \<lparr>md_bucket = b, md_key = k, md_size = of_nat (length bs), md_checksum = Sha256_hex bs, md_chunks = map ref_for parts\<rparr>"

definition upload_record :: "string \<Rightarrow> string \<Rightarrow> bytes \<Rightarrow> wal_record" where
  "upload_record b k bs = \<lparr>rec_type = kPutObject, rec_key = b @ ''/'' @ k, rec_payload = Sha256_hex bs\<rparr>"

lemma upload_answer:
  assumes "isolated env" "service_ok (svc s)" "chunk_bytes (body req) (e_chunk_size env) = Some (Ret parts)" "parts \<noteq> []"
    "\<forall>p \<in> set parts. free_for (local (svc s)) p" "inj_on Sha256_hex (set parts)"
    and req: "sv_auth s (bearer req) = Some {kAdmin}" "object_path (path req) = Ret (b, k)" "b \<noteq> []" "k \<noteq> []"
    and log: "e_log env (world (svc s)) = (io, w)" "wal_append io (sv_wal s) (upload_record b k (body req)) = (lr, l)"
    and pr: "put_object (e_sql env) (upload_meta b k (body req) parts) (meta s) = (Ret pr, db)"
  shows "\<exists>c s2. service_ok c \<and> members c \<noteq> [] \<and> (\<forall>p \<in> set parts. holds (local c) p) \<and>
    handle_put_object env req s = (case lr of Error st \<Rightarrow> Some (Ret (status_response st), s2)
      | Value _ \<Rightarrow> (case pr of Error st \<Rightarrow> Some (Ret (status_response st), s2)
         | Value _ \<Rightarrow> Some (Ret (put_reply b k (Sha256_hex (body req)) (length parts)),
             s\<lparr>sv_wal := l, svc := c, meta := db, sv_metrics := record_upload (of_nat (length (body req))) (sv_metrics s)\<rparr>)))"
proof -
  let ?s = "s\<lparr>sv_wal := l, svc := (svc s)\<lparr>world := w\<rparr>\<rparr>" and ?m = "upload_meta b k (body req) parts"
  let ?count = "\<lambda>_ :: unit. abind (count_event (record_upload (of_nat (length (body req)))))
    (\<lambda>_. areturn (put_reply b k (Sha256_hex (body req)) (length parts)))"
  have lg: "log_record env (upload_record b k (body req)) s = Some (Ret lr, ?s)" by (simp add: log_record_def log)
  have ok: "service_ok (svc ?s)" using assms(2) by (simp add: service_ok_def)
  obtain c where c: "put_parts env parts [] ?s = Some (Ret (Value (map ref_for parts)), ?s\<lparr>svc := c\<rparr>)" "service_ok c"
    "local c = foldl (\<lambda>l b. snd (chunk_put calm l b)) (local (svc s)) parts" "members c \<noteq> []"
    using put_parts_local [OF assms(1) ok, of parts "[]"] assms(4) by auto
  have "store_inv (local (svc s))" using assms(2) by (simp add: service_ok_def)
  from disk.store_all [OF this assms(5), of "{}"] assms(6) have held: "\<forall>p \<in> set parts. holds (local c) p" by (simp add: c(3))
  have sp: "split_body env (body req) ?s = Some (Ret parts, ?s)" using assms(3) by (simp add: split_body_def)
  have md: "on_meta (put_object (e_sql env) ?m) (?s\<lparr>svc := c\<rparr>) = Some (Ret pr, ?s\<lparr>svc := c, meta := db\<rparr>)"
    using pr by (simp add: on_meta_def)
  have h: "handle_put_object env req s = or_respond (log_record env (upload_record b k (body req))) (\<lambda>_. abind (split_body env (body req)) (\<lambda>parts.
      or_respond (put_parts env parts []) (\<lambda>refs. or_respond (on_meta (put_object (e_sql env) ((upload_meta b k (body req) [])\<lparr>md_chunks := refs\<rparr>)))
        (\<lambda>_. abind (count_event (record_upload (of_nat (length (body req))))) (\<lambda>_. areturn (put_reply b k (Sha256_hex (body req)) (length refs))))))) s"
    using req by (simp add: handle_put_object_def guarded_admin lift_outcome_def abind_def upload_meta_def upload_record_def Let_def)
  have m: "(upload_meta b k (body req) [])\<lparr>md_chunks := map ref_for parts\<rparr> = ?m" by (simp add: upload_meta_def)
  have stored: "handle_put_object env req s = or_respond (on_meta (put_object (e_sql env) ?m)) ?count (?s\<lparr>svc := c\<rparr>)" if "lr = Value u" for u
    unfolding h or_respond_Value [where m = "log_record env (upload_record b k (body req))", OF lg [unfolded that]] abind_Ret [where m = "split_body env (body req)", OF sp]
      or_respond_Value [where m = "put_parts env parts []", OF c(1)] by (simp only: m length_map)
  have "handle_put_object env req s = Some (Ret (put_reply b k (Sha256_hex (body req)) (length parts)),
      s\<lparr>sv_wal := l, svc := c, meta := db, sv_metrics := record_upload (of_nat (length (body req))) (sv_metrics s)\<rparr>)" if "lr = Value u" "pr = Value v" for u v
    unfolding stored [OF that(1)] or_respond_Value [where m = "on_meta (put_object (e_sql env) ?m)", OF md [unfolded that(2)]]
    by (simp add: abind_def count_event_def areturn_def)
  moreover have "handle_put_object env req s = Some (Ret (status_response st), ?s\<lparr>svc := c, meta := db\<rparr>)" if "lr = Value u" "pr = Error st" for u st
    unfolding stored [OF that(1)] by (rule or_respond_Error [where m = "on_meta (put_object (e_sql env) ?m)", OF md [unfolded that(2)]])
  moreover have "handle_put_object env req s = Some (Ret (status_response st), ?s)" if "lr = Error st" for st
    unfolding h by (rule or_respond_Error [where m = "log_record env (upload_record b k (body req))", OF lg [unfolded that]])
  ultimately show ?thesis using c(2,4) held by (cases lr; cases pr) (auto intro!: exI [of _ c])
qed

lemma object_path_objects: "object_path (''/v1/objects/'' @ b @ ''/'' @ k) = Ret (b, k)" if "CHR ''/'' \<notin> set b"
proof -
  have "find_char CHR ''/'' (b @ CHR ''/'' # k) = Some (length b)" using that by (rule find_char_append)
  then show ?thesis by (simp add: object_path_def)
qed

lemma dispatch_object:
  assumes "take (length ''/v1/objects/'') (path req) = ''/v1/objects/''"
  shows "req_method req = ''PUT'' \<Longrightarrow> dispatch (routes env) req s = handle_put_object env req s"
    "req_method req = ''GET'' \<Longrightarrow> dispatch (routes env) req s = handle_get_object env req s"
  using assms by (simp_all add: routes_def)

lemma download_answer:
  assumes "isolated env" "table_ok (e_sql env, view, tx)" "service_ok (svc s)" "members (svc s) \<noteq> []"
    "sv_auth s (bearer req) = Some {kAdmin}" "object_path (path req) = Ret (b, k)" "\<forall>p \<in> set parts. holds (local (svc s)) p"
    "object_map (view (meta s)) (c_str b, c_str k) = Some (n, Sha256_hex (concat parts), map ref_for parts)"
  shows "\<exists>s'. handle_get_object env req s = Some (Ret (octets (concat parts)), s')"
proof -
  let ?m = "metadata_of b k (n, Sha256_hex (concat parts), map ref_for parts)"
  obtain db where db: "get_object (e_sql env) b k (meta s) = (Ret (Value ?m), db)"
    using metadata.get_found [OF assms(2), of "meta s" b k] assms(8) by auto
  have g: "on_meta (get_object (e_sql env) b k) s = Some (Ret (Value ?m), s\<lparr>meta := db\<rparr>)" by (simp add: on_meta_def db)
  have m: "md_chunks ?m = map ref_for parts" "md_checksum ?m = Sha256_hex (concat parts)" by (simp_all add: metadata_of_def)
  obtain c where c: "fetch_parts env (map ref_for parts) [] (s\<lparr>meta := db\<rparr>) = Some (Ret (Value (concat parts)), s\<lparr>meta := db, svc := c\<rparr>)"
    using isolated_fetch [OF assms(1), of "s\<lparr>meta := db\<rparr>" parts "[]"] assms(3,4,7) by auto
  have "handle_get_object env req s = or_respond (on_meta (get_object (e_sql env) b k)) (\<lambda>meta. or_respond (fetch_parts env (md_chunks meta) []) (\<lambda>out.
      if Sha256_hex out \<noteq> md_checksum meta then areturn (status_response (Internal ''object checksum mismatch''))
      else abind (count_event (record_download (of_nat (length out)))) (\<lambda>_. areturn (octets out)))) s"
    using assms(5,6) by (simp add: handle_get_object_def guarded_admin lift_outcome_def abind_def)
  then show ?thesis
    unfolding or_respond_Value [where m = "on_meta (get_object (e_sql env) b k)", OF g] m
      or_respond_Value [where m = "fetch_parts env (map ref_for parts) []", OF c]
    by (simp add: abind_def count_event_def areturn_def)
qed

text \<open>What an upload answered with 201 leaves behind is enough for every later download.\<close>

definition downloadable :: "('db \<Rightarrow> tables) \<Rightarrow> string \<Rightarrow> bytes \<Rightarrow> ('db, 'w) server \<Rightarrow> bool" where
  "downloadable view p bs s \<longleftrightarrow> service_ok (svc s) \<and> members (svc s) \<noteq> [] \<and> (\<exists>b k n parts. object_path p = Ret (b, k) \<and> concat parts = bs \<and>
     (\<forall>q \<in> set parts. holds (local (svc s)) q) \<and> object_map (view (meta s)) (c_str b, c_str k) = Some (n, Sha256_hex bs, map ref_for parts))"

lemma upload_downloadable:
  assumes "isolated env" "table_ok (e_sql env, view, tx)" "service_ok (svc s)"
    and req: "sv_auth s (bearer up) = Some {kAdmin}" "take (length ''/v1/objects/'') (path up) = ''/v1/objects/''"
    and body: "length (body up) < 2 ^ 31" "chunk_bytes (body up) (e_chunk_size env) = Some (Ret parts)"
      "\<forall>p \<in> set parts. free_for (local (svc s)) p" "inj_on Sha256_hex (set parts)"
    and h: "handle_put_object env up s = Some (Ret r, s1)" "status r = 201"
  shows "downloadable view (path up) (body up) s1 \<and> sv_auth s1 = sv_auth s"
proof -
  have parts: "parts \<noteq> []" "length parts \<le> 2 ^ 31 - 1" "concat parts = body up"
    using split_parts [OF body(1), of "e_chunk_size env"] body(2) by auto
  obtain b k where p: "object_path (path up) = Ret (b, k)"
    using prefix_length [OF req(2)] by (cases "object_path (path up)") (auto simp: object_path_def Let_def split: option.splits)
  have bk: "b \<noteq> []" "k \<noteq> []"
    using h p error_reply_status(2) req(1) by (auto simp: handle_put_object_def guarded_admin lift_outcome_def abind_def areturn_def)
  let ?m = "upload_meta b k (body up) parts"
  have len: "length (md_chunks ?m) \<le> 2 ^ 31 - 1" using parts(2) by (simp add: upload_meta_def)
  obtain pr db where pr: "put_object (e_sql env) ?m (meta s) = (Ret pr, db)" using metadata.put_law [OF assms(2) len, of "meta s"] by auto
  obtain io w lr l where log: "e_log env (world (svc s)) = (io, w)" "wal_append io (sv_wal s) (upload_record b k (body up)) = (lr, l)" by (metis surj_pair)
  obtain c s2 where c: "service_ok c" "members c \<noteq> []" "\<forall>p \<in> set parts. holds (local c) p"
    "handle_put_object env up s = (case lr of Error st \<Rightarrow> Some (Ret (status_response st), s2)
      | Value _ \<Rightarrow> (case pr of Error st \<Rightarrow> Some (Ret (status_response st), s2)
         | Value _ \<Rightarrow> Some (Ret (put_reply b k (Sha256_hex (body up)) (length parts)),
             s\<lparr>sv_wal := l, svc := c, meta := db, sv_metrics := record_upload (of_nat (length (body up))) (sv_metrics s)\<rparr>)))"
    using upload_answer [OF assms(1,3) body(2) parts(1) body(3,4) req(1) p bk log pr] by blast
  from c(4) h error_reply_status(2)
  have s1: "pr = Value ()" "s1 = s\<lparr>sv_wal := l, svc := c, meta := db, sv_metrics := record_upload (of_nat (length (body up))) (sv_metrics s)\<rparr>"
    by (auto split: result.splits)
  have "object_map (view db) = put_in_map ?m (object_map (view (meta s)))" using metadata.put_done [OF assms(2) len] pr s1(1) by simp
  then have "object_map (view (meta s1)) (c_str b, c_str k) = Some (of_nat (length (body up)), Sha256_hex (body up), map ref_for parts)"
    by (simp add: s1(2) put_in_map_def upload_meta_def comp_def)
  then have "downloadable view (path up) (body up) s1"
    unfolding downloadable_def by (intro conjI exI [of _ b] exI [of _ k] exI [of _ "of_nat (length (body up))"] exI [of _ parts])
      (use c(1-3) p parts(3) in \<open>simp_all add: s1(2)\<close>)
  then show ?thesis by (simp add: s1(2))
qed

lemma downloadable_answer:
  assumes "isolated env" "table_ok (e_sql env, view, tx)" "sv_auth s (bearer req) = Some {kAdmin}"
    "downloadable view (path req) bs s"
  shows "\<exists>s'. handle_get_object env req s = Some (Ret (octets bs), s')"
proof -
  obtain b k n parts where d: "object_path (path req) = Ret (b, k)" "concat parts = bs" "\<forall>q \<in> set parts. holds (local (svc s)) q"
    "object_map (view (meta s)) (c_str b, c_str k) = Some (n, Sha256_hex (concat parts), map ref_for parts)" "service_ok (svc s)" "members (svc s) \<noteq> []"
    using assms(4) unfolding downloadable_def by blast
  from download_answer [OF assms(1,2) d(5,6) assms(3) d(1,3,4)] show ?thesis unfolding d(2) .
qed

text \<open>C11: What is uploaded is downloaded: on a node that can reach no other, with quorums of at most
  one, an object whose upload was answered with 201 is returned by a request for the same path,
  byte for byte. The chunks' names in the store must be free or taken by the same bytes, and
  different chunks of the object must have different digests.\<close>

theorem upload_then_download:
  assumes "isolated env" "sqlite_laws (e_sql env) view tx" "deletes_complete (e_sql env)" "reads_complete (e_sql env)" "service_ok (svc s)"
    and req: "sv_auth s (bearer up) = Some {kAdmin}" "req_method up = ''PUT''" "take (length ''/v1/objects/'') (path up) = ''/v1/objects/''"
      "sv_auth s (bearer down) = Some {kAdmin}" "req_method down = ''GET''" "path down = path up"
    and body: "length (body up) < 2 ^ 31" "chunk_bytes (body up) (e_chunk_size env) = Some (Ret parts)"
      "\<forall>p \<in> set parts. free_for (local (svc s)) p" "inj_on Sha256_hex (set parts)"
    and ok: "dispatch (routes env) up s = Some (Ret r, s1)" "status r = 201"
  shows "\<exists>s2. dispatch (routes env) down s1 = Some (Ret (octets (body up)), s2)"
proof -
  have h: "handle_put_object env up s = Some (Ret r, s1)" using ok(1) unfolding dispatch_object(1) [OF req(3,2)] .
  have d: "dispatch (routes env) down s1 = handle_get_object env down s1" by (rule dispatch_object(2)) (use req in simp_all)
  have table: "table_ok (e_sql env, view, tx)" using assms(2-4) by simp
  from upload_downloadable [OF assms(1) table assms(5) req(1,3) body h ok(2)] req
  show ?thesis unfolding d by (intro downloadable_answer [OF assms(1) table]) simp_all
qed

lemma sample_isolated: "isolated sample_env"
  using sample_service_ok cut_off_lonely by (simp add: isolated_def sample_env_def two_members_def)

lemma sample_parts: "chunk_bytes (body (request_to m p [7])) (e_chunk_size sample_env) = Some (Ret [[7]])"
  using chunk_bytes_eq [of "[7]" 2] by (simp add: request_to_def sample_env_def effective_size_def chunks_of_step)

lemma sample_free: "free_for (local (svc sample_server)) [7]"
  by (simp add: free_for_def cache_agrees_def sample_server_def fresh_service_def chunk_store_new_def lru_new_def lru_abs_def)

lemma sample_token: "sv_auth sample_server (bearer (request_to m p bs)) = Some {kAdmin}"
  by (simp add: sample_server_def bearer_def request_to_def add_token_def auth_new_def)

lemma sample_service: "service_ok (svc sample_server)"
  using sample_service_ok by (simp add: sample_server_def)

lemma sample_upload:
  assumes "req_method req = ''PUT''" "path req = ''/v1/objects/b/k''" "body req = [7]" "sv_auth sample_server (bearer req) = Some {kAdmin}"
  shows "\<exists>r s1. dispatch (routes sample_env) req sample_server = Some (Ret r, s1) \<and> status r = 201"
proof -
  have path: "object_path (path req) = Ret (''b'', ''k'')" using object_path_objects [of "''b''" "''k''"] by (simp add: assms(2))
  have parts: "chunk_bytes (body req) (e_chunk_size sample_env) = Some (Ret [[7]])" using sample_parts by (simp add: request_to_def assms(3))
  obtain l where log: "e_log sample_env (world (svc sample_server)) = (None, ())"
    "wal_append None (sv_wal sample_server) (upload_record ''b'' ''k'' (body req)) = (Value (), l)"
    by (simp add: sample_server_def sample_env_def fresh_service_def wal_append_def)
  obtain db where db: "put_object (e_sql sample_env) (upload_meta ''b'' ''k'' (body req) [[7]]) (meta sample_server) = (Ret (Value ()), db)"
    by (simp add: sample_env_def sample_server_def upload_meta_def empty_db_def table_sqlite_def table_exec_def table_step_def put_object_def sql_exec_def
        c_str_literal do_insert_object_def do_delete_chunks_def sql_delete_chunks_def)
  have "dispatch (routes sample_env) req sample_server = handle_put_object sample_env req sample_server"
    by (rule dispatch_object(1)) (simp_all add: assms)
  then show ?thesis
    using upload_answer [OF sample_isolated sample_service parts _ _ _ assms(4) path _ _ log db] sample_free by (auto simp: put_reply_def)
qed

theorem upload_then_download_witness:
  "\<exists>r s1 s2. dispatch (routes sample_env) (request_to ''PUT'' ''/v1/objects/b/k'' [7]) sample_server = Some (Ret r, s1) \<and>
     dispatch (routes sample_env) (request_to ''GET'' ''/v1/objects/b/k'' []) s1 = Some (Ret (octets [7]), s2)"
proof -
  let ?up = "request_to ''PUT'' ''/v1/objects/b/k'' [7]"
  obtain r s1 where up: "dispatch (routes sample_env) ?up sample_server = Some (Ret r, s1)" "status r = 201"
    using sample_upload [of ?up] sample_token by (auto simp: request_to_def)
  have sql: "sqlite_laws (e_sql sample_env) table_view table_tx" "deletes_complete (e_sql sample_env)" "reads_complete (e_sql sample_env)"
    using table_sqlite_laws table_sqlite_completes by (simp_all add: sample_env_def)
  have "\<exists>s2. dispatch (routes sample_env) (request_to ''GET'' ''/v1/objects/b/k'' []) s1 = Some (Ret (octets (body ?up)), s2)"
    by (rule upload_then_download [OF sample_isolated sql sample_service sample_token _ _ sample_token _ _ _ sample_parts _ _ up])
      (use sample_free in \<open>simp_all add: request_to_def\<close>)
  moreover have "body ?up = [7]" by (simp add: request_to_def)
  ultimately show ?thesis using up(1) by auto
qed

end
