(* ===== verification/Cli.thy ===== *)
theory Cli
  imports Server_Roundtrip
begin

text \<open>
  \<^verbatim>\<open>client/main.cpp\<close>: the command-line client, from its arguments over one HTTP call to its
  output, its files and its exit code. The arguments are those after the program's name. How the
  file that a download writes can be opened and filled is a parameter; neither is checked by
  the program. The last section runs the client against the server of theory \<^verbatim>\<open>Server\<close>.
\<close>

section \<open>The implementation\<close>

record cli_options =
  cli_host :: string
  cli_port :: int
  cli_token :: string

definition cli_default :: cli_options where
  "cli_default = \<lparr>cli_host = ''127.0.0.1'', cli_port = 8080, cli_token = ''admin-token''\<rparr>"

fun cli_args :: "cli_options \<Rightarrow> string list \<Rightarrow> (cli_options \<times> string list) outcome" where
  "cli_args opts (arg # v # rest) =
     (if arg = ''--host'' then cli_args (opts\<lparr>cli_host := v\<rparr>) rest
      else if arg = ''--port'' then obind (stoi v) (\<lambda>n. cli_args (opts\<lparr>cli_port := n\<rparr>) rest)
      else if arg = ''--token'' then cli_args (opts\<lparr>cli_token := v\<rparr>) rest
      else Ret (opts, arg # v # rest))"
| "cli_args opts rest = Ret (opts, rest)"

text \<open>A file that cannot be opened is read as empty. A file to be written may not open, or take
  only some of the bytes.\<close>

datatype file_write = Unopened | Opened "nat option"

definition read_file :: "(string \<rightharpoonup> bytes) \<Rightarrow> string \<Rightarrow> bytes" where
  "read_file files p = (case files p of None \<Rightarrow> [] | Some bs \<Rightarrow> bs)"

definition write_file :: "file_write \<Rightarrow> string \<Rightarrow> bytes \<Rightarrow> (string \<rightharpoonup> bytes) \<Rightarrow> (string \<rightharpoonup> bytes)" where
  "write_file fw p bs files =
     (case fw of Unopened \<Rightarrow> files | Opened None \<Rightarrow> files(p \<mapsto> bs) | Opened (Some n) \<Rightarrow> files(p \<mapsto> take n bs))"

record 'w terminal =
  t_files :: "string \<rightharpoonup> bytes"
  t_out :: string
  t_err :: string
  t_world :: 'w

definition usage :: string where
  "usage = ''usage: dstore-cli [--host 127.0.0.1] [--port 8080] [--token token] upload|download|delete|metadata bucket/key [file]'' @ [newline]"

text \<open>The request for a command, with the file argument that follows the object's name; \<open>None\<close> is
  the early return with exit code 2.\<close>

definition object_request :: "string \<Rightarrow> string \<Rightarrow> string \<Rightarrow> bytes \<Rightarrow> HttpRequest" where
  "object_request token m obj bs =
     \<lparr>req_method = m, path = ''/v1/objects/'' @ obj, headers = [(''Authorization'', ''Bearer '' @ token)], body = bs\<rparr>"

definition cli_request :: "(string \<rightharpoonup> bytes) \<Rightarrow> string \<Rightarrow> string \<Rightarrow> string \<Rightarrow> string list \<Rightarrow> HttpRequest option" where
  "cli_request files token cmd obj rest =
     (if cmd = ''upload'' then (case rest of [] \<Rightarrow> None | f # _ \<Rightarrow> Some (object_request token ''PUT'' obj (read_file files f)))
      else if cmd = ''download'' then (case rest of [] \<Rightarrow> None | _ # _ \<Rightarrow> Some (object_request token ''GET'' obj []))
      else if cmd = ''delete'' then Some (object_request token ''DELETE'' obj [])
      else if cmd = ''metadata'' then Some ((object_request token ''GET'' obj [])\<lparr>path := ''/v1/metadata/'' @ obj\<rparr>)
      else None)"

definition cli_finish :: "file_write \<Rightarrow> string \<Rightarrow> string list \<Rightarrow> HttpResponse result \<Rightarrow> 'w terminal \<Rightarrow> int \<times> 'w terminal" where
  "cli_finish fw cmd rest resp t =
     (case resp of
        Error st \<Rightarrow> (1, t\<lparr>t_err := t_err t @ message st @ [newline]\<rparr>)
      | Value r \<Rightarrow>
          if 300 \<le> status r then (1, t\<lparr>t_err := t_err t @ bytes_string (resp_body r)\<rparr>)
          else if cmd = ''download'' then (0, t\<lparr>t_files := write_file fw (hd rest) (resp_body r) (t_files t)\<rparr>)
          else (0, t\<lparr>t_out := t_out t @ bytes_string (resp_body r)\<rparr>))"

definition cli_main :: "'w network \<Rightarrow> file_write \<Rightarrow> string list \<Rightarrow> 'w terminal \<Rightarrow> int outcome \<times> 'w terminal" where
  "cli_main net fw args t =
     (case cli_args cli_default args of
        Throw e \<Rightarrow> (Throw e, t)
      | Undefined \<Rightarrow> (Undefined, t)
      | Ret (opts, []) \<Rightarrow> (Ret 2, t\<lparr>t_err := t_err t @ usage\<rparr>)
      | Ret (opts, cmd # args1) \<Rightarrow>
          (let obj = (case args1 of [] \<Rightarrow> [] | x # _ \<Rightarrow> x); rest = drop 1 args1
           in case cli_request (t_files t) (cli_token opts) cmd obj rest of
                None \<Rightarrow> (Ret 2, t)
              | Some req \<Rightarrow>
                  (let (resp, w) = http_request net (cli_host opts) (cli_port opts) req (t_world t)
                   in apfst Ret (cli_finish fw cmd rest resp (t\<lparr>t_world := w\<rparr>)))))"

section \<open>What handlers reply\<close>

text \<open>A property of every response an action can return.\<close>

definition replies :: "(HttpResponse \<Rightarrow> bool) \<Rightarrow> (HttpResponse, 's) act \<Rightarrow> bool" where
  "replies P m \<longleftrightarrow> (\<forall>s r s'. m s = Some (Ret r, s') \<longrightarrow> P r)"

lemma repliesD: "replies P m \<Longrightarrow> m s = Some (Ret r, s') \<Longrightarrow> P r"
  by (auto simp: replies_def)

lemma replies_return: "P r \<Longrightarrow> replies P (areturn r)"
  by (simp add: replies_def areturn_def)

lemma replies_bind: "(\<And>x. replies P (k x)) \<Longrightarrow> replies P (abind m k)"
  by (auto simp: replies_def abind_def split: option.splits outcome.splits prod.splits)

lemma replies_respond: "(\<And>st. P (status_response st)) \<Longrightarrow> (\<And>x. replies P (k x)) \<Longrightarrow> replies P (or_respond m k)"
  unfolding or_respond_def by (rule replies_bind) (auto intro: replies_return split: result.split)

lemma replies_guarded: "(\<And>st. P (status_response st)) \<Longrightarrow> replies P k \<Longrightarrow> replies P (guarded perm req k)"
  by (auto simp: replies_def guarded_def areturn_def split: result.splits)

lemmas replies_intros = replies_guarded replies_bind replies_respond replies_return

definition reply_fine :: "HttpResponse \<Rightarrow> bool" where
  "reply_fine r \<longleftrightarrow> one_line (content_type r) \<and> 0 \<le> status r \<and> status r < 2 ^ 31"

lemma status_reply: "reply_fine (status_response st)" "400 \<le> status (status_response st)"
  by (auto simp: reply_fine_def status_response_def Let_def newline_def)

lemma plain_replies:
  "reply_fine json_ok" "reply_fine (json_ok\<lparr>status := 201\<rparr>)" "reply_fine (json_count n i)" "reply_fine no_content" "reply_fine (octets bs)"
  "reply_fine (put_reply b k c m)" "reply_fine (metadata_reply md)"
  by (simp_all add: reply_fine_def json_ok_def json_count_def no_content_def octets_def put_reply_def metadata_reply_def newline_def)

lemma handlers_fine:
  "replies reply_fine (handle_put_object env req)" "replies reply_fine (handle_get_object env req)" "replies reply_fine (handle_delete_object env req)"
  "replies reply_fine (handle_metadata env req)" "replies reply_fine (handle_heartbeat env req)" "replies reply_fine (handle_put_chunk env req)"
  "replies reply_fine (handle_get_chunk env req)" "replies reply_fine (handle_delete_chunk env req)"
  "replies reply_fine (handle_healthz env req)" "replies reply_fine (handle_repair env req)" "replies reply_fine (handle_rebalance env req)"
  "replies reply_fine (handle_replay env req)"
  unfolding handle_put_object_def handle_get_object_def handle_delete_object_def handle_metadata_def handle_heartbeat_def handle_put_chunk_def
    handle_get_chunk_def handle_delete_chunk_def handle_repair_def handle_rebalance_def handle_replay_def Let_def
  by (auto intro!: replies_intros status_reply(1) plain_replies split: prod.split)
    (auto simp: replies_def handle_healthz_def areturn_def reply_fine_def newline_def)

lemma metrics_fine: "replies reply_fine (handle_metrics req)"
  by (auto simp: replies_def handle_metrics_def areturn_def reply_fine_def newline_def)

lemma dispatch_fine: "dispatch (routes env) req s = Some (Ret r, s') \<Longrightarrow> reply_fine r"
proof -
  have dispatch: "list_all (\<lambda>(_, _, h). replies reply_fine (h req)) rs \<Longrightarrow> dispatch rs req s = Some (Ret r, s') \<Longrightarrow> reply_fine r"
    for rs :: "(string \<times> string \<times> ('a, 'b) server handler) list"
  proof (induction rs)
    case Nil
    then show ?case by (auto simp: reply_fine_def newline_def)
  qed (auto dest: repliesD split: if_splits)
  show "dispatch (routes env) req s = Some (Ret r, s') \<Longrightarrow> reply_fine r"
    by (rule dispatch [of "routes env"]) (simp_all add: routes_def handlers_fine metrics_fine del: dispatch.simps)
qed

lemma upload_reply:
  assumes "handle_put_object env req s = Some (Ret r, s')" "status r < 300"
  shows "status r = 201"
proof -
  let ?P = "\<lambda>r. 300 \<le> status r \<or> status r = 201"
  have e: "?P (status_response st)" for st using status_reply(2) [of st] by linarith
  have "replies ?P (handle_put_object env req)"
    unfolding handle_put_object_def Let_def
    by (auto intro!: replies_guarded [of ?P] replies_bind replies_respond [of ?P] replies_return [of ?P] e split: prod.split)
      (simp add: put_reply_def)
  then have "?P r" using assms(1) by (rule repliesD)
  then show ?thesis using assms(2) by linarith
qed

section \<open>The client and the server together\<close>

text \<open>A network on which a host and port lead to a server: the bytes of a request arrive in some
  pieces, and when the connection's task sends an answer, that answer comes back.\<close>

definition connects :: "'s network \<Rightarrow> string \<Rightarrow> int \<Rightarrow> (string \<times> string \<times> 's handler) list \<Rightarrow> bool" where
  "connects net host port rs \<longleftrightarrow> (\<forall>msg s. msg \<noteq> [] \<longrightarrow> (\<exists>input. pieces_of msg input \<and>
     (\<forall>raw s'. serve rs input s = Some (Ret raw, s') \<longrightarrow> net host port msg s = (Reply raw, s'))))"

definition received :: "string \<Rightarrow> HttpRequest \<Rightarrow> HttpRequest" where
  "received host req = req\<lparr>headers := fold add_header (sent_headers host req) []\<rparr>"

lemma received_request [simp]: "req_method (received host req) = req_method req" "path (received host req) = path req" "body (received host req) = body req"
  by (simp_all add: received_def)

lemma received_token: "bearer (received host (object_request tok m obj bs)) = tok"
proof -
  have l: "map tolower ''Authorization'' = ''authorization''" "map tolower ''Host'' = ''host''" by code_simp+
  have "map_of (headers (received host (object_request tok m obj bs))) ''authorization'' = Some (''Bearer '' @ tok)"
    by (simp add: received_def sent_headers_def object_request_def add_header_names update_conv' del: list.map) (simp add: add_header_def l update_conv' del: list.map)
  then show ?thesis by (simp add: bearer_def)
qed

lemma client_call:
  assumes "request_ok host req" "connects net host port (routes env)" "dispatch (routes env) (received host req) s = Some (Ret r, s')"
  shows "http_request net host port req s = (Value (r\<lparr>content_type := ''application/json''\<rparr>), s')"
proof -
  have "request_text host req \<noteq> []" by (simp add: request_text_def)
  then obtain input where i: "pieces_of (request_text host req) input"
    "\<And>raw s'. serve (routes env) input s = Some (Ret raw, s') \<Longrightarrow> net host port (request_text host req) s = (Reply raw, s')"
    using assms(2) unfolding connects_def by blast
  have "serve (routes env) input s = Some (Ret (serialize r), s')"
    using assms(3) unfolding received_def by (simp add: serve_def parse_request_text [OF assms(1) i(1)] del: dispatch.simps)
  moreover have "reply_fine r" by (rule dispatch_fine [OF assms(3)])
  ultimately show ?thesis using i(2) by (simp add: http_request_def parse_response_serialize reply_fine_def)
qed

definition command_line :: "string \<Rightarrow> nat \<Rightarrow> string \<Rightarrow> string \<Rightarrow> string \<Rightarrow> string \<Rightarrow> string list" where
  "command_line host n tok cmd obj f = [''--host'', host, ''--port'', to_string n, ''--token'', tok, cmd, obj, f]"

lemma command_line_args:
  assumes "n < 2 ^ 31" "cmd \<notin> {''--host'', ''--port'', ''--token''}"
  shows "cli_args cli_default (command_line host n tok cmd obj f) = Ret (\<lparr>cli_host = host, cli_port = int n, cli_token = tok\<rparr>, [cmd, obj, f])"
  using assms by (simp add: command_line_def cli_default_def)

lemma upload_command:
  assumes "n < 2 ^ 31" "http_request net host (int n) (object_request tok ''PUT'' obj (read_file (t_files t) f)) (t_world t) = (Value r, w)"
  shows "cli_main net fw (command_line host n tok ''upload'' obj f) t =
    (if 300 \<le> status r then (Ret 1, t\<lparr>t_world := w, t_err := t_err t @ bytes_string (resp_body r)\<rparr>)
     else (Ret 0, t\<lparr>t_world := w, t_out := t_out t @ bytes_string (resp_body r)\<rparr>))"
  by (simp add: cli_main_def command_line_args [OF assms(1)] cli_request_def assms(2) cli_finish_def)

lemma download_command:
  assumes "n < 2 ^ 31" "http_request net host (int n) (object_request tok ''GET'' obj []) (t_world t) = (Value r, w)" "status r < 300"
  shows "cli_main net fw (command_line host n tok ''download'' obj f) t =
    (Ret 0, t\<lparr>t_world := w, t_files := write_file fw f (resp_body r) (t_files t)\<rparr>)"
  using assms(3) by (simp add: cli_main_def command_line_args [OF assms(1)] cli_request_def assms(2) cli_finish_def)

lemma object_request_fields [simp]:
  "req_method (object_request tok m obj bs) = m" "path (object_request tok m obj bs) = ''/v1/objects/'' @ obj" "body (object_request tok m obj bs) = bs"
  by (simp_all add: object_request_def)

text \<open>C1: The command-line client and the server together keep a file: when the upload command of a
  file exits with 0 against a node that has no reachable peers and quorums of at most one, the
  download command for the same object exits with 0 and writes the same bytes, through the
  argument parser, both HTTP messages however the network cuts them, the handlers, the metadata,
  the chunk service and the store.\<close>

theorem cli_upload_download:
  fixes t :: "('db, 'w) server terminal"
  assumes "env_ok env" "isolated env" "deletes_complete (e_sql env)" "server_ok (t_world t)" "sv_auth (t_world t) tok = Some {kAdmin}"
    and net: "n < 2 ^ 31" "connects net host (int n) (routes env)" "request_ok host (object_request tok ''PUT'' obj bs)"
      "request_ok host (object_request tok ''GET'' obj [])"
    and bs: "bs = read_file (t_files t) src" "length bs < 2 ^ 31" "chunk_bytes bs (e_chunk_size env) = Some (Ret parts)"
      "\<forall>p \<in> set parts. free_for (local (svc (t_world t))) p" "inj_on Sha256_hex (set parts)"
    and up: "cli_main net fw (command_line host n tok ''upload'' obj src) t = (Ret 0, t1)"
  shows "\<exists>t2. cli_main net (Opened None) (command_line host n tok ''download'' obj dst) t1 = (Ret 0, t2) \<and> t_files t2 dst = Some bs"
proof -
  let ?up = "received host (object_request tok ''PUT'' obj bs)" and ?down = "received host (object_request tok ''GET'' obj [])"
  obtain view tx where sql: "table_ok (e_sql env, view, tx)" using assms(1,3) by (auto simp: env_ok_def)
  have ok: "service_ok (svc (t_world t))" using assms(4) by (simp add: server_ok_def service_tidy_def)
  have "request_fine ?up" using net(3) bs(2) by (auto simp: request_fine_def request_ok_def plain_word_def)
  from dispatch_answers [OF assms(1) this assms(4)] obtain r s1 where r: "dispatch (routes env) ?up (t_world t) = Some (Ret r, s1)" by blast
  have put: "handle_put_object env ?up (t_world t) = Some (Ret r, s1)"
    using r dispatch_object(1) [of ?up env "t_world t"] by (simp del: dispatch.simps)
  note call = upload_command [OF net(1) client_call [OF net(3,2) r, unfolded bs(1)]]
  have st: "status r < 300" "t_world t1 = s1" using up unfolding call by (auto split: if_splits)
  have d: "downloadable view (path ?up) bs s1" "sv_auth s1 = sv_auth (t_world t)"
    using upload_downloadable [OF assms(2) sql ok _ _ _ _ bs(4,5) put upload_reply [OF put st(1)]] bs(2,3) assms(5) by (simp_all add: received_token)
  obtain s2 where "handle_get_object env ?down s1 = Some (Ret (octets bs), s2)"
    using downloadable_answer [OF assms(2) sql, of s1 ?down bs] d assms(5) by (auto simp: received_token)
  then have "dispatch (routes env) ?down s1 = Some (Ret (octets bs), s2)" using dispatch_object(2) [of ?down env s1] by (simp del: dispatch.simps)
  from download_command [OF net(1) client_call [OF net(4,2) this, folded st(2)], of "Opened None" dst]
  show ?thesis by (simp add: octets_def write_file_def)
qed

definition sample_net :: "(table_db, unit) server network" where
  "sample_net host port msg s =
     (case serve (routes sample_env) (map (\<lambda>c. [c]) msg) s of Some (Ret raw, s') \<Rightarrow> (Reply raw, s') | _ \<Rightarrow> (No_connection, s))"

definition sample_terminal :: "(table_db, unit) server terminal" where
  "sample_terminal = \<lparr>t_files = [''f'' \<mapsto> [7]], t_out = [], t_err = [], t_world = sample_server\<rparr>"

lemma sample_net_connects: "connects sample_net host port (routes sample_env)"
proof -
  have "pieces_of msg (map (\<lambda>c. [c]) msg)" for msg :: string by (auto simp: pieces_of_def)
  then show ?thesis unfolding connects_def sample_net_def by (metis (no_types, lifting) option.case(2) outcome.case(1) prod.case)
qed

lemma sample_request_ok_cli: "request_ok ''h'' (object_request ''t'' ''PUT'' ''b/k'' [7])" "request_ok ''h'' (object_request ''t'' ''GET'' ''b/k'' [])"
  by (auto simp: request_ok_def object_request_def plain_word_def isspace_def header_ok_def newline_def
      head_text_def request_line_def sent_headers_def header_text_def crlf_def to_string.simps)

theorem cli_upload_download_witness:
  "\<exists>t1 t2. cli_main sample_net Unopened (command_line ''h'' 1 ''t'' ''upload'' ''b/k'' ''f'') sample_terminal = (Ret 0, t1) \<and>
     cli_main sample_net (Opened None) (command_line ''h'' 1 ''t'' ''download'' ''b/k'' ''g'') t1 = (Ret 0, t2) \<and> t_files t2 ''g'' = Some [7]"
proof -
  let ?req = "object_request ''t'' ''PUT'' ''b/k'' [7]"
  have t: "t_world sample_terminal = sample_server" "read_file (t_files sample_terminal) ''f'' = [7]" by (simp_all add: sample_terminal_def read_file_def)
  have tok: "sv_auth sample_server ''t'' = Some {kAdmin}" using sample_token [of "''PUT''" "[]" "[]"] by (simp add: bearer_def request_to_def)
  obtain r s1 where r: "dispatch (routes sample_env) (received ''h'' ?req) sample_server = Some (Ret r, s1)" "status r = 201"
    using sample_upload [of "received ''h'' ?req"] tok by (auto simp: received_token)
  have call: "http_request sample_net ''h'' (int 1) (object_request ''t'' ''PUT'' ''b/k'' (read_file (t_files sample_terminal) ''f'')) (t_world sample_terminal) =
      (Value (r\<lparr>content_type := ''application/json''\<rparr>), s1)"
    using client_call [OF sample_request_ok_cli(1) sample_net_connects r(1), of "int 1"] by (simp add: t)
  obtain t1 where up: "cli_main sample_net Unopened (command_line ''h'' 1 ''t'' ''upload'' ''b/k'' ''f'') sample_terminal = (Ret 0, t1)"
    using upload_command [OF _ call, of Unopened] r(2) by simp
  have parts: "chunk_bytes [7] (e_chunk_size sample_env) = Some (Ret [[7]])" using sample_parts by (simp add: request_to_def)
  have "\<exists>t2. cli_main sample_net (Opened None) (command_line ''h'' 1 ''t'' ''download'' ''b/k'' ''g'') t1 = (Ret 0, t2) \<and> t_files t2 ''g'' = Some [7]"
    by (rule cli_upload_download [OF sample_env_ok sample_isolated _ _ _ _ sample_net_connects sample_request_ok_cli _ _ parts _ _ up])
      (use sample_server_ok sample_free tok table_sqlite_completes t in \<open>simp_all add: sample_env_def\<close>)
  with up show ?thesis by blast
qed

end
