(* ===== verification/Node_Protocol.thy ===== *)
theory Node_Protocol
  imports Cli
begin

text \<open>
  The calls between nodes from both ends: the client side of \<^verbatim>\<open>src/cluster/node_client.cpp\<close> against
  the handlers of \<^verbatim>\<open>server/main.cpp\<close> on the node it calls. Paths, token, status codes and bodies of
  the two sides fit together.
\<close>

section \<open>A call that reaches a server\<close>

lemma bearer_received:
  assumes "headers req = (''Authorization'', ''Bearer '' @ tok) # hs" "\<forall>h \<in> set hs. map tolower (fst h) \<noteq> ''authorization''"
  shows "bearer (received host req) = tok"
proof -
  have l: "map tolower ''Authorization'' = ''authorization''" by code_simp
  have keep: "map_of (fold add_header hs acc) ''authorization'' = map_of acc ''authorization''"
    if "\<forall>h \<in> set hs. map tolower (fst h) \<noteq> ''authorization''" for hs acc
    using that by (induction hs arbitrary: acc) (auto simp: add_header_def update_conv')
  have "map_of (headers (received host req)) ''authorization'' = Some (''Bearer '' @ tok)"
    using keep [OF assms(2)] by (simp add: received_def sent_headers_def assms(1) add_header_names update_conv' del: list.map)
      (simp add: add_header_def l update_conv' del: list.map)
  then show ?thesis by (simp add: bearer_def)
qed

lemma node_call:
  assumes "split_address (address node) = Ret (host, port)" "request_ok host req" "connects net host port (routes env)"
    "dispatch (routes env) (received host req) s = Some (Ret r, s')"
  shows "call net node req s = (Ret (Value (r\<lparr>content_type := ''application/json''\<rparr>)), s')"
  using client_call [OF assms(2-4)] by (simp add: call_def assms(1))

lemma dispatch_chunk:
  assumes "path req = ''/v1/chunks/'' @ c"
  shows "req_method req = ''PUT'' \<Longrightarrow> dispatch (routes env) req s = handle_put_chunk env req s"
    "req_method req = ''GET'' \<Longrightarrow> dispatch (routes env) req s = handle_get_chunk env req s"
    "req_method req = ''DELETE'' \<Longrightarrow> dispatch (routes env) req s = handle_delete_chunk env req s"
  using assms by (simp_all add: routes_def)

section \<open>The handlers for chunks\<close>

text \<open>The handlers of an administrator's request, with their early returns taken away.\<close>

lemma put_chunk_answer:
  assumes "sv_auth s (bearer req) = Some {kAdmin}" "path req = ''/v1/chunks/'' @ Sha256_hex (body req)" "calm_disk (e_out env)" "store_inv (local (svc s))"
  shows "\<exists>l w. handle_put_chunk env req s = Some (Ret (json_ok\<lparr>status := 201\<rparr>), s\<lparr>svc := (svc s)\<lparr>local := l, world := w\<rparr>\<rparr>) \<and>
    store_inv l \<and> fst (chunk_get l (Sha256_hex (body req))) = Ret (Value (body req))"
proof -
  have after: "path_after ''/v1/chunks/'' (path req) = Ret (Sha256_hex (body req))" by (simp add: path_after_def assms(2))
  obtain l w where l: "local_put (e_out env) (body req) (svc s) =
      (Ret (Value \<lparr>ref_checksum = Sha256_hex (body req), ref_size = of_nat (length (body req))\<rparr>), (svc s)\<lparr>local := l, world := w\<rparr>)"
    "store_inv l" "fst (chunk_get l (Sha256_hex (body req))) = Ret (Value (body req))"
    using local_put_calm [OF assms(3,4), of "body req"] by blast
  then show ?thesis unfolding handle_put_chunk_def guarded_admin [OF assms(1)] after
    by (intro exI [of _ l] exI [of _ w]) (simp add: lift_outcome_def abind_def or_respond_def on_chunks_def areturn_def)
qed

lemma get_chunk_answer:
  assumes "sv_auth s (bearer req) = Some {kAdmin}" "path req = ''/v1/chunks/'' @ c" "fst (chunk_get (local (svc s)) c) = Ret (Value bs)"
  shows "handle_get_chunk env req s = Some (Ret (octets bs), s\<lparr>svc := (svc s)\<lparr>local := snd (chunk_get (local (svc s)) c)\<rparr>\<rparr>)"
proof -
  have after: "path_after ''/v1/chunks/'' (path req) = Ret c" by (simp add: path_after_def assms(2))
  have "local_get c (svc s) = (Ret (Value bs), (svc s)\<lparr>local := snd (chunk_get (local (svc s)) c)\<rparr>)"
    using assms(3) by (cases "chunk_get (local (svc s)) c") (simp add: local_get_def)
  then show ?thesis unfolding handle_get_chunk_def guarded_admin [OF assms(1)] after
    by (simp add: lift_outcome_def abind_def or_respond_def on_chunks_def areturn_def)
qed

lemma delete_chunk_answer:
  assumes "sv_auth s (bearer req) = Some {kAdmin}" "path req = ''/v1/chunks/'' @ c" "fst (o_remove (e_out env) (world (svc s))) = None"
  shows "\<exists>s'. handle_delete_chunk env req s = Some (Ret no_content, s') \<and>
    cs_files (local (svc s')) = (cs_files (local (svc s)))(path_for (cs_root (local (svc s))) c := None) \<and>
    cs_root (local (svc s')) = cs_root (local (svc s))"
proof -
  have after: "path_after ''/v1/chunks/'' (path req) = Ret c" by (simp add: path_after_def assms(2))
  obtain w where "o_remove (e_out env) (world (svc s)) = (None, w)" using assms(3) by (metis prod.collapse)
  then show ?thesis unfolding handle_delete_chunk_def guarded_admin [OF assms(1)] after
    by (simp add: lift_outcome_def abind_def or_respond_def on_chunks_def local_remove_def remove_if_unreferenced_def areturn_def)
qed

section \<open>Properties\<close>

text \<open>C12: Two nodes understand each other: when the address of a node leads to a running server with
  the caller's token and a working disk, the remote put of a chunk is acknowledged, the remote read then
  returns the same bytes, and the remote delete is acknowledged and leaves no file of that chunk.\<close>

theorem replica_protocol:
  fixes bs :: bytes and s :: "('db, 'w) server"
  assumes node: "split_address (address node) = Ret (host, port)" "connects net host port (routes env)"
    and srv: "sv_auth s tok = Some {kAdmin}" "calm_disk (e_out env)" "store_inv (local (svc s))" "\<forall>w. fst (o_remove (e_out env) w) = None"
  defines "ref \<equiv> \<lparr>ref_checksum = Sha256_hex bs, ref_size = of_nat (length bs)\<rparr>"
  assumes req: "request_ok host ((chunk_request tok ''PUT'' (ref_checksum ref))
        \<lparr>headers := [(''Authorization'', ''Bearer '' @ tok), (''X-Chunk-Size'', to_string (unat (ref_size ref)))], body := bs\<rparr>)"
    "request_ok host (chunk_request tok ''GET'' (ref_checksum ref))" "request_ok host (chunk_request tok ''DELETE'' (ref_checksum ref))"
  shows "\<exists>s1 s2 s3. put_chunk net tok node ref bs s = (Ret (Value ()), s1) \<and> get_chunk net tok node (ref_checksum ref) s1 = (Ret (Value bs), s2) \<and>
    delete_chunk net tok node (ref_checksum ref) s2 = (Ret (Value ()), s3) \<and>
    cs_files (local (svc s3)) (path_for (cs_root (local (svc s3))) (ref_checksum ref)) = None"
proof -
  let ?put = "(chunk_request tok ''PUT'' (ref_checksum ref))
        \<lparr>headers := [(''Authorization'', ''Bearer '' @ tok), (''X-Chunk-Size'', to_string (unat (ref_size ref)))], body := bs\<rparr>"
  let ?get = "chunk_request tok ''GET'' (ref_checksum ref)" and ?del = "chunk_request tok ''DELETE'' (ref_checksum ref)"
  have x: "map tolower ''X-Chunk-Size'' \<noteq> ''authorization''" by code_simp
  have tok: "bearer (received host ?put) = tok" "bearer (received host ?get) = tok" "bearer (received host ?del) = tok"
    by (rule bearer_received [where hs = "[(''X-Chunk-Size'', to_string (unat (ref_size ref)))]"])
      (use x in \<open>simp_all add: chunk_request_def bearer_received [where hs = "[]"] del: list.map\<close>)
  have c: "ref_checksum ref = Sha256_hex bs" by (simp add: ref_def)
  have p: "path (received host ?put) = ''/v1/chunks/'' @ Sha256_hex (body (received host ?put))" "body (received host ?put) = bs"
    "path (received host ?get) = ''/v1/chunks/'' @ Sha256_hex bs" "path (received host ?del) = ''/v1/chunks/'' @ Sha256_hex bs"
    "req_method (received host ?put) = ''PUT''" "req_method (received host ?get) = ''GET''" "req_method (received host ?del) = ''DELETE''"
    by (simp_all add: chunk_request_def c)
  obtain l w where l: "handle_put_chunk env (received host ?put) s = Some (Ret (json_ok\<lparr>status := 201\<rparr>), s\<lparr>svc := (svc s)\<lparr>local := l, world := w\<rparr>\<rparr>)"
    "fst (chunk_get l (Sha256_hex bs)) = Ret (Value bs)"
    using put_chunk_answer [OF _ p(1) srv(2,3)] srv(1) tok(1) p(2) by auto
  define s1 where "s1 = s\<lparr>svc := (svc s)\<lparr>local := l, world := w\<rparr>\<rparr>"
  define s2 where "s2 = s1\<lparr>svc := (svc s1)\<lparr>local := snd (chunk_get (local (svc s1)) (Sha256_hex bs))\<rparr>\<rparr>"
  have "handle_get_chunk env (received host ?get) s1 = Some (Ret (octets bs), s2)"
    unfolding s2_def by (rule get_chunk_answer [OF _ p(3)]) (use srv(1) tok(2) l(2) in \<open>simp_all add: s1_def\<close>)
  note g = node_call [OF node(1) req(2) node(2), unfolded dispatch_chunk(2) [OF p(3,6)], OF this]
  obtain s3 where s3: "handle_delete_chunk env (received host ?del) s2 = Some (Ret no_content, s3)"
    "cs_files (local (svc s3)) = (cs_files (local (svc s2)))(path_for (cs_root (local (svc s2))) (Sha256_hex bs) := None)"
    "cs_root (local (svc s3)) = cs_root (local (svc s2))"
    using delete_chunk_answer [OF _ p(4), of s2 env] srv(1,4) tok(3) by (auto simp: s2_def s1_def)
  note d = node_call [OF node(1) req(3) node(2), unfolded dispatch_chunk(3) [OF p(4,7)], OF s3(1)]
  note u = node_call [OF node(1) req(1) node(2), unfolded dispatch_chunk(1) [OF p(1,5)], OF l(1), folded s1_def]
  have "put_chunk net tok node ref bs s = (Ret (Value ()), s1)" unfolding put_chunk_def Let_def u by (simp add: json_ok_def)
  moreover have "get_chunk net tok node (ref_checksum ref) s1 = (Ret (Value bs), s2)" by (simp add: get_chunk_def g octets_def)
  moreover have "delete_chunk net tok node (ref_checksum ref) s2 = (Ret (Value ()), s3)" by (simp add: delete_chunk_def d no_content_def)
  ultimately show ?thesis using s3(2,3) by (auto simp: c)
qed

theorem replica_protocol_witness:
  "\<exists>s1 s2. put_chunk sample_net ''t'' \<lparr>node_id = ''n'', address = ''h'', healthy = True\<rparr> \<lparr>ref_checksum = Sha256_hex [7], ref_size = 1\<rparr> [7] sample_server = (Ret (Value ()), s1) \<and>
     get_chunk sample_net ''t'' \<lparr>node_id = ''n'', address = ''h'', healthy = True\<rparr> (Sha256_hex [7]) s1 = (Ret (Value [7]), s2)"
proof -
  let ?node = "\<lparr>node_id = ''n'', address = ''h'', healthy = True\<rparr>"
  have node: "split_address (address ?node) = Ret (''h'', 8080)" by (simp add: split_address_def rfind_char_def)
  have tok: "sv_auth sample_server ''t'' = Some {kAdmin}" using sample_token [of "''PUT''" "[]" "[]"] by (simp add: bearer_def request_to_def)
  have srv: "calm_disk (e_out sample_env)" "store_inv (local (svc sample_server))" "\<forall>w. fst (o_remove (e_out sample_env) w) = None"
    using sample_service_ok sample_service by (simp_all add: sample_env_def service_ok_def lonely_def)
  have w: "plain_word (''/v1/chunks/'' @ Sha256_hex [7])" using hex_plain [of "[7]"] by (auto simp: plain_word_def isspace_def)
  have ms: "plain_word ''PUT''" "plain_word ''GET''" "plain_word ''DELETE''" by (simp_all add: plain_word_def isspace_def)
  note defs = request_ok_def chunk_request_def header_ok_def newline_def head_text_def request_line_def sent_headers_def header_text_def crlf_def
  have put: "request_ok ''h'' ((chunk_request ''t'' ''PUT'' (Sha256_hex [7]))\<lparr>headers := [(''Authorization'', ''Bearer t''), (''X-Chunk-Size'', ''1'')], body := [7]\<rparr>)"
    using w ms by (simp add: defs length_Sha256_hex to_string.simps)
  have others: "request_ok ''h'' (chunk_request ''t'' ''GET'' (Sha256_hex [7]))" "request_ok ''h'' (chunk_request ''t'' ''DELETE'' (Sha256_hex [7]))"
    using w ms by (simp_all add: defs length_Sha256_hex to_string.simps)
  have one: "to_string 1 = ''1''" by code_simp
  show ?thesis
    using replica_protocol [OF node sample_net_connects tok srv, of "[7]"] put others one by auto
qed

end
