(* ===== verification/Server_Delete.thy ===== *)
theory Server_Delete
  imports Server_Roundtrip
begin

text \<open>
  Deleting an object: it is gone, and the objects that share chunks with it keep them. The
  handler counts the remaining references of each chunk in the metadata and removes the chunk's
  copies only when there is none.
\<close>

section \<open>Removing one chunk\<close>

text \<open>All that a removal may do to the local store: the file of that chunk is gone.\<close>

definition erased :: "string \<Rightarrow> chunk_store \<Rightarrow> chunk_store \<Rightarrow> bool" where
  "erased c l l' \<longleftrightarrow> (\<exists>f. l' = l\<lparr>cs_files := f\<rparr> \<and> (\<forall>p. p \<noteq> path_for (cs_root l) c \<longrightarrow> f p = cs_files l p))"

lemma erased_refl: "erased c l l"
  unfolding erased_def by (rule exI [of _ "cs_files l"]) simp

lemma erased_trans: "erased c l l' \<Longrightarrow> erased c l' l'' \<Longrightarrow> erased c l l''"
  by (force simp: erased_def)

lemma erased_holds:
  assumes "erased c l l'" "holds l q" "digest_name c" "c \<noteq> Sha256_hex q"
  shows "holds l' q"
proof -
  have "path_for (cs_root l) (Sha256_hex q) \<noteq> path_for (cs_root l) c" using path_for_inj [OF digest_name_hex assms(3)] assms(4) by metis
  then show ?thesis using assms(1,2) by (auto simp: erased_def holds_def)
qed

lemma local_remove_erases: "local_remove out c s = (r, s') \<Longrightarrow> erased c (local s) (local s')"
  by (auto simp: local_remove_def remove_if_unreferenced_def erased_refl split: prod.splits option.splits) (auto simp: erased_def)

lemma remove_loop_erases: "remove_loop cfg out c ts acks s = (Ret r, s') \<Longrightarrow> erased c (local s) (local s')"
proof (induction ts arbitrary: acks s)
  case (Cons t ts)
  from Cons.prems obtain x s1 where x: "(if is_self cfg t then local_remove out c s else remote_delete cfg out t c s) = (Ret x, s1)"
    "remove_loop cfg out c ts (if result_ok x then acks + 1 else acks) s1 = (Ret r, s')"
    by (auto simp: sbind_Ret)
  have "erased c (local s) (local s1)"
    using x(1) by (auto simp: remote_delete_def erased_refl split: if_splits prod.splits dest: local_remove_erases)
  with Cons.IH [OF x(2)] show ?case by (blast intro: erased_trans)
qed (simp add: erased_refl)

lemma remove_erases:
  assumes "remove cfg out c n s = Some (Ret r, s')"
  shows "if 0 < n then s' = s else erased c (local s) (local s')"
  using assms by (auto simp: remove_def Let_def sbind_Ret dest!: remove_loop_erases)

lemma nul_not_hex: "\<not> is_hex (CHR 0x00)"
  by (simp add: is_hex_def)

section \<open>Releasing the chunks of an object\<close>

text \<open>What stays as it is while chunks are released: the tables, the tokens, and the chunks \<open>Q\<close> that
  others still refer to.\<close>

definition released :: "('db \<Rightarrow> tables) \<Rightarrow> tables \<Rightarrow> auth \<Rightarrow> bytes set \<Rightarrow> ('db, 'w) server \<Rightarrow> bool" where
  "released view t a Q s \<longleftrightarrow> server_ok s \<and> view (meta s) = t \<and> sv_auth s = a \<and> members (svc s) \<noteq> [] \<and> (\<forall>q \<in> Q. holds (local (svc s)) q)"

lemma release_one:
  assumes "env_ok env" "released view t a Q s" "digest_name c" "n \<le> 0 \<Longrightarrow> c \<notin> Sha256_hex ` Q"
  shows "\<exists>r s'. on_chunks (remove (e_service env) (e_out env) c n) s = Some (Ret r, s') \<and> released view t a Q s'"
proof -
  have s: "server_ok s" "service_ok (svc s)" using assms(2) by (simp_all add: released_def server_ok_def service_tidy_def)
  have cfg: "config_ok (e_service env) (e_out env)" using env_tidy [OF assms(1)] by (simp add: tidy_config_def)
  obtain r c' where r: "remove (e_service env) (e_out env) c n (svc s) = Some (Ret r, c')" "service_tidy c'"
    using remove_tidy [OF env_tidy [OF assms(1)], of "svc s" c n] s(1) by (auto simp: server_ok_def)
  have "members c' \<noteq> []"
    using remove_outcome [OF cfg s(2), of c n] r(1) assms(2) refresh_members_nonempty [of "e_service env" "e_out env" "svc s"]
    by (auto simp: released_def)
  moreover have "\<forall>q \<in> Q. holds (local c') q"
  proof (cases "0 < n")
    case True
    then show ?thesis using remove_erases [OF r(1)] assms(2) by (simp add: released_def)
  next
    case False
    then have e: "erased c (local (svc s)) (local c')" "c \<notin> Sha256_hex ` Q" using remove_erases [OF r(1)] assms(4) by simp_all
    have "holds (local c') q" if "q \<in> Q" for q
      by (rule erased_holds [OF e(1) _ assms(3)]) (use that e(2) assms(2) in \<open>auto simp: released_def\<close>)
    then show ?thesis by blast
  qed
  ultimately show ?thesis using r assms(2) by (auto simp: on_chunks_def released_def server_ok_def)
qed

lemma release_all:
  assumes "env_ok env" "table_ok (e_sql env, view, tx)" "\<forall>x. sel_count x t < 2 ^ 31" "\<forall>q \<in> Q. 0 < sel_count (Sha256_hex q) t"
  shows "\<forall>r \<in> set refs. digest_name (ref_checksum r) \<Longrightarrow> released view t a Q s \<Longrightarrow>
    \<exists>s'. release_chunks env refs s = Some (Ret (), s') \<and> released view t a Q s'"
proof (induction refs arbitrary: s)
  case (Cons ref refs)
  let ?c = "ref_checksum ref"
  have c: "digest_name ?c" using Cons.prems(1) by simp
  then have nul: "c_str ?c = ?c" using nul_not_hex unfolding digest_name_def by (intro c_str_literal) blast
  have v: "view (meta s) = t" using Cons.prems(2) by (simp add: released_def)
  obtain db where db: "chunk_ref_count (e_sql env) ?c (meta s) = (Value (sel_count ?c t), db)" "view db = t"
    using chunk_ref_count_counts [of "e_sql env" view tx ?c "meta s"] assms(2,3) nul v by auto
  have s1: "released view t a Q (s\<lparr>meta := db\<rparr>)" using Cons.prems(2) db(2) by (simp add: released_def server_ok_def)
  have free: "?c \<notin> Sha256_hex ` Q" if "sel_count ?c t \<le> 0" using assms(4) that by force
  obtain r s2 where s2: "on_chunks (remove (e_service env) (e_out env) ?c (sel_count ?c t)) (s\<lparr>meta := db\<rparr>) = Some (Ret r, s2)" "released view t a Q s2"
    using release_one [OF assms(1) s1 c free] by blast
  from Cons.IH [OF _ s2(2)] Cons.prems(1) obtain s3 where s3: "release_chunks env refs s2 = Some (Ret (), s3)" "released view t a Q s3" by auto
  have "release_chunks env (ref # refs) s = Some (Ret (), s3)"
    using s2(1) s3(1) by (simp add: abind_def on_meta_def db(1))
  with s3(2) show ?case by blast
qed (simp add: areturn_def)

section \<open>The handlers\<close>

definition delete_record :: "string \<Rightarrow> string \<Rightarrow> wal_record" where
  "delete_record b k = \<lparr>rec_type = kDeleteObject, rec_key = b @ ''/'' @ k, rec_payload = ''delete''\<rparr>"

lemma log_succeeds:
  assumes "env_ok env" "wal_valid r" "server_ok s"
  shows "\<exists>l w. log_record env r s = Some (Ret (Value ()), s\<lparr>sv_wal := l, svc := (svc s)\<lparr>world := w\<rparr>\<rparr>) \<and> log_ok l"
proof -
  have "fst (e_log env (world (svc s))) = None" using assms(1) by (simp add: env_ok_def)
  then obtain w where "e_log env (world (svc s)) = (None, w)" by (metis prod.collapse)
  moreover obtain l where "wal_append None (sv_wal s) r = (Value (), l)" "log_ok l"
    using log_ok_append assms(2,3) by (auto simp: server_ok_def)
  ultimately show ?thesis by (intro exI [of _ l] exI [of _ w]) (simp add: log_record_def)
qed

lemma delete_answer:
  assumes "env_ok env" "table_ok (e_sql env, view, tx)" "server_ok s" "members (svc s) \<noteq> []" "\<forall>q \<in> Q. holds (local (svc s)) q"
    and req: "sv_auth s (bearer req) = Some {kAdmin}" "object_path (path req) = Ret (b, k)" "\<forall>c \<in> set (b @ k). \<not> isspace c"
    and obj: "object_map (view (meta s)) (c_str b, c_str k) = Some (n, ck, refs)" "\<forall>r \<in> set refs. digest_name (ref_checksum r)"
    and count: "\<forall>x. sel_count x (view (meta s)) < 2 ^ 31"
      "\<And>t. object_map t = (object_map (view (meta s)))((c_str b, c_str k) := None) \<Longrightarrow> \<forall>q \<in> Q. 0 < sel_count (Sha256_hex q) t"
  shows "\<exists>s1. handle_delete_object env req s = Some (Ret no_content, s1) \<and>
    object_map (view (meta s1)) = (object_map (view (meta s)))((c_str b, c_str k) := None) \<and>
    sv_auth s1 = sv_auth s \<and> service_ok (svc s1) \<and> members (svc s1) \<noteq> [] \<and> (\<forall>q \<in> Q. holds (local (svc s1)) q)"
proof -
  let ?m = "metadata_of b k (n, ck, refs)"
  obtain db where db: "get_object (e_sql env) b k (meta s) = (Ret (Value ?m), db)" and chunks: "view db = view (meta s)"
    using get_object_reads [of "e_sql env" view tx b k "meta s"] assms(2) obj(1) by auto
  obtain db' where db': "delete_object (e_sql env) b k db = (Value (), db')"
    "object_map (view db') = (object_map (view (meta s)))((c_str b, c_str k) := None)"
    "t_chunks (view db') = filter (\<lambda>r. fst r \<noteq> (c_str b, c_str k)) (t_chunks (view (meta s)))"
    using delete_object_removes [of "e_sql env" view tx b k db] assms(2) obj(1) chunks by auto
  have get: "on_meta (get_object (e_sql env) b k) s = Some (Ret (Value ?m), s\<lparr>meta := db\<rparr>)" by (simp add: on_meta_def db)
  have valid: "wal_valid (delete_record b k)" unfolding delete_record_def
    by (rule object_record_valid [OF req(3)]) (simp_all add: kDeleteObject_def isspace_def)
  have "server_ok (s\<lparr>meta := db\<rparr>)" using assms(3) by (simp add: server_ok_def)
  from log_succeeds [OF assms(1) valid this] obtain l w where
    log: "log_record env (delete_record b k) (s\<lparr>meta := db\<rparr>) = Some (Ret (Value ()), s\<lparr>meta := db, sv_wal := l, svc := (svc s)\<lparr>world := w\<rparr>\<rparr>)" "log_ok l" by auto
  define s2 where "s2 = s\<lparr>meta := db', sv_wal := l, svc := (svc s)\<lparr>world := w\<rparr>\<rparr>"
  have del: "on_meta (\<lambda>d. apfst Ret (delete_object (e_sql env) b k d)) (s\<lparr>meta := db, sv_wal := l, svc := (svc s)\<lparr>world := w\<rparr>\<rparr>) = Some (Ret (Value ()), s2)"
    by (simp add: on_meta_def db'(1) s2_def)
  have "\<forall>x. sel_count x (view db') < 2 ^ 31" using sel_count_filter [OF db'(3)] count(1) le_less_trans by blast
  moreover have "released view (view db') (sv_auth s) Q s2"
    using assms(3-5) log(2) by (simp add: released_def s2_def server_ok_def service_tidy_def service_ok_def)
  ultimately obtain s3 where s3: "release_chunks env refs s2 = Some (Ret (), s3)" "released view (view db') (sv_auth s) Q s3"
    using release_all [OF assms(1,2) _ count(2) [OF db'(2)] obj(2)] by blast
  have m: "md_chunks ?m = refs" by (simp add: metadata_of_def)
  have "handle_delete_object env req s = or_respond (on_meta (get_object (e_sql env) b k)) (\<lambda>meta. or_respond (log_record env (delete_record b k)) (\<lambda>_.
      or_respond (on_meta (\<lambda>d. apfst Ret (delete_object (e_sql env) b k d))) (\<lambda>_.
        abind (release_chunks env (md_chunks meta)) (\<lambda>_. abind (count_event record_delete) (\<lambda>_. areturn no_content))))) s"
    using req(1,2) by (simp add: handle_delete_object_def guarded_admin lift_outcome_def abind_def delete_record_def)
  also have "\<dots> = Some (Ret no_content, s3\<lparr>sv_metrics := record_delete (sv_metrics s3)\<rparr>)"
    unfolding or_respond_Value [where m = "on_meta (get_object (e_sql env) b k)", OF get] or_respond_Value [where m = "log_record env (delete_record b k)", OF log(1)]
      or_respond_Value [where m = "on_meta (\<lambda>d. apfst Ret (delete_object (e_sql env) b k d))", OF del] m abind_Ret [where m = "release_chunks env refs", OF s3(1)]
    by (simp add: abind_def count_event_def areturn_def)
  finally show ?thesis using s3(2) db'(2) by (auto simp: released_def server_ok_def service_tidy_def)
qed

lemma missing_answer:
  assumes "table_ok (e_sql env, view, tx)" "sv_auth s (bearer req) = Some {kAdmin}" "object_path (path req) = Ret (b, k)"
    "object_map (view (meta s)) (c_str b, c_str k) = None"
  shows "\<exists>s'. handle_get_object env req s = Some (Ret (status_response (NotFound ''object not found'')), s')"
proof -
  obtain db where db: "get_object (e_sql env) b k (meta s) = (Ret (Error (NotFound ''object not found'')), db)"
    using metadata.get_missing [OF assms(1), of "meta s" b k] assms(4) by auto
  then have "on_meta (get_object (e_sql env) b k) s = Some (Ret (Error (NotFound ''object not found'')), s\<lparr>meta := db\<rparr>)" by (simp add: on_meta_def)
  from or_respond_Error [where m = "on_meta (get_object (e_sql env) b k)", OF this] show ?thesis
    using assms(2,3) by (simp add: handle_get_object_def guarded_admin lift_outcome_def abind_def)
qed

section \<open>Properties\<close>

text \<open>C4: Deleting an object removes it and spares the others: the request is answered with 204, the
  object is gone from the metadata and a download of it is answered with 404, every other object
  stays in the metadata, and one that could be downloaded before can be downloaded still, also when
  it shares chunks with the deleted one. The chunks of the deleted object must be named by digests,
  and no chunk may be referenced \<open>2 ^ 31\<close> times, since the count is read into 32 bits.\<close>

theorem delete_spares_others:
  assumes "env_ok env" "table_ok (e_sql env, view, tx)" "server_ok s"
    and del: "sv_auth s (bearer del) = Some {kAdmin}" "req_method del = ''DELETE''" "take (length ''/v1/objects/'') (path del) = ''/v1/objects/''"
      "\<forall>c \<in> set (path del). \<not> isspace c" "object_path (path del) = Ret (b, k)"
    and obj: "object_map (view (meta s)) (c_str b, c_str k) = Some (n, ck, refs)" "\<forall>r \<in> set refs. digest_name (ref_checksum r)"
      "\<forall>x. sel_count x (view (meta s)) < 2 ^ 31"
    and other: "downloadable view p bs s" "object_path p = Ret (b', k')" "(c_str b', c_str k') \<noteq> (c_str b, c_str k)"
    and down: "sv_auth s (bearer down) = Some {kAdmin}" "req_method down = ''GET''" "path down = path del"
  shows "\<exists>s1 s2. dispatch (routes env) del s = Some (Ret no_content, s1) \<and>
    object_map (view (meta s1)) = (object_map (view (meta s)))((c_str b, c_str k) := None) \<and> downloadable view p bs s1 \<and>
    dispatch (routes env) down s1 = Some (Ret (status_response (NotFound ''object not found'')), s2)"
proof -
  from other(1,2) obtain n' parts where o: "members (svc s) \<noteq> []" "concat parts = bs" "\<forall>q \<in> set parts. holds (local (svc s)) q"
    "object_map (view (meta s)) (c_str b', c_str k') = Some (n', Sha256_hex bs, map ref_for parts)"
    by (auto simp: downloadable_def)
  have kept: "object_map t (c_str b', c_str k') = Some (n', Sha256_hex bs, map ref_for parts)"
    if "object_map t = (object_map (view (meta s)))((c_str b, c_str k) := None)" for t using o(4) other(3) that by simp
  have counted: "\<forall>q \<in> set parts. 0 < sel_count (Sha256_hex q) t"
    if "object_map t = (object_map (view (meta s)))((c_str b, c_str k) := None)" for t
    using sel_count_referenced [OF kept [OF that], of "ref_for q" for q] by (metis imageI list.set_map ref_for_checksum)
  have "\<forall>c \<in> set (b @ k). \<not> isspace c" using object_path_parts [OF del(3,4)] del(5) by auto
  from delete_answer [OF assms(1-3) o(1,3) del(1,5) this obj counted] obtain s1 where s1: "handle_delete_object env del s = Some (Ret no_content, s1)"
    "object_map (view (meta s1)) = (object_map (view (meta s)))((c_str b, c_str k) := None)" "sv_auth s1 = sv_auth s" "service_ok (svc s1)"
    "members (svc s1) \<noteq> []" "\<forall>q \<in> set parts. holds (local (svc s1)) q" by blast
  have "downloadable view p bs s1" unfolding downloadable_def
    by (intro conjI exI [of _ b'] exI [of _ k'] exI [of _ n'] exI [of _ parts]) (use s1 other(2) o(2) kept [OF s1(2)] in auto)
  moreover obtain s2 where "handle_get_object env down s1 = Some (Ret (status_response (NotFound ''object not found'')), s2)"
    using missing_answer [OF assms(2), of s1 down b k] s1(2,3) down del(5) by auto
  moreover have "dispatch (routes env) down s1 = handle_get_object env down s1" by (rule dispatch_object(2)) (use down del(3) in simp_all)
  moreover have "dispatch (routes env) del s = handle_delete_object env del s" using del(2,3) by (simp add: routes_def)
  ultimately show ?thesis using s1(1,2) by auto
qed

text \<open>Two objects with the same content, and so with the same chunk.\<close>

definition shared_server :: "(table_db, unit) server" where
  "shared_server = sample_server\<lparr>
     meta := (\<lparr>t_objects = [((''b'', ''k''), 1, Sha256_hex [7]), ((''b'', ''j''), 1, Sha256_hex [7])],
               t_chunks = [((''b'', ''k''), 0, Sha256_hex [7], 1), ((''b'', ''j''), 0, Sha256_hex [7], 1)]\<rparr>, None, 0),
     svc := beat lonely (self two_members) (fresh_service\<lparr>local := snd (chunk_put calm (local fresh_service) [7])\<rparr>)\<rparr>"

lemma shared_server_service: "service_tidy (svc shared_server)" "members (svc shared_server) \<noteq> []" "holds (local (svc shared_server)) [7]"
proof -
  have ok: "node_ok (self two_members)" "tidy_node (self two_members)" "store_inv (local fresh_service)" "service_tidy fresh_service"
    using sample_env_ok sample_server_ok sample_service_ok
    by (auto simp: env_ok_def sample_env_def tidy_config_def config_ok_def server_ok_def sample_server_def service_ok_def)
  have "service_tidy (fresh_service\<lparr>local := snd (chunk_put calm (local fresh_service) [7])\<rparr>)"
    using ok(3,4) chunk_put_inv by (simp add: service_tidy_def service_ok_def)
  from beat_tidy [OF this ok(1,2)] show "service_tidy (svc shared_server)" by (simp add: shared_server_def)
  have free: "free_for (local fresh_service) [7]" using sample_free by (simp add: sample_server_def)
  have "local (svc shared_server) = snd (chunk_put calm (local fresh_service) [7])" by (simp add: shared_server_def beat_def lonely_def)
  then show "holds (local (svc shared_server)) [7]" using chunk_put_holds [OF ok(3) free] by simp
  show "members (svc shared_server) \<noteq> []" by (simp add: shared_server_def beat_members heartbeat_def fresh_service_def)
qed

lemma shared_server_objects:
  "object_map (table_view (meta shared_server)) (''b'', k) = (if k = ''k'' \<or> k = ''j'' then Some (1, Sha256_hex [7], [ref_for [7]]) else None)"
  by (simp add: shared_server_def table_view_def object_map_def sel_object_def sel_chunks_def ref_of_def ref_for_def)

theorem delete_spares_others_witness:
  "\<exists>s1 s2. dispatch (routes sample_env) (request_to ''DELETE'' ''/v1/objects/b/k'' []) shared_server = Some (Ret no_content, s1) \<and>
     downloadable table_view ''/v1/objects/b/j'' [7] s1 \<and>
     dispatch (routes sample_env) (request_to ''GET'' ''/v1/objects/b/k'' []) s1 = Some (Ret (status_response (NotFound ''object not found'')), s2)"
proof -
  have table: "table_ok (e_sql sample_env, table_view, table_tx)" using table_sqlite_laws table_sqlite_completes by (simp add: sample_env_def)
  have ok: "server_ok shared_server" using shared_server_service(1) sample_server_ok by (simp add: server_ok_def) (simp add: shared_server_def)
  have path: "object_path ''/v1/objects/b/k'' = Ret (''b'', ''k'')" "object_path ''/v1/objects/b/j'' = Ret (''b'', ''j'')"
    using object_path_objects [of "''b''" "''k''"] object_path_objects [of "''b''" "''j''"] by simp_all
  have "downloadable table_view ''/v1/objects/b/j'' [7] shared_server" unfolding downloadable_def
    by (intro conjI exI [of _ "''b''"] exI [of _ "''j''"] exI [of _ "1"] exI [of _ "[[7]]"])
      (use shared_server_service path shared_server_objects [of "''j''"] in \<open>simp_all add: service_tidy_def\<close>)
  moreover have "\<forall>x. sel_count x (table_view (meta shared_server)) < 2 ^ 31" by (simp add: shared_server_def table_view_def sel_count_def)
  moreover have "sv_auth shared_server (bearer (request_to m p bs)) = Some {kAdmin}" for m p bs
    using sample_token [of m p bs] by (simp add: shared_server_def)
  ultimately show ?thesis
    using delete_spares_others [OF sample_env_ok table ok, of "request_to ''DELETE'' ''/v1/objects/b/k'' []" "''b''" "''k''" 1 "Sha256_hex [7]" "[ref_for [7]]"
        "''/v1/objects/b/j''" "[7]" "''b''" "''j''" "request_to ''GET'' ''/v1/objects/b/k'' []"] path shared_server_objects [of "''k''"]
    by (auto simp: request_to_def isspace_def)
qed

end
