(* ===== verification/Server_Membership.thy ===== *)
theory Server_Membership
  imports Server_Roundtrip
begin

text \<open>
  What the table of members means for a running server. Every change of the table is a
  heartbeat, so after the start-up and any requests it is the result of some sequence of
  heartbeats; when moving out of a string leaves it empty that table has one entry at most,
  and no read with a quorum of two or more can succeed.
\<close>

section \<open>What an action leaves true\<close>

definition stays :: "('s \<Rightarrow> bool) \<Rightarrow> ('a, 's) act \<Rightarrow> bool" where
  "stays P m \<longleftrightarrow> (\<forall>s r s'. P s \<longrightarrow> m s = Some (r, s') \<longrightarrow> P s')"

named_theorems stays_intros \<open>rules that compose actions that leave a predicate true\<close>

lemma staysD: "stays P m \<Longrightarrow> P s \<Longrightarrow> m s = Some (r, s') \<Longrightarrow> P s'"
  by (auto simp: stays_def)

lemma stays_return [stays_intros]: "stays P (areturn x)"
  by (simp add: stays_def areturn_def)

lemma stays_lift [stays_intros]: "stays P (lift_outcome r)"
  by (simp add: stays_def lift_outcome_def)

lemma stays_bind [stays_intros]:
  assumes "stays P m" "\<And>x. stays P (k x)"
  shows "stays P (abind m k)"
  unfolding stays_def abind_def
  by (auto split: option.splits outcome.splits prod.splits dest: staysD [OF assms(1)] staysD [OF assms(2)])

lemma stays_respond [stays_intros]: "stays P m \<Longrightarrow> (\<And>x. stays P (k x)) \<Longrightarrow> stays P (or_respond m k)"
  unfolding or_respond_def by (intro stays_bind) (auto intro: stays_return split: result.split)

lemma stays_guarded [stays_intros]: "stays P k \<Longrightarrow> stays P (guarded perm req k)"
  by (auto simp: stays_def guarded_def areturn_def split: result.splits)

section \<open>The table is the result of heartbeats\<close>

definition heard :: "'w outside \<Rightarrow> 'w service \<Rightarrow> bool" where
  "heard out c \<longleftrightarrow> (\<exists>beats. members c = after_beats (o_moved out) beats)"

lemma heard_beat: "heard out c \<Longrightarrow> heard out (beat out n c)"
  unfolding heard_def beat_members by (metis after_beats_snoc)

lemma heard_beats: "heard out c \<Longrightarrow> heard out (fold (beat out) ns c)"
  by (induction ns arbitrary: c) (simp_all add: heard_beat)

lemma heard_refresh: "heard out c \<Longrightarrow> heard out (refresh_seed_members cfg out c)"
  by (simp add: refresh_seed_members_def heard_beat heard_beats)

lemma heard_cong: "members c' = members c \<Longrightarrow> heard out c \<Longrightarrow> heard out c'"
  by (simp add: heard_def)

lemma sbind_members:
  assumes "members (snd m) = members c" "\<And>x c1. members c1 = members c \<Longrightarrow> members (snd (k x c1)) = members c"
  shows "members (snd (sbind m k id)) = members c"
  using assms by (cases m; cases "fst m") auto

lemma part_members [simp]:
  "members (snd (local_put out bs c)) = members c" "members (snd (local_get x c)) = members c" "members (snd (local_remove out x c)) = members c"
  "members (snd (remote_put cfg out n ref bs c)) = members c" "members (snd (remote_get cfg out n x c)) = members c"
  "members (snd (remote_delete cfg out n x c)) = members c" "members (snd (add_hint out n ref c)) = members c" "members (snd (set_hints out hs c)) = members c"
  by (simp_all add: local_put_def local_get_def local_remove_def remote_put_def remote_get_def remote_delete_def add_hint_def set_hints_def
      split: prod.split)

lemma put_loop_members: "members (snd (put_loop cfg out ref bs ts acks c)) = members c"
  by (induction cfg out ref bs ts acks c rule: put_loop.induct) (auto intro!: sbind_members split: result.split)

lemma repair_loop_members: "members (snd (repair_loop cfg out ref bs ts c)) = members c"
  by (induction cfg out ref bs ts c rule: repair_loop.induct) (auto intro!: sbind_members)

lemma get_loop_members: "members (snd (get_loop cfg out x ts k e failed c)) = members c"
proof (induction cfg out x ts k e failed c rule: get_loop.induct)
  case (1 cfg out x k e failed c)
  then show ?case by (auto simp: local_fallback_def intro!: sbind_members)
next
  case (2 cfg out x n ts k e failed c)
  then show ?case by (auto simp: fetch_def repair_loop_members intro!: sbind_members split: result.split)
qed

lemma remove_loop_members: "members (snd (remove_loop cfg out x ts acks c)) = members c"
  by (induction cfg out x ts acks c rule: remove_loop.induct) (auto intro!: sbind_members)

lemma replay_loop_members: "members (snd (replay_loop cfg out hs rest n c)) = members c"
  by (induction cfg out hs rest n c rule: replay_loop.induct) (auto intro!: sbind_members split: result.split)

lemma sbind_pure_members: "(\<And>x c1. snd (k x c1) = c1) \<Longrightarrow> members (snd (sbind m k id)) = members (snd m)"
  by (cases m; cases "fst m") auto

lemma heard_put: "stays (heard out) (put cfg out bs)"
proof (unfold stays_def, intro allI impI)
  fix c r c' assume c: "heard out c" "put cfg out bs c = Some (r, c')"
  let ?c = "refresh_seed_members cfg out c"
  have "members c' = members ?c"
    using c(2) part_members(1) [of out bs ?c]
    by (auto simp: put_def sbind_pure_members put_loop_members split: prod.splits outcome.splits result.splits dest!: arg_cong [where f = "members \<circ> snd"])
  then show "heard out c'" using heard_refresh [OF c(1)] by (rule heard_cong)
qed

lemma heard_get: "stays (heard out) (get cfg out x)"
proof (unfold stays_def, intro allI impI)
  fix c r c' assume c: "heard out c" "get cfg out x c = Some (r, c')"
  have "members c' = members (refresh_seed_members cfg out c)"
    using c(2) by (auto simp: get_def Let_def dest!: arg_cong [where f = "members \<circ> snd"] simp: get_loop_members)
  then show "heard out c'" using heard_refresh [OF c(1)] by (rule heard_cong)
qed

lemma heard_remove: "stays (heard out) (remove cfg out x k)"
proof (unfold stays_def, intro allI impI)
  fix c r c' assume c: "heard out c" "remove cfg out x k c = Some (r, c')"
  have "c' = c \<or> members c' = members (refresh_seed_members cfg out c)"
    using c(2) by (auto simp: remove_def Let_def sbind_pure_members remove_loop_members split: if_splits dest!: arg_cong [where f = "members \<circ> snd"])
  then show "heard out c'" using heard_refresh [OF c(1)] c(1) by (auto intro: heard_cong)
qed

lemma heard_local:
  "stays (heard out) (\<lambda>c. Some (local_put out bs c))" "stays (heard out) (\<lambda>c. Some (local_get x c))"
  "stays (heard out) (\<lambda>c. Some (local_remove out x c))" "stays (heard out) (\<lambda>c. Some (Ret (), beat out n c))"
  by (auto simp: stays_def heard_beat intro: heard_cong [OF sym] dest!: arg_cong [where f = "members \<circ> snd"])

lemma heard_replay: "stays (heard out) (\<lambda>c. Some (replay_hinted_handoff cfg out c))"
proof -
  have "members (snd (replay_hinted_handoff cfg out c)) = members c" for c
    by (auto simp: replay_hinted_handoff_def replay_loop_members intro!: sbind_members split: result.split)
  then show ?thesis by (auto simp: stays_def intro: heard_cong [OF sym] dest!: arg_cong [where f = "members \<circ> snd"])
qed

section \<open>The handlers\<close>

abbreviation keyed :: "('db, 'w) server_env \<Rightarrow> ('db, 'w) server \<Rightarrow> bool" where
  "keyed env s \<equiv> heard (e_out env) (svc s)"

lemma stays_chunks [stays_intros]: "stays (heard out) f \<Longrightarrow> stays (\<lambda>s. heard out (svc s)) (on_chunks f)"
  by (auto simp: stays_def on_chunks_def)

lemma stays_meta [stays_intros]: "stays (\<lambda>s. heard out (svc s)) (on_meta f)"
  by (auto simp: stays_def on_meta_def split: prod.splits)

lemma stays_log [stays_intros]: "stays (keyed env) (log_record env rec)"
  by (auto simp: stays_def log_record_def heard_def split: prod.splits)

lemma stays_count [stays_intros]: "stays (\<lambda>s. heard out (svc s)) (count_event f)"
  by (auto simp: stays_def count_event_def)

lemma stays_split [stays_intros]: "stays (\<lambda>s. heard out (svc s)) (split_body env bs)"
  by (auto simp: stays_def split_body_def)

lemma stays_plan_size [stays_intros]: "stays (\<lambda>s. heard out (svc s)) (plan_size env x)"
  by (auto simp: stays_def plan_size_def)

lemmas stays_service = heard_put heard_get heard_remove heard_local heard_replay

lemma stays_put_parts [stays_intros]: "stays (keyed env) (put_parts env parts refs)"
  by (induction env parts refs rule: put_parts.induct) (auto intro!: stays_intros stays_service split: result.split)

lemma stays_fetch_parts [stays_intros]: "stays (keyed env) (fetch_parts env refs acc)"
  by (induction refs arbitrary: acc) (auto intro!: stays_intros stays_service split: result.split)

lemma stays_release [stays_intros]: "stays (keyed env) (release_chunks env refs)"
  by (induction env refs rule: release_chunks.induct) (auto intro!: stays_intros stays_service split: result.split)

lemma stays_repair_chunks: "stays (\<lambda>s. heard out (svc s)) (repair_chunks cfg out cs n)"
  by (induction cfg out cs n rule: repair_chunks.induct) (auto intro!: stays_intros stays_service split: result.split)

lemma stays_repair_objects: "stays (\<lambda>s. heard out (svc s)) (repair_objects sq cfg out xs n)"
  by (induction sq cfg out xs n rule: repair_objects.induct) (auto intro!: stays_intros stays_repair_chunks split: result.split)

lemma stays_repair [stays_intros]: "stays (\<lambda>s. heard out (svc s)) (repair_bucket sq cfg out bucket)"
  unfolding repair_bucket_def by (auto intro!: stays_intros stays_repair_objects split: result.split)

lemma handlers_stay:
  "stays (keyed env) (handle_put_object env req)" "stays (keyed env) (handle_get_object env req)" "stays (keyed env) (handle_delete_object env req)"
  "stays (keyed env) (handle_metadata env req)" "stays (keyed env) (handle_heartbeat env req)" "stays (keyed env) (handle_put_chunk env req)"
  "stays (keyed env) (handle_get_chunk env req)" "stays (keyed env) (handle_delete_chunk env req)"
  "stays (keyed env) (handle_healthz env req)" "stays (keyed env) (handle_repair env req)" "stays (keyed env) (handle_rebalance env req)"
  "stays (keyed env) (handle_replay env req)"
  unfolding handle_put_object_def handle_get_object_def handle_delete_object_def handle_metadata_def handle_heartbeat_def handle_put_chunk_def
    handle_get_chunk_def handle_delete_chunk_def handle_healthz_def handle_repair_def handle_rebalance_def rebalance_bucket_def handle_replay_def Let_def
  by (auto intro!: stays_intros stays_service split: prod.split if_split)

lemma metrics_stay: "stays (keyed env) (handle_metrics req)"
  by (auto simp: stays_def handle_metrics_def areturn_def)

lemma dispatch_stays: "stays (keyed env) (dispatch (routes env) req)"
proof -
  have routed: "stays P (dispatch rs req)" if "list_all (\<lambda>(_, _, h). stays P (h req)) rs" for P and rs :: "(string \<times> string \<times> ('a, 'b) server handler) list"
    using that
  proof (induction rs)
    case Nil
    then show ?case by (simp add: stays_def)
  next
    case (Cons r rs)
    obtain m pre h where r: "r = (m, pre, h)" by (cases r)
    have "dispatch (r # rs) req = (if req_method req = m \<and> take (length pre) (path req) = pre then h req else dispatch rs req)"
      by (rule ext) (simp add: r)
    then show ?case using Cons by (simp add: r)
  qed
  show ?thesis by (rule routed) (simp add: routes_def handlers_stay metrics_stay)
qed

lemma run_keyed: "keyed env s \<Longrightarrow> keyed env (fold (server_step env) reqs s)"
proof (induction reqs arbitrary: s)
  case (Cons req reqs)
  have "keyed env (server_step env req s)"
    using Cons.prems staysD [OF dispatch_stays Cons.prems] by (auto simp: server_step_def split: option.splits)
  then show ?case using Cons.IH by simp
qed simp

lemma boot_keyed:
  assumes "boot sq out io h args = Ret (Running (env, s))"
  shows "e_out env = out" "keyed env s"
proof -
  from boot_running [OF assms] obtain cfg db w where b: "env = start_env sq out io cfg"
    "s = \<lparr>meta = db, svc = start_service out cfg h, sv_auth = add_token auth_new (admin_token cfg) {kAdmin}, sv_metrics = metrics_new, sv_wal = w\<rparr>"
    by blast
  show e: "e_out env = out" by (simp add: b(1) start_env_def Let_def)
  have "heard out c" if "members c = []" for c using that by (auto simp: heard_def after_beats_def intro: exI [of _ "[]"])
  then show "keyed env s" by (simp add: e b(2) start_service_def heard_beats heard_beat)
qed

section \<open>Reads with a quorum\<close>

lemma heard_single:
  assumes "heard out c" "\<And>k. o_moved out k = []"
  shows "length (members c) \<le> 1"
proof -
  obtain beats where b: "members c = after_beats (o_moved out) beats" using assms(1) by (auto simp: heard_def)
  show ?thesis
  proof (cases beats rule: rev_cases)
    case Nil
    then show ?thesis by (simp add: b after_beats_def)
  next
    case (snoc bs x)
    then show ?thesis by (cases x) (simp add: b after_beats_last [OF assms(2)])
  qed
qed

lemma plan_of_few:
  assumes "iteration_order iter" "members_ok c" "length c \<le> 1"
  shows "\<exists>ts. plan_targets hash64 iter c key n = Some ts \<and> length ts \<le> 1"
proof -
  obtain ts where ts: "plan_targets hash64 iter c key n = Some ts" "distinct (map node_id ts)"
    using members_ok_plan [OF assms(1,2)] by blast
  have "members_healthy c" using assms(2) by (auto simp: members_ok_def members_healthy_def node_ok_def)
  with assms(1) have u: "case (iter, c) of (iter, c) \<Rightarrow> iteration_order iter \<and> members_healthy c" by simp
  have sub: "set ts \<subseteq> (\<lambda>(_, s). ns_node s) ` set c" using placement.plan_members [OF u, of hash64 key n ts] ts(1) by simp
  have "length ts = card (set ts)" using ts(2) by (simp add: distinct_card distinct_map)
  also have "\<dots> \<le> card ((\<lambda>(_, s). ns_node s) ` set c)" using sub by (intro card_mono) simp_all
  also have "\<dots> \<le> length c" by (meson card_image_le card_length finite_set le_trans)
  finally show ?thesis using ts(1) assms(3) by auto
qed

lemma fetch_refused:
  assumes "config_ok (e_service env) (e_out env)" "service_ok (svc s)" "length (members (svc s)) \<le> 1"
    "2 \<le> read_quorum (e_service env)" "2 \<le> replication_factor (e_service env)" "refs \<noteq> []"
  shows "fetch_parts env refs acc s = Some (Ret (Error (Unavailable ''insufficient healthy replicas for quorum read'')), s)"
proof (cases refs)
  case (Cons ref rest)
  obtain ts where "plan_targets (o_hash (e_out env)) (o_iter (e_out env)) (members (svc s)) (ref_checksum ref) (replication_factor (e_service env)) = Some ts"
    "length ts \<le> 1"
    using plan_of_few assms(1-3) by (metis config_ok_def service_ok_def)
  then show ?thesis using assms(4,5) Cons
    by (simp add: abind_def plan_size_def read_plan_def write_plan_targets areturn_def)
qed (use assms in simp)

lemma download_refused:
  assumes "env_ok env" "server_ok s" "length (members (svc s)) \<le> 1" "2 \<le> read_quorum (e_service env)" "2 \<le> replication_factor (e_service env)"
    "authorize (sv_auth s) (bearer req) kRead = Value ()" "object_path (path req) = Ret (b, k)"
    "get_object (e_sql env) b k (meta s) = (Ret (Value m), db)" "md_chunks m \<noteq> []"
  shows "handle_get_object env req s =
    Some (Ret (status_response (Unavailable ''insufficient healthy replicas for quorum read'')), s\<lparr>meta := db\<rparr>)"
proof -
  have "config_ok (e_service env) (e_out env)" using env_tidy [OF assms(1)] by (simp add: tidy_config_def)
  moreover have "service_ok (svc (s\<lparr>meta := db\<rparr>))" using assms(2) by (simp add: server_ok_def service_tidy_def)
  ultimately have "fetch_parts env (md_chunks m) [] (s\<lparr>meta := db\<rparr>) =
      Some (Ret (Error (Unavailable ''insufficient healthy replicas for quorum read'')), s\<lparr>meta := db\<rparr>)"
    using fetch_refused [of env "s\<lparr>meta := db\<rparr>"] assms(3-5,9) by simp
  then show ?thesis
    using assms(6-8) by (simp add: handle_get_object_def guarded_def abind_def lift_outcome_def or_respond_def on_meta_def areturn_def)
qed

lemma download_empty:
  assumes "env_ok env" "server_ok s" "length (members (svc s)) \<le> 1" "2 \<le> read_quorum (e_service env)" "2 \<le> replication_factor (e_service env)"
    "handle_get_object env req s = Some (Ret r, s')"
  shows "\<not> (status r = 200 \<and> resp_body r \<noteq> [])"
proof (cases "authorize (sv_auth s) (bearer req) kRead")
  case (Error st)
  then show ?thesis using assms(6) error_reply_status(1) by (auto simp: handle_get_object_def guarded_def areturn_def)
next
  case (Value u)
  then have "object_path (path req) = Ret x \<Longrightarrow> ?thesis" for x
  proof -
    assume x: "object_path (path req) = Ret x"
    obtain b k where bk: "x = (b, k)" by (cases x)
    obtain g db where g: "get_object (e_sql env) b k (meta s) = (Ret g, db)" using get_object_returns [OF assms(1)] by blast
    note handler = handle_get_object_def guarded_def abind_def lift_outcome_def or_respond_def on_meta_def areturn_def count_event_def octets_def
    show ?thesis
    proof (cases g)
      case (Error st)
      then show ?thesis using assms(6) Value x bk g error_reply_status(1) by (auto simp: handler)
    next
      case v: (Value m)
      show ?thesis
      proof (cases "md_chunks m")
        case Nil
        then show ?thesis using assms(6) Value x bk g v error_reply_status(1) by (auto simp: handler split: if_splits)
      next
        case (Cons ref refs)
        then show ?thesis
          using download_refused [OF assms(1-5), of req b k m db] assms(6) Value x bk g v error_reply_status(1) by auto
      qed
    qed
  qed
  moreover have "\<exists>x. object_path (path req) = Ret x"
    using assms(6) Value by (cases "object_path (path req)") (auto simp: handle_get_object_def guarded_def abind_def lift_outcome_def)
  ultimately show ?thesis by blast
qed

section \<open>Properties\<close>

text \<open>C33: Downloads that need two answers are refused forever: when moving out of a string leaves it
  empty, a node that was started with a read quorum and a replication factor of two or more, as
  the default configuration has it, never delivers a byte of an object, whatever requests it has
  served before. A request for an object that is there is answered with 500, for want of
  replicas, and the other nodes are not asked.\<close>

theorem quorum_download_refused:
  fixes reqs :: "HttpRequest list"
  assumes "boot sq out io h args = Ret (Running (env, s0))" "env_ok env" "server_ok s0" "\<And>k. o_moved out k = []"
    "2 \<le> read_quorum (e_service env)" "2 \<le> replication_factor (e_service env)" "\<forall>req \<in> set reqs. request_fine req"
    and down: "req_method down = ''GET''" "take (length ''/v1/objects/'') (path down) = ''/v1/objects/''" "request_fine down"
  defines "s \<equiv> fold (server_step env) reqs s0"
  shows "\<exists>r s'. dispatch (routes env) down s = Some (Ret r, s') \<and> \<not> (status r = 200 \<and> resp_body r \<noteq> []) \<and>
    (\<forall>b k m db. authorize (sv_auth s) (bearer down) kRead = Value () \<and> object_path (path down) = Ret (b, k) \<and>
       get_object (e_sql env) b k (meta s) = (Ret (Value m), db) \<and> md_chunks m \<noteq> [] \<longrightarrow>
       r = status_response (Unavailable ''insufficient healthy replicas for quorum read'') \<and> world (svc s') = world (svc s))"
proof -
  have ok: "server_ok s" unfolding s_def by (rule server_run_ok [OF assms(2,3,7)])
  have "keyed env s" unfolding s_def by (rule run_keyed [OF boot_keyed(2) [OF assms(1)]])
  then have one: "length (members (svc s)) \<le> 1" using heard_single assms(4) boot_keyed(1) [OF assms(1)] by blast
  have d: "dispatch (routes env) down s = handle_get_object env down s" by (rule dispatch_object(2) [OF down(2,1)])
  obtain r s' where r: "handle_get_object env down s = Some (Ret r, s')"
    using dispatch_answers [OF assms(2) down(3) ok] unfolding d by blast
  show ?thesis unfolding d
    using r download_empty [OF assms(2) ok one assms(5,6) r] download_refused [OF assms(2) ok one assms(5,6)] by fastforce
qed

text \<open>A database with one object of one chunk.\<close>

definition one_object :: tables where
  "one_object = \<lparr>t_objects = [((''b'', ''k''), 1, Sha256_hex [7])], t_chunks = [((''b'', ''k''), 0, Sha256_hex [7], 1)]\<rparr>"

definition default_request :: "HttpRequest" where
  "default_request = \<lparr>req_method = ''GET'', path = ''/v1/objects/b/k'', headers = [(''authorization'', ''Bearer admin-token'')], body = []\<rparr>"

theorem quorum_download_refused_witness:
  "\<exists>env s0 r s'. boot table_sqlite lonely (Pair None) (host_with one_object) [] = Ret (Running (env, s0)) \<and>
     object_map (table_view (meta s0)) (''b'', ''k'') = Some (1, Sha256_hex [7], [ref_for [7]]) \<and>
     dispatch (routes env) default_request s0 = Some (Ret r, s') \<and> status r = 500"
proof -
  let ?env = "start_env table_sqlite lonely (Pair None) config_default"
  let ?w = "\<lparr>wal_file = Some [], wal_opened = True, wal_good = True\<rparr>"
  let ?s = "\<lparr>meta = (one_object, None, 0) :: table_db, svc = start_service lonely config_default (host_with one_object),
      sv_auth = add_token auth_new ''admin-token'' {kAdmin}, sv_metrics = metrics_new, sv_wal = ?w\<rparr>"
  have b: "boot table_sqlite lonely (Pair None) (host_with one_object) [] = Ret (Running (?env, ?s))" by (rule sample_boot)
  have wal: "wal_open (h_mkdir_wal (host_with one_object)) (h_open_wal (host_with one_object)) (wal_new (h_text (host_with one_object) (wal_path config_default))) =
      (Ret (Value ()), ?w) \<and> (\<exists>rs. wal_replay ?w = Ret (Value rs))"
    by (simp add: host_with_def config_default_def wal_open_def wal_new_def wal_replay_def)
  have io: "\<forall>w :: unit. fst (Pair (None :: nat option) w) = None" by simp
  have "env_ok ?env \<and> server_ok ?s"
    by (rule boot_ready [OF wal sample_config(2-4) table_sqlite_laws table_sqlite_completes(2) sample_config(5,6) io])
  then have ready: "env_ok ?env" "server_ok ?s" by blast+
  have cfg: "\<And>k. o_moved lonely k = []" "2 \<le> read_quorum (e_service ?env)" "2 \<le> replication_factor (e_service ?env)" "e_sql ?env = table_sqlite"
    by (simp_all add: lonely_def start_env_def Let_def config_default_def)
  have req: "req_method default_request = ''GET''" "take (length ''/v1/objects/'') (path default_request) = ''/v1/objects/''" "request_fine default_request"
    by (simp_all add: default_request_def request_fine_def isspace_def)
  have o: "object_map (table_view (meta ?s)) (c_str ''b'', c_str ''k'') = Some (1, Sha256_hex [7], [ref_for [7]])"
    by (simp add: one_object_def table_view_def object_map_def sel_object_def sel_chunks_def ref_of_def ref_for_def)
  have "table_ok (table_sqlite, table_view, table_tx)" using table_sqlite_laws table_sqlite_completes by simp
  from metadata.get_found [OF this, of "meta ?s" "''b''" "''k''"] o obtain db where
    g: "get_object table_sqlite ''b'' ''k'' (meta ?s) = (Ret (Value (metadata_of ''b'' ''k'' (1, Sha256_hex [7], [ref_for [7]]))), db)" by auto
  have p: "object_path (path default_request) = Ret (''b'', ''k'')" "authorize (sv_auth ?s) (bearer default_request) kRead = Value ()"
    using object_path_objects [of "''b''" "''k''"]
    by (simp_all add: default_request_def authorize_def bearer_def add_token_def auth_new_def)
  have m: "md_chunks (metadata_of ''b'' ''k'' (1, Sha256_hex [7], [ref_for [7]])) \<noteq> []" by (simp add: metadata_of_def)
  have run: "fold (server_step ?env) [] ?s = ?s" "\<forall>req \<in> set []. request_fine req" by simp_all
  from quorum_download_refused [OF b ready cfg(1-3) run(2) req, unfolded run(1) cfg(4)] p g m obtain s' where
    "dispatch (routes ?env) default_request ?s = Some (Ret (status_response (Unavailable ''insufficient healthy replicas for quorum read'')), s')" by blast
  moreover have "status (status_response (Unavailable ''insufficient healthy replicas for quorum read'')) = 500" by (simp add: status_response_def Let_def)
  moreover have "object_map (table_view (meta ?s)) (''b'', ''k'') = Some (1, Sha256_hex [7], [ref_for [7]])" using o by (simp add: c_str_literal)
  ultimately show ?thesis using b by blast
qed

end
