(* ===== verification/Thread_Pool.thy ===== *)
theory Thread_Pool
  imports Main "HOL-Library.Multiset"
begin

text \<open>
  \<^verbatim>\<open>common/thread_pool.h\<close> and \<^verbatim>\<open>src/common/thread_pool.cpp\<close>: the worker threads that run
  the connections of the HTTP server. Each section that holds the mutex is one step; the
  calls of \<^verbatim>\<open>notify_one\<close> and \<^verbatim>\<open>notify_all\<close>, which the code makes after it released the
  mutex, are steps of their own, and so are the spurious wake-ups that a condition variable
  may have. A job ends by returning: \<^verbatim>\<open>std::packaged_task\<close> keeps its exceptions in the future.
\<close>

section \<open>The implementation\<close>

text \<open>Where a worker is in \<^verbatim>\<open>run\<close>: about to test the wait predicate under the mutex, blocked
  in the wait, running a job, or returned.\<close>

datatype 'j worker = Checking | Asleep | Running 'j | Exited

record 'j pool =
  stop_flag :: bool
  jobs :: "'j list"
  workers :: "'j worker list"
  notifies_due :: nat
  notify_all_due :: bool

definition pool_new :: "nat \<Rightarrow> 'j pool" where
  "pool_new n = \<lparr>stop_flag = False, jobs = [], workers = replicate (if n = 0 then 1 else n) Checking,
     notifies_due = 0, notify_all_due = False\<rparr>"

definition submit :: "'j \<Rightarrow> 'j pool \<Rightarrow> 'j pool" where
  "submit j p = p\<lparr>jobs := jobs p @ [j], notifies_due := Suc (notifies_due p)\<rparr>"

definition pool_stop :: "'j pool \<Rightarrow> 'j pool" where
  "pool_stop p = p\<lparr>stop_flag := True, notify_all_due := True\<rparr>"

text \<open>The body of the loop under the mutex: wait, return, or take the job at the front.\<close>

definition run_locked :: "nat \<Rightarrow> 'j pool \<Rightarrow> 'j pool" where
  "run_locked w p =
     (if \<not> (stop_flag p \<or> jobs p \<noteq> []) then p\<lparr>workers := (workers p)[w := Asleep]\<rparr>
      else if stop_flag p \<and> jobs p = [] then p\<lparr>workers := (workers p)[w := Exited]\<rparr>
      else p\<lparr>jobs := tl (jobs p), workers := (workers p)[w := Running (hd (jobs p))]\<rparr>)"

definition wake :: "'j worker \<Rightarrow> 'j worker" where
  "wake x = (if x = Asleep then Checking else x)"

definition pool_join :: "'j pool \<Rightarrow> bool" where
  "pool_join p \<longleftrightarrow> (\<forall>x \<in> set (workers p). x = Exited)"

text \<open>The events; a check carries the state that the worker leaves the mutex with.
  Once the destructor has begun, only a job that is still running can submit.\<close>

datatype 'j event = Submit 'j | Stop | Check nat "'j worker" | Finish nat 'j | Notify nat | Notify_None | Notify_All | Spurious nat

inductive pool_step :: "'j pool \<Rightarrow> 'j event \<Rightarrow> 'j pool \<Rightarrow> bool" where
  Submit: "\<not> stop_flag p \<or> Running k \<in> set (workers p) \<Longrightarrow> pool_step p (Submit j) (submit j p)"
| Stop: "\<not> stop_flag p \<Longrightarrow> pool_step p Stop (pool_stop p)"
| Check: "w < length (workers p) \<Longrightarrow> workers p ! w = Checking \<Longrightarrow>
    pool_step p (Check w (workers (run_locked w p) ! w)) (run_locked w p)"
| Finish: "w < length (workers p) \<Longrightarrow> workers p ! w = Running j \<Longrightarrow>
    pool_step p (Finish w j) (p\<lparr>workers := (workers p)[w := Checking]\<rparr>)"
| Notify: "notifies_due p = Suc n \<Longrightarrow> w < length (workers p) \<Longrightarrow> workers p ! w = Asleep \<Longrightarrow>
    pool_step p (Notify w) (p\<lparr>notifies_due := n, workers := (workers p)[w := Checking]\<rparr>)"
| Notify_None: "notifies_due p = Suc n \<Longrightarrow> Asleep \<notin> set (workers p) \<Longrightarrow> pool_step p Notify_None (p\<lparr>notifies_due := n\<rparr>)"
| Notify_All: "notify_all_due p \<Longrightarrow>
    pool_step p Notify_All (p\<lparr>notify_all_due := False, workers := map wake (workers p)\<rparr>)"
| Spurious: "w < length (workers p) \<Longrightarrow> workers p ! w = Asleep \<Longrightarrow>
    pool_step p (Spurious w) (p\<lparr>workers := (workers p)[w := Checking]\<rparr>)"

inductive pool_run :: "'j pool \<Rightarrow> 'j event list \<Rightarrow> 'j pool \<Rightarrow> bool" where
  Start: "pool_run p [] p"
| More: "pool_run p es q \<Longrightarrow> pool_step q e r \<Longrightarrow> pool_run p (es @ [e]) r"

section \<open>Sums over the workers\<close>

lemma sum_workers_update:
  "w < length ws \<Longrightarrow> sum_list (map f (ws[w := x])) + f (ws ! w) = sum_list (map f ws) + (f x :: 'a::cancel_comm_monoid_add)"
proof (induction ws arbitrary: w)
  case (Cons y ws)
  then show ?case by (cases w) (simp_all add: ac_simps)
qed simp

definition awake :: "'j worker list \<Rightarrow> nat" where
  "awake ws = sum_list (map (\<lambda>x. of_bool (x = Checking)) ws)"

fun held :: "'j worker \<Rightarrow> 'j multiset" where
  "held (Running j) = {#j#}"
| "held _ = {#}"

definition running :: "'j worker list \<Rightarrow> 'j multiset" where
  "running ws = sum_list (map held ws)"

text \<open>What is left to do once nothing is submitted any more.\<close>

fun weight :: "'j worker \<Rightarrow> nat" where
  "weight (Running _) = 3" | "weight Asleep = 2" | "weight Checking = 1" | "weight Exited = 0"

definition pool_rank :: "'j pool \<Rightarrow> nat" where
  "pool_rank p = sum_list (map weight (workers p)) + 4 * length (jobs p) + notifies_due p + of_bool (notify_all_due p)"

lemmas awake_update = sum_workers_update [of _ _ "\<lambda>x. of_bool (x = Checking) :: nat", folded awake_def]
lemmas running_update = sum_workers_update [of _ _ held, folded running_def]
lemmas weight_update = sum_workers_update [of _ _ weight]

lemma awake_pos: "w < length ws \<Longrightarrow> ws ! w = Checking \<Longrightarrow> 0 < awake ws"
  using awake_update [of w ws Exited] by simp

lemma awake_ex: "0 < awake ws \<Longrightarrow> Checking \<in> set ws"
  by (induction ws) (auto simp: awake_def split: if_splits)

lemma awake_wake: "awake ws \<le> awake (map wake ws)"
  unfolding awake_def map_map by (rule sum_list_mono) (simp add: wake_def)

lemma running_wake [simp]: "running (map wake ws) = running ws" for ws :: "'j worker list"
proof -
  have "held (wake x) = held x" for x :: "'j worker" by (simp add: wake_def)
  then show ?thesis by (simp add: running_def comp_def)
qed

lemma weight_wake: "sum_list (map weight (map wake ws)) \<le> sum_list (map weight ws)"
  unfolding map_map by (rule sum_list_mono) (simp add: wake_def)

lemma wake_set [simp]: "Asleep \<notin> wake ` set ws" "Exited \<in> wake ` set ws \<longleftrightarrow> Exited \<in> set ws"
  by (auto simp: wake_def image_iff split: if_splits)

lemma set_update: "w < length ws \<Longrightarrow> y \<noteq> ws ! w \<Longrightarrow> y \<in> set (ws[w := x]) \<longleftrightarrow> y = x \<or> y \<in> set ws"
  by (auto simp: in_set_conv_nth nth_list_update split: if_splits)

section \<open>The invariant\<close>

text \<open>
  Workers return only after the stop; a job in the queue has a worker left to run it; and no
  wake-up is lost: while a worker is blocked, every queued job has a notification under way or
  a worker about to look at the queue.
\<close>

definition pool_inv :: "'j pool \<Rightarrow> bool" where
  "pool_inv p \<longleftrightarrow> workers p \<noteq> [] \<and> (Exited \<in> set (workers p) \<longrightarrow> stop_flag p) \<and>
     (jobs p \<noteq> [] \<longrightarrow> \<not> pool_join p) \<and>
     (Asleep \<in> set (workers p) \<longrightarrow> length (jobs p) \<le> notifies_due p + awake (workers p)) \<and>
     (stop_flag p \<and> Asleep \<in> set (workers p) \<longrightarrow> notify_all_due p)"

lemma pool_inv_new: "pool_inv (pool_new n)"
  by (simp add: pool_inv_def pool_new_def pool_join_def)

lemma not_join_update: "w < length (workers p) \<Longrightarrow> x \<noteq> Exited \<Longrightarrow> \<not> pool_join (p\<lparr>workers := (workers p)[w := x]\<rparr>)"
  by (auto simp: pool_join_def set_update_memI)

lemma pool_join_ext [simp]:
  "pool_join (p\<lparr>jobs := js\<rparr>) = pool_join p" "pool_join (p\<lparr>notifies_due := n\<rparr>) = pool_join p"
  "pool_join (p\<lparr>stop_flag := b\<rparr>) = pool_join p" "pool_join (p\<lparr>notify_all_due := b\<rparr>) = pool_join p"
  by (simp_all add: pool_join_def)

lemma pool_inv_wake_one:
  assumes "pool_inv p" "w < length (workers p)" "workers p ! w = Asleep \<or> (\<exists>j. workers p ! w = Running j)" "n \<le> notifies_due p"
    "workers p ! w = Asleep \<longrightarrow> notifies_due p \<le> Suc n" "workers p ! w \<noteq> Asleep \<longrightarrow> notifies_due p = n"
  shows "pool_inv (p\<lparr>notifies_due := n, workers := (workers p)[w := Checking]\<rparr>)"
proof -
  let ?ws = "(workers p)[w := Checking]"
  have c: "awake ?ws = Suc (awake (workers p))" using awake_update [OF assms(2), of Checking] assms(3) by auto
  have "Exited \<in> set ?ws \<longleftrightarrow> Exited \<in> set (workers p)" using set_update [OF assms(2), of Exited Checking] assms(3) by auto
  moreover have "Asleep \<in> set ?ws \<Longrightarrow> Asleep \<in> set (workers p)" using set_update_subset_insert [of "workers p" w Checking] by auto
  moreover have "\<not> pool_join (p\<lparr>notifies_due := n, workers := ?ws\<rparr>)" using assms(2) by (auto simp: pool_join_def set_update_memI)
  ultimately show ?thesis using assms c by (auto simp: pool_inv_def)
qed

lemma pool_inv_check:
  assumes "pool_inv p" "w < length (workers p)" "workers p ! w = Checking"
  shows "pool_inv (run_locked w p)"
proof -
  have c: "awake ((workers p)[w := x]) = awake (workers p) - 1" if "x \<noteq> Checking" for x
    using awake_update [OF assms(2), of x] assms(3) that by simp
  have s: "y \<in> set ((workers p)[w := x]) \<longleftrightarrow> y = x \<or> y \<in> set (workers p)" if "y \<noteq> Checking" for x y
    using set_update [OF assms(2)] assms(3) that by metis
  have n: "\<not> pool_join (p\<lparr>jobs := js, workers := (workers p)[w := Running j]\<rparr>)" for js j
    using set_update_memI [OF assms(2)] by (force simp: pool_join_def)
  show ?thesis
    using assms n by (cases "jobs p") (auto simp: run_locked_def pool_inv_def c s awake_pos Suc_le_eq)
qed

lemma pool_inv_step: "pool_step p e q \<Longrightarrow> pool_inv p \<Longrightarrow> pool_inv q"
proof (induction rule: pool_step.induct)
  case (Submit p k j)
  then have "\<not> pool_join p" by (fastforce simp: pool_inv_def pool_join_def neq_Nil_conv)
  with Submit show ?case by (auto simp: pool_inv_def submit_def)
next
  case (Stop p)
  then show ?case by (auto simp: pool_inv_def pool_stop_def)
next
  case (Check w p)
  then show ?case by (simp add: pool_inv_check)
next
  case (Finish w p j)
  then show ?case using pool_inv_wake_one [of p w "notifies_due p"] by simp
next
  case (Notify p n w)
  then show ?case using pool_inv_wake_one [of p w n] by simp
next
  case (Notify_None p n)
  then show ?case by (auto simp: pool_inv_def)
next
  case (Notify_All p)
  have "pool_join (p\<lparr>notify_all_due := False, workers := map wake (workers p)\<rparr>) \<Longrightarrow> pool_join p"
    by (auto simp: pool_join_def wake_def split: if_splits)
  with Notify_All show ?case by (auto simp: pool_inv_def)
next
  case (Spurious w p)
  then show ?case using pool_inv_wake_one [of p w "notifies_due p"] by simp
qed

lemma pool_run_inv: "pool_run p es q \<Longrightarrow> pool_inv p \<Longrightarrow> pool_inv q"
  by (induction rule: pool_run.induct) (auto intro: pool_inv_step)

section \<open>What a run does\<close>

definition submitted :: "'j event list \<Rightarrow> 'j list" where
  "submitted es = concat (map (\<lambda>e. case e of Submit j \<Rightarrow> [j] | _ \<Rightarrow> []) es)"

definition finished :: "'j event list \<Rightarrow> 'j list" where
  "finished es = concat (map (\<lambda>e. case e of Finish _ j \<Rightarrow> [j] | _ \<Rightarrow> []) es)"

lemma submitted_simps [simp]:
  "submitted [] = []" "submitted (es @ [e]) = submitted es @ (case e of Submit j \<Rightarrow> [j] | _ \<Rightarrow> [])"
  by (simp_all add: submitted_def)

lemma finished_simps [simp]:
  "finished [] = []" "finished (es @ [e]) = finished es @ (case e of Finish _ j \<Rightarrow> [j] | _ \<Rightarrow> [])"
  by (simp_all add: finished_def)

definition taken :: "'j event list \<Rightarrow> 'j list" where
  "taken es = concat (map (\<lambda>e. case e of Check _ (Running j) \<Rightarrow> [j] | _ \<Rightarrow> []) es)"

lemma taken_simps [simp]:
  "taken [] = []" "taken (es @ [e]) = taken es @ (case e of Check _ (Running j) \<Rightarrow> [j] | _ \<Rightarrow> [])"
  by (simp_all add: taken_def)

text \<open>Every job is in one place: waiting, held by one worker, or finished.\<close>

lemma pool_step_accounts:
  "pool_step p e q \<Longrightarrow>
     mset (jobs q) + running (workers q) + mset (case e of Finish _ j \<Rightarrow> [j] | _ \<Rightarrow> []) =
     mset (jobs p) + running (workers p) + mset (case e of Submit j \<Rightarrow> [j] | _ \<Rightarrow> [])"
proof (induction rule: pool_step.induct)
  case (Check w p)
  then show ?case
    using running_update [OF Check(1)] by (cases "jobs p") (auto simp: run_locked_def)
next
  case (Finish w p j)
  then show ?case using running_update [OF Finish(1), of Checking] by simp
next
  case (Notify p n w)
  then show ?case using running_update [OF Notify(2), of Checking] by simp
next
  case (Spurious w p)
  then show ?case using running_update [OF Spurious(1), of Checking] by simp
qed (simp_all add: submit_def pool_stop_def)

lemma pool_run_accounts:
  "pool_run p es q \<Longrightarrow> mset (jobs q) + running (workers q) + mset (finished es) = mset (jobs p) + running (workers p) + mset (submitted es)"
proof (induction rule: pool_run.induct)
  case (More p es q e r)
  have "mset (jobs r) + running (workers r) + mset (finished (es @ [e])) =
      (mset (jobs r) + running (workers r) + mset (case e of Finish _ j \<Rightarrow> [j] | _ \<Rightarrow> [])) + mset (finished es)"
    by (simp add: ac_simps)
  also have "\<dots> = (mset (jobs q) + running (workers q) + mset (finished es)) + mset (case e of Submit j \<Rightarrow> [j] | _ \<Rightarrow> [])"
    unfolding pool_step_accounts [OF More(2)] by (simp add: ac_simps)
  finally show ?case using More.IH by simp
qed simp

text \<open>Workers take the jobs in the order of their submission.\<close>

lemma pool_step_fifo:
  "pool_step p e q \<Longrightarrow> jobs p @ (case e of Submit j \<Rightarrow> [j] | _ \<Rightarrow> []) = (case e of Check _ (Running j) \<Rightarrow> [j] | _ \<Rightarrow> []) @ jobs q"
  by (induction rule: pool_step.induct) (auto simp: submit_def pool_stop_def run_locked_def)

lemma pool_run_fifo: "pool_run p es q \<Longrightarrow> jobs p @ submitted es = taken es @ jobs q"
proof (induction rule: pool_run.induct)
  case (More p es q e r)
  then show ?case using pool_step_fifo [OF More(2)] by (metis append.assoc submitted_simps(2) taken_simps(2))
qed simp

lemma running_new: "running (replicate k Checking) = {#}"
  by (induction k) (simp_all add: running_def)

section \<open>Progress and shutdown\<close>

definition submits :: "'j event \<Rightarrow> bool" where
  "submits e \<longleftrightarrow> (case e of Submit _ \<Rightarrow> True | _ \<Rightarrow> False)"

lemma pool_stop_kept: "pool_step p e q \<Longrightarrow> stop_flag p \<Longrightarrow> stop_flag q"
  by (induction rule: pool_step.induct) (simp_all add: submit_def pool_stop_def run_locked_def)

lemma pool_rank_step:
  "pool_step p e q \<Longrightarrow> stop_flag p \<Longrightarrow> \<not> submits e \<Longrightarrow> pool_rank q < pool_rank p"
proof (induction rule: pool_step.induct)
  case (Check w p)
  then show ?case
    using weight_update [OF Check(1), of Exited] weight_update [OF Check(1), of "Running (hd (jobs p))"]
    by (cases "jobs p") (auto simp: run_locked_def pool_rank_def)
next
  case (Finish w p j)
  then show ?case using weight_update [OF Finish(1), of Checking] by (simp add: pool_rank_def)
next
  case (Notify p n w)
  then show ?case using weight_update [OF Notify(2), of Checking] by (simp add: pool_rank_def)
next
  case (Notify_All p)
  then show ?case using weight_wake [of "workers p"] by (simp add: pool_rank_def)
next
  case (Spurious w p)
  then show ?case using weight_update [OF Spurious(1), of Checking] by (simp add: pool_rank_def)
qed (simp_all add: pool_rank_def submits_def)

lemma pool_progress:
  assumes "pool_inv p" "stop_flag p \<or> jobs p \<noteq> []" "\<not> pool_join p"
  shows "\<exists>e q. pool_step p e q \<and> (\<forall>j. e \<noteq> Submit j) \<and> e \<noteq> Stop \<and> (\<forall>w. e \<noteq> Spurious w)"
proof -
  obtain x where x: "x \<in> set (workers p)" "x \<noteq> Exited" using assms(3) by (auto simp: pool_join_def)
  then obtain w where w: "w < length (workers p)" "workers p ! w = x" by (auto simp: in_set_conv_nth)
  show ?thesis
  proof (cases x)
    case Checking
    with w show ?thesis using pool_step.Check [of w p] by blast
  next
    case (Running j)
    with w show ?thesis using pool_step.Finish [of w p j] by blast
  next
    case Asleep
    consider "stop_flag p" | "notifies_due p > 0" | "\<not> stop_flag p" "0 < awake (workers p)"
      using assms(1,2) x(1) Asleep by (fastforce simp: pool_inv_def)
    then show ?thesis
    proof cases
      case 1
      then have "notify_all_due p" using assms(1) x(1) Asleep by (simp add: pool_inv_def)
      then show ?thesis using pool_step.Notify_All [of p] by blast
    next
      case 2
      then obtain n where "notifies_due p = Suc n" by (cases "notifies_due p") auto
      then show ?thesis using pool_step.Notify [of p n w] w Asleep by blast
    next
      case 3
      then obtain v where "v < length (workers p)" "workers p ! v = Checking"
        by (auto dest!: awake_ex simp: in_set_conv_nth)
      then show ?thesis using pool_step.Check [of v p] by blast
    qed
  qed (use x in simp)
qed

lemma pool_run_stop_kept: "pool_run p es q \<Longrightarrow> stop_flag p \<Longrightarrow> stop_flag q"
  by (induction rule: pool_run.induct) (auto intro: pool_stop_kept)

lemma pool_run_rank:
  "pool_run p es q \<Longrightarrow> stop_flag p \<Longrightarrow> submitted es = [] \<Longrightarrow> length es + pool_rank q \<le> pool_rank p"
proof (induction rule: pool_run.induct)
  case (More p es q e r)
  then have "\<not> submits e" "submitted es = []" by (auto simp: submits_def split: event.splits)
  moreover from this have "pool_rank r < pool_rank q" using More pool_run_stop_kept by (blast intro: pool_rank_step)
  ultimately show ?case using More by simp
qed simp

lemma join_running: "pool_join p \<Longrightarrow> running (workers p) = {#}"
proof -
  assume "pool_join p"
  then have h: "map held (workers p) = map (\<lambda>_. {#}) (workers p)" by (auto simp: pool_join_def)
  show ?thesis unfolding running_def h by simp
qed

section \<open>Properties\<close>

text \<open>C24: In every run of a pool, with submissions from running jobs during the shutdown included,
  workers take the jobs in the order of submission and each job once; a job taken is held by one
  worker or finished; and when all workers have returned, which is what the destructor waits for, the
  jobs finished are exactly the jobs submitted.\<close>

theorem pool_runs_every_job:
  fixes p :: "'a pool"
  assumes "pool_run (pool_new n) es p"
  shows "taken es @ jobs p = submitted es \<and> mset (taken es) = mset (finished es) + running (workers p) \<and>
    (pool_join p \<longrightarrow> mset (finished es) = mset (submitted es))"
proof -
  have f: "taken es @ jobs p = submitted es" using pool_run_fifo [OF assms] by (simp add: pool_new_def)
  have a: "mset (jobs p) + running (workers p) + mset (finished es) = mset (submitted es)"
    using pool_run_accounts [OF assms] by (simp add: pool_new_def running_new)
  have t: "mset (taken es) = mset (finished es) + running (workers p)"
    using a unfolding f [symmetric] by (simp add: ac_simps)
  have "pool_join p \<Longrightarrow> jobs p = []" using pool_run_inv [OF assms pool_inv_new] by (auto simp: pool_inv_def)
  then show ?thesis using f t a join_running by auto
qed

theorem pool_runs_every_job_witness:
  "\<exists>p. pool_run (pool_new 0) [Submit (7::nat), Check 0 (Running 7), Finish 0 7] p \<and>
    taken [Submit (7::nat), Check 0 (Running 7), Finish 0 7] = [7]"
proof -
  let ?p1 = "submit 7 (pool_new 0) :: nat pool"
  let ?p2 = "run_locked 0 ?p1"
  let ?p3 = "?p2\<lparr>workers := (workers ?p2)[0 := Checking]\<rparr>"
  have "pool_step (pool_new 0) (Submit 7) ?p1" by (rule pool_step.Submit) (simp add: pool_new_def)
  moreover have "pool_step ?p1 (Check 0 (Running 7)) ?p2"
    using pool_step.Check [of 0 ?p1] by (simp add: submit_def pool_new_def run_locked_def)
  moreover have "pool_step ?p2 (Finish 0 7) ?p3"
    by (rule pool_step.Finish) (simp_all add: submit_def pool_new_def run_locked_def)
  ultimately have r: "pool_run (pool_new 0) [Submit (7::nat), Check 0 (Running 7), Finish 0 7] ?p3"
    using pool_run.intros by (metis append_Cons append_Nil)
  have "jobs ?p3 = []" by (simp add: submit_def pool_new_def run_locked_def)
  with r pool_runs_every_job [OF r] show ?thesis by (auto simp: submitted_def)
qed

text \<open>C25: In every reachable state of a pool no wake-up is lost and the shutdown ends: while the
  stop is requested or a job waits, and a worker has not returned, some worker or notification can
  step on its own; once the stop is requested every run without new submissions is bounded, and one
  that cannot be continued has all workers returned, so the joins in the destructor come back.\<close>

theorem pool_shutdown_ends:
  assumes "pool_run (pool_new n) es p"
  shows "(stop_flag p \<or> jobs p \<noteq> [] \<longrightarrow> \<not> pool_join p \<longrightarrow>
      (\<exists>e q. pool_step p e q \<and> (\<forall>j. e \<noteq> Submit j) \<and> e \<noteq> Stop \<and> (\<forall>w. e \<noteq> Spurious w))) \<and>
    (stop_flag p \<longrightarrow> (\<forall>es' q. pool_run p es' q \<and> submitted es' = [] \<longrightarrow> length es' \<le> pool_rank p \<and>
      ((\<forall>e r. pool_step q e r \<longrightarrow> (\<exists>j. e = Submit j)) \<longrightarrow> pool_join q)))"
proof -
  have inv: "pool_inv p" using pool_run_inv [OF assms pool_inv_new] .
  have "length es' \<le> pool_rank p \<and> ((\<forall>e r. pool_step q e r \<longrightarrow> (\<exists>j. e = Submit j)) \<longrightarrow> pool_join q)"
    if "stop_flag p" "pool_run p es' q" "submitted es' = []" for es' q
    using pool_run_rank [OF that(2,1,3)] pool_progress [OF pool_run_inv [OF that(2) inv]] pool_run_stop_kept [OF that(2,1)] by fastforce
  then show ?thesis using pool_progress [OF inv] by blast
qed

theorem pool_shutdown_ends_witness:
  "\<exists>e q. pool_run (pool_new 2) [Stop] (pool_stop (pool_new 2 :: nat pool)) \<and> pool_step (pool_stop (pool_new 2 :: nat pool)) e q \<and> e \<noteq> Stop \<and>
    length [e] \<le> pool_rank (pool_stop (pool_new 2 :: nat pool))"
proof -
  let ?p = "pool_stop (pool_new 2) :: nat pool"
  have run: "pool_run (pool_new 2) ([] @ [Stop]) ?p" by (rule pool_run.More [OF pool_run.Start pool_step.Stop]) (simp add: pool_new_def)
  have stop: "stop_flag ?p" "\<not> pool_join ?p" by (simp_all add: pool_stop_def pool_new_def pool_join_def numeral_2_eq_2)
  with pool_shutdown_ends [OF run] obtain e q where e: "pool_step ?p e q" "\<forall>j. e \<noteq> Submit j" "e \<noteq> Stop" by blast
  have "pool_run ?p [e] q" using pool_run.More [OF pool_run.Start e(1)] by simp
  moreover have "submitted [e] = []" using e(2) by (cases e) (simp_all add: submitted_def)
  ultimately have "length [e] \<le> pool_rank ?p" using pool_shutdown_ends [OF run] stop(1) by blast
  with run e(1,3) show ?thesis by (intro exI [of _ e] exI [of _ q]) simp
qed

end
