(* ===== verification/Http_Listener.thy ===== *)
theory Http_Listener
  imports Http Thread_Pool
begin

text \<open>
  \<^verbatim>\<open>HttpServer\<close> in \<^verbatim>\<open>src/network/http_server.cpp\<close>: its construction, its routes, the set-up of the
  listening socket and the accept loop, which hands every connection to the thread pool. The
  answers of the operating system are parameters. A connection is its socket number; what the
  task for it does is \<open>serve\<close> of theory \<^verbatim>\<open>Http\<close>.
\<close>

section \<open>The implementation\<close>

record 's http_server =
  hs_host :: string
  hs_port :: int
  hs_pool :: "int pool"
  hs_routes :: "(string \<times> string \<times> 's handler) list"

definition http_server_new :: "string \<Rightarrow> int \<Rightarrow> nat \<Rightarrow> 's http_server" where
  "http_server_new host port n = \<lparr>hs_host = host, hs_port = port, hs_pool = pool_new n, hs_routes = []\<rparr>"

definition add_route :: "string \<Rightarrow> string \<Rightarrow> 's handler \<Rightarrow> 's http_server \<Rightarrow> 's http_server" where
  "add_route m p h s = s\<lparr>hs_routes := hs_routes s @ [(m, p, h)]\<rparr>"

text \<open>The port that is bound, in 16 bits. The host is not looked at: the address is \<^verbatim>\<open>INADDR_ANY\<close>.\<close>

definition listen_socket :: "bool \<Rightarrow> (16 word \<Rightarrow> bool) \<Rightarrow> bool \<Rightarrow> 's http_server \<Rightarrow> 16 word result" where
  "listen_socket made bound listening s =
     (let p = word_of_int (hs_port s)
      in if \<not> made then Error (Internal ''socket creation failed'')
         else if \<not> bound p then Error (Internal ''bind failed'')
         else if \<not> listening then Error (Internal ''listen failed'')
         else Value p)"

text \<open>One round of the loop, after \<^verbatim>\<open>accept\<close> has returned.\<close>

definition accept_round :: "int \<Rightarrow> 's http_server \<Rightarrow> 's http_server" where
  "accept_round client s = (if client < 0 then s else s\<lparr>hs_pool := submit client (hs_pool s)\<rparr>)"

text \<open>The loop and the workers run side by side; the pool is never stopped, since the loop never
  ends.\<close>

datatype loop_event = Accept int | Pool "int event"

fun worker_event :: "int event \<Rightarrow> bool" where
  "worker_event (Submit _) = False"
| "worker_event Stop = False"
| "worker_event _ = True"

inductive loop_step :: "'s http_server \<Rightarrow> loop_event \<Rightarrow> 's http_server \<Rightarrow> bool" where
  Accept: "loop_step s (Accept client) (accept_round client s)"
| Pool: "pool_step (hs_pool s) e p \<Longrightarrow> worker_event e \<Longrightarrow> loop_step s (Pool e) (s\<lparr>hs_pool := p\<rparr>)"

inductive loop_run :: "'s http_server \<Rightarrow> loop_event list \<Rightarrow> 's http_server \<Rightarrow> bool" where
  Start: "loop_run s [] s"
| More: "loop_run s es t \<Longrightarrow> loop_step t e u \<Longrightarrow> loop_run s (es @ [e]) u"

section \<open>The loop drives the pool\<close>

fun pool_event :: "loop_event \<Rightarrow> int event list" where
  "pool_event (Accept c) = (if c < 0 then [] else [Submit c])"
| "pool_event (Pool e) = [e]"

definition pool_events :: "loop_event list \<Rightarrow> int event list" where
  "pool_events es = concat (map pool_event es)"

definition accepted :: "loop_event list \<Rightarrow> int list" where
  "accepted es = concat (map (\<lambda>e. case e of Accept c \<Rightarrow> if c < 0 then [] else [c] | Pool _ \<Rightarrow> []) es)"

lemma loop_events [simp]:
  "pool_events [] = []" "pool_events (es @ [e]) = pool_events es @ pool_event e"
  "accepted [] = []" "accepted (es @ [e]) = accepted es @ (case e of Accept c \<Rightarrow> if c < 0 then [] else [c] | Pool _ \<Rightarrow> [])"
  by (simp_all add: pool_events_def accepted_def)

inductive_cases acceptE: "loop_step s (Accept c) t"
inductive_cases poolE: "loop_step s (Pool e) t"

lemma worker_step_stop: "pool_step p e q \<Longrightarrow> worker_event e \<Longrightarrow> stop_flag q = stop_flag p"
  by (induction rule: pool_step.induct) (auto simp: run_locked_def)

lemma loop_simulates:
  "loop_run s es t \<Longrightarrow> \<not> stop_flag (hs_pool s) \<Longrightarrow>
     pool_run (hs_pool s) (pool_events es) (hs_pool t) \<and> submitted (pool_events es) = accepted es \<and> \<not> stop_flag (hs_pool t)"
proof (induction rule: loop_run.induct)
  case (Start s)
  then show ?case by (simp add: pool_run.Start)
next
  case (More s es t e u)
  show ?case
  proof (cases e)
    case (Accept c)
    have u: "u = accept_round c t" using More(2) unfolding Accept by (rule acceptE)
    have "pool_run (hs_pool s) (pool_events es @ [Submit c]) (submit c (hs_pool t))"
      by (rule pool_run.More) (use More in \<open>auto intro: pool_step.Submit\<close>)
    then show ?thesis using More Accept u by (auto simp: accept_round_def submit_def)
  next
    case (Pool e')
    obtain p where p: "u = t\<lparr>hs_pool := p\<rparr>" "pool_step (hs_pool t) e' p" "worker_event e'" using More(2) unfolding Pool by (rule poolE)
    have "submitted (pool_events es @ [e']) = submitted (pool_events es)" using p(3) by (cases e') simp_all
    then show ?thesis using More Pool p(1) worker_step_stop [OF p(2,3)] pool_run.More [OF _ p(2)] by auto
  qed
qed

section \<open>Properties\<close>

text \<open>C26: Every connection that the accept loop takes is served once: along every run of the loop
  beside the workers, the workers take the accepted connections in their order and each once,
  those taken are finished or held by one worker, none is lost, and while one waits some worker
  or notification can step, whatever the loop does.\<close>

theorem accept_loop_serves:
  fixes s t :: "'s http_server"
  assumes "hs_pool s = pool_new n" "loop_run s es t"
  shows "taken (pool_events es) @ jobs (hs_pool t) = accepted es \<and>
    mset (taken (pool_events es)) = mset (finished (pool_events es)) + running (workers (hs_pool t)) \<and>
    (jobs (hs_pool t) \<noteq> [] \<longrightarrow> (\<exists>e u. loop_step t (Pool e) u \<and> (\<forall>w. e \<noteq> Spurious w)))"
proof -
  have "\<not> stop_flag (hs_pool s)" by (simp add: assms(1) pool_new_def)
  from loop_simulates [OF assms(2) this] have sim: "pool_run (pool_new n) (pool_events es) (hs_pool t)" "submitted (pool_events es) = accepted es"
    by (simp_all add: assms(1))
  have f: "taken (pool_events es) @ jobs (hs_pool t) = accepted es" using pool_run_fifo [OF sim(1)] sim(2) by (simp add: pool_new_def)
  have a: "mset (jobs (hs_pool t)) + running (workers (hs_pool t)) + mset (finished (pool_events es)) = mset (accepted es)"
    using pool_run_accounts [OF sim(1)] sim(2) by (simp add: pool_new_def running_new)
  have inv: "pool_inv (hs_pool t)" by (rule pool_run_inv [OF sim(1) pool_inv_new])
  have "\<exists>e u. loop_step t (Pool e) u \<and> (\<forall>w. e \<noteq> Spurious w)" if j: "jobs (hs_pool t) \<noteq> []"
  proof -
    have "\<not> pool_join (hs_pool t)" using inv j by (simp add: pool_inv_def)
    from pool_progress [OF inv _ this] j obtain e q where e: "pool_step (hs_pool t) e q" "\<forall>j. e \<noteq> Submit j" "e \<noteq> Stop" "\<forall>w. e \<noteq> Spurious w" by blast
    then have "worker_event e" by (cases e) simp_all
    with e show ?thesis by (blast intro: loop_step.Pool)
  qed
  then show ?thesis using f a unfolding f [symmetric] by (simp add: ac_simps)
qed

theorem accept_loop_serves_witness:
  "\<exists>t :: unit http_server. loop_run (http_server_new ''0.0.0.0'' 8080 2) [Accept 5, Accept (-1)] t \<and> jobs (hs_pool t) = [5]"
proof -
  let ?s = "http_server_new ''0.0.0.0'' 8080 2 :: unit http_server"
  let ?t = "accept_round (-1) (accept_round 5 ?s)"
  have r: "loop_run ?s (([] @ [Accept 5]) @ [Accept (-1)]) ?t" by (rule loop_run.More [OF loop_run.More [OF loop_run.Start loop_step.Accept] loop_step.Accept])
  have "hs_pool ?s = pool_new 2" by (simp add: http_server_new_def)
  from accept_loop_serves [OF this r] have "jobs (hs_pool ?t) = [5]" by (simp add: accepted_def pool_events_def taken_def)
  with r show ?thesis by auto
qed

end
