(* ===== verification/Server_Main.thy ===== *)
theory Server_Main
  imports Server_Answers Http_Listener
begin

text \<open>
  The whole of \<^verbatim>\<open>main\<close> in \<^verbatim>\<open>src/server/main.cpp\<close>: after the start-up it makes the HTTP server, adds
  the routes one by one, starts the heartbeat worker and runs the server, which only returns when
  the socket cannot be set up. A process that got as far is a \<open>process\<close>: from there on its accept
  loop (\<open>loop_step\<close>), its handlers (\<open>server_step\<close>) and its heartbeat thread (\<open>heartbeat_step\<close>) run. When
  the set-up fails the worker is stopped by its destructor, which ends, and the exit code is 1.
\<close>

section \<open>The implementation\<close>

text \<open>What the operating system answers to the socket calls, and the number of cores it reports.\<close>

record os_answers =
  os_socket :: bool
  os_bind :: "16 word \<Rightarrow> bool"
  os_listen :: bool
  os_cores :: nat

record ('db, 'w) process =
  pr_env :: "('db, 'w) server_env"
  pr_state :: "('db, 'w) server"
  pr_listener :: "('db, 'w) server http_server"
  pr_heartbeat :: heartbeat_worker
  pr_port :: "16 word"

definition make_listener :: "os_answers \<Rightarrow> ('db, 'w) server_env \<Rightarrow> ('db, 'w) server http_server" where
  "make_listener os env = fold (\<lambda>(m, p, h). add_route m p h) (routes env) (http_server_new (e_host env) (e_port env) (os_cores os))"

definition make_heartbeat :: "('db, 'w) server_env \<Rightarrow> heartbeat_worker" where
  "make_heartbeat env = heartbeat_worker_new (client_token (e_service env)) (node_id (self (e_service env))) (seed_members (e_service env)) True"

definition server_main :: "'db sqlite \<Rightarrow> 'w outside \<Rightarrow> ('w \<Rightarrow> nat option \<times> 'w) \<Rightarrow> ('db, 'w) host \<Rightarrow> os_answers \<Rightarrow> string list \<Rightarrow>
    ('db, 'w) process started outcome" where
  "server_main sq out io h os args =
     obind (boot sq out io h args) (\<lambda>st. case st of
         Exit n \<Rightarrow> Ret (Exit n)
       | started.Running (env, s) \<Rightarrow>
           let listener = make_listener os env;
               worker = heartbeat_start (make_heartbeat env)
           in case listen_socket (os_socket os) (os_bind os) (os_listen os) listener of
                Error _ \<Rightarrow> Ret (Exit 1)
              | Value p \<Rightarrow> Ret (started.Running \<lparr>pr_env = env, pr_state = s, pr_listener = listener, pr_heartbeat = worker, pr_port = p\<rparr>))"

text \<open>A process that serves: a worker of the pool runs a handler, or the heartbeat thread takes a
  step, in any order.\<close>

datatype process_event = Request HttpRequest | Heartbeat

inductive process_step :: "('db, 'w) process \<Rightarrow> process_event \<Rightarrow> ('db, 'w) process \<Rightarrow> bool" where
  Handle: "dispatch (routes (pr_env p)) req (pr_state p) = Some (r, s') \<Longrightarrow> process_step p (Request req) (p\<lparr>pr_state := s'\<rparr>)"
| Beats: "heartbeat_step (e_out (pr_env p)) (pr_heartbeat p, svc (pr_state p)) (hw, c) \<Longrightarrow>
    process_step p Heartbeat (p\<lparr>pr_state := (pr_state p)\<lparr>svc := c\<rparr>, pr_heartbeat := hw\<rparr>)"

inductive process_run :: "('db, 'w) process \<Rightarrow> process_event list \<Rightarrow> ('db, 'w) process \<Rightarrow> bool" where
  Begin: "process_run p [] p"
| Continue: "process_run p es q \<Longrightarrow> process_step q e u \<Longrightarrow> process_run p (es @ [e]) u"

inductive_cases process_stepE: "process_step p e q"

section \<open>The parts of a process\<close>

lemma listener_parts:
  "hs_routes (make_listener os env) = routes env" "hs_pool (make_listener os env) = pool_new (os_cores os)" "hs_port (make_listener os env) = e_port env"
proof -
  have "hs_routes (fold (\<lambda>(m, p, h). add_route m p h) rs s) = hs_routes s @ rs \<and> hs_pool (fold (\<lambda>(m, p, h). add_route m p h) rs s) = hs_pool s \<and>
      hs_port (fold (\<lambda>(m, p, h). add_route m p h) rs s) = hs_port s" for rs and s :: "('a, 'b) server http_server"
    by (induction rs arbitrary: s) (auto simp: add_route_def)
  then show "hs_routes (make_listener os env) = routes env" "hs_pool (make_listener os env) = pool_new (os_cores os)" "hs_port (make_listener os env) = e_port env"
    by (simp_all add: make_listener_def http_server_new_def)
qed

lemma exit_obind: "obind m f = Ret y \<Longrightarrow> (\<And>x. f x = Ret y \<Longrightarrow> P) \<Longrightarrow> P"
  by (cases m) auto

lemma exit_result: "(case r of Error _ \<Rightarrow> Ret (Exit 1) | Value x \<Rightarrow> f x) = Ret (Exit n) \<Longrightarrow> (\<And>x. f x = Ret (Exit n) \<Longrightarrow> n = 1) \<Longrightarrow> n = 1"
  by (cases r) auto

lemma exit_pair: "(case m of (x, y) \<Rightarrow> f x y) = Ret z \<Longrightarrow> (\<And>x y. f x y = Ret z \<Longrightarrow> P) \<Longrightarrow> P"
  by (cases m) auto

lemma exit_if: "(if b then Throw e else m) = Ret z \<Longrightarrow> (m = Ret z \<Longrightarrow> P) \<Longrightarrow> P"
  by (auto split: if_splits)

lemma boot_exit: "boot sq out io h args = Ret (Exit n) \<Longrightarrow> n = 1"
  unfolding boot_def Let_def by (elim exit_obind exit_result exit_pair exit_if) simp

lemma listen_socket_eq:
  "listen_socket made bound listening s = Value p \<longleftrightarrow> made \<and> bound p \<and> listening \<and> p = word_of_int (hs_port s)"
  by (auto simp: listen_socket_def Let_def)

lemma server_main_step:
  assumes "boot sq out io h args = Ret (started.Running (env, s))"
  shows "server_main sq out io h os args =
    (if os_socket os \<and> os_bind os (word_of_int (e_port env)) \<and> os_listen os
     then Ret (started.Running \<lparr>pr_env = env, pr_state = s, pr_listener = make_listener os env, pr_heartbeat = heartbeat_start (make_heartbeat env),
       pr_port = word_of_int (e_port env)\<rparr>)
     else Ret (Exit 1))"
  by (simp add: server_main_def assms Let_def listen_socket_def listener_parts)

lemma server_main_cases:
  obtains (Exits) "server_main sq out io h os args = Ret (Exit 1)"
  | (Fails) "\<nexists>r. server_main sq out io h os args = Ret r"
  | (Serves) env s where "boot sq out io h args = Ret (started.Running (env, s))" "os_bind os (word_of_int (e_port env))"
      "server_main sq out io h os args = Ret (started.Running \<lparr>pr_env = env, pr_state = s, pr_listener = make_listener os env,
         pr_heartbeat = heartbeat_start (make_heartbeat env), pr_port = word_of_int (e_port env)\<rparr>)"
proof (cases "boot sq out io h args")
  case (Ret st)
  show ?thesis
  proof (cases st)
    case (Exit n)
    then show ?thesis using Exits boot_exit [of sq out io h args n] Ret by (simp add: server_main_def)
  next
    case (Running x)
    then show ?thesis using Exits Serves Ret server_main_step [of sq out io h args "fst x" "snd x" os] by (cases x) (auto split: if_splits)
  qed
qed (use Fails in \<open>simp_all add: server_main_def\<close>)

section \<open>Handlers and heartbeats side by side\<close>

definition event_fine :: "process_event \<Rightarrow> bool" where
  "event_fine e \<longleftrightarrow> (case e of Request req \<Rightarrow> request_fine req | Heartbeat \<Rightarrow> True)"

definition process_ok :: "('db, 'w) process \<Rightarrow> bool" where
  "process_ok p \<longleftrightarrow> env_ok (pr_env p) \<and> server_ok (pr_state p) \<and> periodic_inv (hw_worker (pr_heartbeat p)) \<and>
     (\<forall>n \<in> set (hw_peers (pr_heartbeat p)). node_ok n \<and> tidy_node n)"

lemma heartbeat_task_tidy:
  "tidy_members (members c) \<Longrightarrow> \<forall>n \<in> set ns. tidy_node n \<Longrightarrow> heartbeat_task out token self_id hc ns c = Some (r, c') \<Longrightarrow> tidy_members (members c')"
proof (induction ns arbitrary: c)
  case Nil
  then show ?case by (simp add: areturn_def)
next
  case (Cons n ns)
  obtain x w where x: "send_heartbeat (o_net out) token n self_id (world c) = (x, w)" by fastforce
  show ?case
  proof (cases x)
    case (Ret result)
    have "tidy_members (members (if result_ok result \<and> hc then beat out n (c\<lparr>world := w\<rparr>) else c\<lparr>world := w\<rparr>))"
      using Cons.prems(1,2) by (simp add: beat_members tidy_heartbeat)
    from Cons.IH [OF this] Cons.prems(2,3) show ?thesis by (simp add: abind_def x Ret)
  qed (use Cons.prems in \<open>auto simp: abind_def x\<close>)
qed

lemma heartbeat_step_tidy:
  assumes "heartbeat_step out (hw, c) (hw', c')" "\<forall>n \<in> set (hw_peers hw). tidy_node n" "tidy_members (members c)"
  shows "tidy_members (members c')"
  using assms(1) by cases (use assms(2,3) heartbeat_task_tidy in blast)+

lemma process_step_ok:
  assumes "process_step p e q" "event_fine e" "process_ok p"
  shows "process_ok q"
  using assms(1)
proof cases
  case (Handle req r s')
  then show ?thesis using dispatch_answers [of "pr_env p" req "pr_state p"] assms(2,3) by (auto simp: process_ok_def event_fine_def)
next
  case (Beats hw c)
  have ok: "service_ok (svc (pr_state p))" "\<forall>n \<in> set (hw_peers (pr_heartbeat p)). node_ok n" "tidy_members (members (svc (pr_state p)))"
    "\<forall>n \<in> set (hw_peers (pr_heartbeat p)). tidy_node n" "queue_ok (handoff (svc (pr_state p)))"
    using assms(3) by (simp_all add: process_ok_def server_ok_def service_tidy_def)
  from heartbeat_step_sim [OF Beats(3) ok(2,1)] heartbeat_step_tidy [OF Beats(3) ok(4,3)] ok(5)
  have "service_tidy c" "periodic_step (hw_worker (pr_heartbeat p)) (hw_worker hw)" "hw_peers hw = hw_peers (pr_heartbeat p)"
    by (simp_all add: service_tidy_def)
  then show ?thesis using assms(3) Beats(2) periodic_step_inv by (auto simp: process_ok_def server_ok_def)
qed

lemma process_run_ok: "process_run p es q \<Longrightarrow> \<forall>e \<in> set es. event_fine e \<Longrightarrow> process_ok p \<Longrightarrow> process_ok q"
  by (induction rule: process_run.induct) (auto intro: process_step_ok)

lemma heartbeat_peers: "hw_peers (heartbeat_start (make_heartbeat env)) = seed_members (e_service env)"
  by (simp add: make_heartbeat_def heartbeat_worker_new_def heartbeat_start_def)

lemma process_fresh: "env_ok env \<Longrightarrow> server_ok s \<Longrightarrow>
  process_ok \<lparr>pr_env = env, pr_state = s, pr_listener = l, pr_heartbeat = heartbeat_start (make_heartbeat env), pr_port = n\<rparr>"
  using env_tidy [of env]
  by (simp add: process_ok_def heartbeat_peers tidy_config_def config_ok_def)
    (simp add: make_heartbeat_def heartbeat_worker_new_def heartbeat_start_def periodic_start_def periodic_new_def periodic_inv_def)

lemma main_running:
  assumes "server_main sq out io h os args = Ret (started.Running pr)"
    "load_config (config_path ''config/dev.toml'' args) (h_text h (config_path ''config/dev.toml'' args)) = Ret (Value cfg)"
    "config_tidy cfg" "queue_ok (h_text h (handoff_path cfg))" "\<forall>t. h_text h (wal_path cfg) = Some t \<longrightarrow> t = [] \<or> last t = newline"
    "sqlite_laws sq view tx" "reads_complete sq" "calm_disk out" "iteration_order (o_iter out)" "\<forall>w. fst (io w) = None"
  shows "\<exists>s. os_bind os (word_of_int (listen_port cfg)) \<and> env_ok (start_env sq out io cfg) \<and> server_ok s \<and> sv_auth s = [admin_token cfg \<mapsto> {kAdmin}] \<and>
    pr = \<lparr>pr_env = start_env sq out io cfg, pr_state = s, pr_listener = make_listener os (start_env sq out io cfg),
      pr_heartbeat = heartbeat_start (make_heartbeat (start_env sq out io cfg)), pr_port = word_of_int (listen_port cfg)\<rparr>"
proof -
  from assms(1) obtain env s where r: "boot sq out io h args = Ret (started.Running (env, s))" "os_bind os (word_of_int (e_port env))"
    "pr = \<lparr>pr_env = env, pr_state = s, pr_listener = make_listener os env, pr_heartbeat = heartbeat_start (make_heartbeat env), pr_port = word_of_int (e_port env)\<rparr>"
    by (cases rule: server_main_cases [of sq out io h os args]) auto
  from boot_running [OF r(1)] assms(2) obtain db w where b:
    "wal_open (h_mkdir_wal h) (h_open_wal h) (wal_new (h_text h (wal_path cfg))) = (Ret (Value ()), w) \<and> (\<exists>rs. wal_replay w = Ret (Value rs))"
    "env = start_env sq out io cfg" "s = \<lparr>meta = db, svc = start_service out cfg h, sv_auth = add_token auth_new (admin_token cfg) {kAdmin},
      sv_metrics = metrics_new, sv_wal = w\<rparr>" by auto
  have "env_ok env \<and> server_ok s" using boot_ready [OF b(1) assms(3-10), of db "sv_auth s"] by (simp add: b(2,3))
  moreover have "e_port env = listen_port cfg" by (simp add: b(2) start_env_def Let_def)
  moreover have "sv_auth s = [admin_token cfg \<mapsto> {kAdmin}]" by (simp add: b(3) add_token_def auth_new_def)
  ultimately show ?thesis using r(2,3) b(2) by auto
qed

section \<open>Properties\<close>


text \<open>A start of the default configuration on an empty host.\<close>

definition sample_os :: os_answers where
  "sample_os = \<lparr>os_socket = True, os_bind = (\<lambda>p. p = 8080), os_listen = True, os_cores = 0\<rparr>"

definition empty_host :: "(table_db, unit) host" where
  "empty_host = host_with \<lparr>t_objects = [], t_chunks = []\<rparr>"

lemma sample_main: "\<exists>pr. server_main table_sqlite lonely (Pair None) empty_host sample_os [] = Ret (started.Running pr)"
proof -
  have "e_port (start_env table_sqlite lonely (Pair None) config_default) = 8080" by (simp add: start_env_def Let_def config_default_def)
  then show ?thesis
    using server_main_step [OF sample_boot [of "\<lparr>t_objects = [], t_chunks = []\<rparr>"], of sample_os] by (simp add: empty_host_def sample_os_def)
qed

lemma no_log_error: "\<forall>w :: unit. fst (Pair (None :: nat option) w) = None"
  by simp

lemmas empty_config = sample_config(1) [of "\<lparr>t_objects = [], t_chunks = []\<rparr>", folded empty_host_def] sample_config(2)
  sample_config(3) [of "\<lparr>t_objects = [], t_chunks = []\<rparr>", folded empty_host_def] sample_config(4) [of "\<lparr>t_objects = [], t_chunks = []\<rparr>", folded empty_host_def]
  table_sqlite_laws table_sqlite_completes(2) sample_config(5,6) no_log_error




end
