(* ===== verification/Spec2Isabelle.thy ===== *)
theory Spec2Isabelle
  imports Wire_Frame Raft Logger Node_Protocol Server_Delete Server_Membership Server_Main
begin

text \<open>
  \<^bold>\<open>A verification library for dstore, a distributed object store in C++.\<close>

  \<^bold>\<open>The program.\<close> A node (\<^verbatim>\<open>src/server/main.cpp\<close>) serves objects over HTTP. An upload is
  logged, split into chunks, and every chunk is stored under its SHA-256 digest on this node and
  on the other replicas of a plan, which a consistent-hash ring gives; the list of chunks goes into
  SQLite. A download reads the list, fetches each chunk from a quorum of replicas, and compares the
  digest of the whole. Replicas that could not be reached are noted in a hinted-handoff file and
  served later. Nodes send heartbeats; a repair run reads and stores the chunks of a bucket again.
  A command-line client (\<^verbatim>\<open>src/client/main.cpp\<close>) makes single requests. A Raft node, a binary
  frame format and a leader election are in the library beside it; the server does not call them.

  \<^bold>\<open>The theories\<close>, in the order of their dependence (sources below \<^verbatim>\<open>src/src\<close> and
  \<^verbatim>\<open>src/include/dstore\<close> unless named in full):

  \<^item> \<^verbatim>\<open>Prelude\<close>: fixed-width integers, bytes, outcomes of a call (\<open>Ret\<close>, \<open>Throw\<close> with the exception,
    \<open>Undefined\<close> for behaviour C++ leaves open), actions on a state that may also not end (\<open>act\<close>), and the
    rules \<open>ends\<close> and \<open>keeps\<close> for them. \<^verbatim>\<open>Cpp_Text\<close>: the string functions of the standard library.
    \<^verbatim>\<open>Status_Result\<close>: \<^verbatim>\<open>common/result.h\<close>. \<^verbatim>\<open>Codec\<close> and \<^verbatim>\<open>Machine\<close>: the contracts of encodings and of
    machines with an invariant, as locales.
  \<^item> \<^verbatim>\<open>Sha256\<close>: \<^verbatim>\<open>common/sha256.cpp\<close>, equal to FIPS 180-4 however the input is cut. \<^verbatim>\<open>Lru_Cache\<close>:
    \<^verbatim>\<open>common/lru_cache.h\<close>, list, index and iterators, refining a list in order of use (locale \<open>cache\<close>).
    \<^verbatim>\<open>Auth_Manager\<close>, \<^verbatim>\<open>Metrics_Counters\<close>, \<^verbatim>\<open>Config\<close>, \<^verbatim>\<open>Logger\<close>: \<^verbatim>\<open>common/auth.cpp\<close>, \<^verbatim>\<open>metrics.cpp\<close>,
    \<^verbatim>\<open>config.cpp\<close>, \<^verbatim>\<open>logger.cpp\<close>.
    \<^verbatim>\<open>Thread_Pool\<close>: \<^verbatim>\<open>common/thread_pool.cpp\<close> as a step relation over its critical sections, with
    notifications and spurious wake-ups.
  \<^item> \<^verbatim>\<open>Wire_Frame\<close>, \<^verbatim>\<open>Wal_Log\<close>, \<^verbatim>\<open>Hinted_Handoff\<close>: \<^verbatim>\<open>network/wire.cpp\<close>, \<^verbatim>\<open>durability/wal.cpp\<close>,
    \<^verbatim>\<open>cluster/hinted_handoff.cpp\<close>, each an interpretation of a codec; torn writes are modelled.
  \<^item> \<^verbatim>\<open>Hash_Ring\<close>, \<^verbatim>\<open>Cluster_State\<close>: \<^verbatim>\<open>storage/consistent_hash.cpp\<close> and \<^verbatim>\<open>replication.cpp\<close>; the ring's
    walk is a partial function, since it need not end (locale \<open>planner\<close> for what a plan promises).
    \<^verbatim>\<open>Chunk_Store\<close>: \<^verbatim>\<open>storage/chunk_store.cpp\<close>.
  \<^item> \<^verbatim>\<open>Raft\<close>: \<^verbatim>\<open>cluster/raft.cpp\<close>, all operations, with 64-bit terms and indices.
  \<^item> \<^verbatim>\<open>Http\<close>, \<^verbatim>\<open>Http_Listener\<close>: \<^verbatim>\<open>network/http_server.cpp\<close>, the messages and the client call, and the
    listening socket with the accept loop over the pool. \<^verbatim>\<open>Node_Client\<close>: \<^verbatim>\<open>cluster/node_client.cpp\<close>.
  \<^item> \<^verbatim>\<open>Chunk_Service\<close>: \<^verbatim>\<open>cluster/distributed_chunk_service.cpp\<close>, with the state \<open>service\<close> (local
    store, members, handoff file, outside world). \<^verbatim>\<open>Metadata_Store\<close>: \<^verbatim>\<open>metadata/metadata_store.cpp\<close>.
    \<^verbatim>\<open>Workers\<close>: \<^verbatim>\<open>cluster/repair_worker.cpp\<close> and \<^verbatim>\<open>background_worker.cpp\<close>.
  \<^item> \<^verbatim>\<open>Server\<close>: \<^verbatim>\<open>src/server/main.cpp\<close>, the start-up (\<open>boot\<close>) and the thirteen handlers (\<open>routes\<close>) on the state
    \<open>server\<close>. \<^verbatim>\<open>Server_Answers\<close>, \<^verbatim>\<open>Server_Roundtrip\<close>, \<^verbatim>\<open>Server_Delete\<close> and \<^verbatim>\<open>Server_Membership\<close> hold
    its theorems, over the interfaces \<open>object_table\<close> of the metadata and \<open>chunk_keeper\<close> (\<^verbatim>\<open>Held_Chunks\<close>) of the chunk store. \<^verbatim>\<open>Server_Main\<close>: all of \<^verbatim>\<open>main\<close>, with the
    listener and the heartbeat worker. \<^verbatim>\<open>Cli\<close>: \<^verbatim>\<open>src/client/main.cpp\<close>,
    and the client run against the server; \<^verbatim>\<open>Node_Protocol\<close>: the node client run against it.

  \<^bold>\<open>What the theorems show.\<close>

  \<^item> The system: a file uploaded by the client is downloaded unchanged, through every layer
    (C1, C11); every request of every sequence is answered and the log stays replayable (C3),
    also when the heartbeat thread runs in between (C2); a
    node that comes to serve satisfies the invariants the handlers need, with all its routes and a running heartbeat thread (C21); a request without a known token
    changes nothing (C22); a deleted object is gone and spares the
    chunks that others share with it (C4).
  \<^item> Replication: what a put, a read and a replay of the handoff file guarantee for every behaviour
    of the network (C5, C6, C20); completeness of placement, and exactly when the
    ring's walk does not end (C29, C30); what a node sends is what the server of another accepts
    (C12); the end of a repair (C28).
  \<^item> Storage: integrity of what a store returns after any damage (C7), durability (C8), the cache (C17), the digest (C13); metadata as a map, and its atomicity (C9, C23).
  \<^item> Formats: HTTP exchanges (C18), the log (C19), frames (C31), configuration (C32).
  \<^item> Concurrency: the pool runs every job once and shuts down (C24, C25), the accept loop loses no
    connection (C26), the heartbeat thread runs beside its node and stops (C27).
  \<^item> Raft: log and term invariants along every run (C10), catching up (C14), votes (C15), commits (C16).
  \<^item> Behaviour that is not what the code or its documents intend, as theorems about it: the table of members,
    which is keyed by a string whose content was already moved out and so keeps the last node only
    (C34), and the downloads that are refused for it (C33); an
    over-read in the frame decoder (C35), two leaders in one term and the loss of a committed entry
    (C36, C37), unverified remote reads (C38), damaged chunks that no put repairs (C39), deletions
    outside the chunk directory (C40). Further theorems of this kind stand in the component's theory
    without a number.

  \<^bold>\<open>Parameters.\<close> Code outside the repository is an argument of the definitions. \<open>network\<close> and the
  record \<open>outside\<close> give what peers, the clock, the disk, \<^verbatim>\<open>std::hash\<close>, the iteration order of an unordered
  map and a string after its content was moved out (\<open>o_moved\<close>) are; only the iteration order is assumed to be a
  permutation, theorems about the lost members assume that a moved-from string is empty, all others hold
  whatever it holds, and theorems that need a
  working disk (\<open>calm_disk\<close>) or a node that reaches no peer (\<open>isolated\<close>) say so. \<open>sqlite\<close> is the
  database; \<open>sqlite_laws\<close> states the documented meaning of the statements the code prepares, with
  failures allowed at every step, and \<open>table_sqlite\<close> is an instance that obeys them. No theorem
  assumes that the digest is free of collisions in general: where two chunks must be told
  apart, that is a hypothesis on these chunks (\<open>free_for\<close>, \<open>inj_on\<close>).

  \<^bold>\<open>Bounds.\<close> There is no fuel. Recursion follows the data or has a termination proof; the ring's walk is
  a partial function into \<open>option\<close>. Theorems over Raft runs assume that no 64-bit counter wraps around;
  an object of the server theorems has less than \<open>2 ^ 31\<close> bytes, the range of the counter of its
  chunk rows and of the lengths passed to \<^verbatim>\<open>send\<close>.

  \<^bold>\<open>Not modelled.\<close> The benchmarks, which only measure time; the calls of the logger in the other components, which nothing reads; the Windows branch of the socket code. Handlers run one at a time in \<^verbatim>\<open>Server\<close> and \<^verbatim>\<open>Server_Main\<close>, where
  the heartbeat thread runs between them: the pool interleaves them, and where that matters (the shared database connection, the handoff file between load
  and rewrite) a separate theorem describes the race. The write-ahead log is validated at
  start-up and not applied to the state, in the program as in the model.
\<close>

end
